(* ===== verification/Prelude.thy ===== *)
theory Prelude
  imports Main "HOL-Library.Word"
begin

text \<open>
  Shared vocabulary of the development.

  \<^item> The result type of fallible Rust functions, \<open>'e + 'a\<close> with \<open>Inl\<close> for \<open>Err\<close> and
    \<open>Inr\<close> for \<open>Ok\<close>, and \<open>rbind\<close>, the question mark operator.
  \<^item> Bytes as 8-bit words, and the big-endian encodings \<open>to_be_bytes\<close>/\<open>from_be_bytes\<close> of Rust's
    fixed-width integers. A signed or unsigned machine integer is an \<open>int\<close>; the predicates
    \<open>fits_s n\<close> and \<open>fits_u n\<close> say that it is a value of the \<open>n\<close>-byte type, and casts that may lose
    bits (\<open>as u16\<close>, \<open>as u32\<close>) are written out.
  \<^item> The cursor read \<open>take_n\<close> that every decoder uses.

  The collection \<open>codec_simps\<close> holds the length and round-trip facts the codecs rewrite with.
\<close>

named_theorems codec_simps "length and round-trip facts of the byte encodings"
named_theorems result_simps "inversion of the result combinators"

section \<open>Options\<close>

definition unwrap_or :: "'a \<Rightarrow> 'a option \<Rightarrow> 'a" where
  "unwrap_or d x = (case x of None \<Rightarrow> d | Some a \<Rightarrow> a)"

definition is_none_or :: "'a option \<Rightarrow> ('a \<Rightarrow> bool) \<Rightarrow> bool" where
  "is_none_or x P = (case x of None \<Rightarrow> True | Some a \<Rightarrow> P a)"

definition is_some_and :: "'a option \<Rightarrow> ('a \<Rightarrow> bool) \<Rightarrow> bool" where
  "is_some_and x P = (case x of None \<Rightarrow> False | Some a \<Rightarrow> P a)"

lemma unwrap_or_simps [simp]: "unwrap_or d None = d" "unwrap_or d (Some a) = a"
  by (simp_all add: unwrap_or_def)

section \<open>Results\<close>

fun rbind :: "'e + 'a \<Rightarrow> ('a \<Rightarrow> 'e + 'b) \<Rightarrow> 'e + 'b" where
  "rbind (Inl e) f = Inl e"
| "rbind (Inr a) f = f a"

fun rmap_err :: "('e \<Rightarrow> 'f) \<Rightarrow> 'e + 'a \<Rightarrow> 'f + 'a" where
  "rmap_err g (Inl e) = Inl (g e)"
| "rmap_err g (Inr a) = Inr a"

definition ok_or :: "'e \<Rightarrow> 'a option \<Rightarrow> 'e + 'a" where
  "ok_or e m = (case m of None \<Rightarrow> Inl e | Some a \<Rightarrow> Inr a)"

fun is_ok :: "'e + 'a \<Rightarrow> bool" where
  "is_ok (Inl e) = False"
| "is_ok (Inr a) = True"

lemma rbind_Inr_iff [result_simps]: "rbind m f = Inr b \<longleftrightarrow> (\<exists>a. m = Inr a \<and> f a = Inr b)"
  by (cases m) auto

lemma rbind_Inl_iff [result_simps]:
  "rbind m f = Inl e \<longleftrightarrow> m = Inl e \<or> (\<exists>a. m = Inr a \<and> f a = Inl e)"
  by (cases m) auto

lemma rmap_err_Inr_iff [result_simps]: "rmap_err g m = Inr a \<longleftrightarrow> m = Inr a"
  by (cases m) auto

lemma ok_or_Inr_iff [result_simps]: "ok_or e m = Inr a \<longleftrightarrow> m = Some a"
  by (cases m) (auto simp: ok_or_def)

lemma is_ok_iff [result_simps]: "is_ok m \<longleftrightarrow> (\<exists>a. m = Inr a)"
  by (cases m) auto

section \<open>Bytes and big-endian integers\<close>

type_synonym byte = "8 word"
type_synonym bytes = "byte list"

definition fits_u :: "nat \<Rightarrow> int \<Rightarrow> bool" where
  "fits_u n x \<longleftrightarrow> 0 \<le> x \<and> x < 2 ^ (8 * n)"

definition fits_s :: "nat \<Rightarrow> int \<Rightarrow> bool" where
  "fits_s n x \<longleftrightarrow> - (2 ^ (8 * n - 1)) \<le> x \<and> x < 2 ^ (8 * n - 1)"

primrec to_be :: "nat \<Rightarrow> int \<Rightarrow> bytes" where
  "to_be 0 v = []"
| "to_be (Suc n) v = to_be n (v div 256) @ [word_of_int v]"

definition from_be_u :: "bytes \<Rightarrow> int" where
  "from_be_u bs = foldl (\<lambda>a b. a * 256 + uint b) 0 bs"

definition from_be_s :: "bytes \<Rightarrow> int" where
  "from_be_s bs =
     (let u = from_be_u bs
      in if u < 2 ^ (8 * length bs - 1) then u else u - 2 ^ (8 * length bs))"

lemma length_to_be [simp, codec_simps]: "length (to_be n v) = n"
  by (induction n arbitrary: v) simp_all

lemma from_be_u_to_be_Suc:
  "from_be_u (to_be (Suc n) v) = from_be_u (to_be n (v div 256)) * 256 + v mod 256"
  by (simp add: from_be_u_def uint_word_of_int)

lemma mod_256_Suc: "(v div 256) mod 256 ^ n * 256 + v mod 256 = v mod 256 ^ Suc n" for v :: int
  by (metis zmod_zmult2_eq mult.commute power_Suc zero_le_numeral zero_le_power)

lemma from_be_u_to_be: "from_be_u (to_be n v) = v mod 256 ^ n"
proof (induction n arbitrary: v)
  case 0
  then show ?case by (simp add: from_be_u_def)
next
  case (Suc n)
  show ?case
    by (simp only: from_be_u_to_be_Suc Suc mod_256_Suc)
qed

lemma pow256: "(256::int) ^ n = 2 ^ (8 * n)"
  by (simp add: power_mult)

lemma from_be_u_inverse [codec_simps]: "fits_u n v \<Longrightarrow> from_be_u (to_be n v) = v"
  by (simp add: from_be_u_to_be pow256 fits_u_def)

lemma neg_mod_shift:
  fixes h v :: int
  assumes "- h \<le> v" and "v < 0"
  shows "v mod (2 * h) = v + 2 * h"
proof -
  have "v mod (2 * h) = (v + 2 * h) mod (2 * h)" by simp
  also have "\<dots> = v + 2 * h" using assms by (intro mod_pos_pos_trivial) auto
  finally show ?thesis .
qed

lemma from_be_s_inverse [codec_simps]:
  assumes "0 < n" and "fits_s n v"
  shows "from_be_s (to_be n v) = v"
proof -
  let ?h = "2 ^ (8 * n - 1) :: int"
  have full: "(2 ^ (8 * n) :: int) = 2 * ?h"
    using assms(1) by (cases n) (simp_all add: power_add)
  have b: "- ?h \<le> v" "v < ?h"
    using assms(2) by (simp_all add: fits_s_def)
  show ?thesis
  proof (cases "0 \<le> v")
    case True
    then have "v mod (2 * ?h) = v"
      using b by simp
    with b True show ?thesis
      by (simp add: from_be_s_def Let_def from_be_u_to_be pow256 full)
  next
    case False
    then have "v mod (2 * ?h) = v + 2 * ?h"
      using b by (intro neg_mod_shift) auto
    with b False show ?thesis
      by (simp add: from_be_s_def Let_def from_be_u_to_be pow256 full)
  qed
qed

text \<open>\<open>saturating_add\<close> and \<open>saturating_sub\<close> of the two widths.\<close>

definition sat_i32 :: "int \<Rightarrow> int" where "sat_i32 x = max (- (2 ^ 31)) (min x (2 ^ 31 - 1))"
definition sat_i64 :: "int \<Rightarrow> int" where "sat_i64 x = max (- (2 ^ 63)) (min x (2 ^ 63 - 1))"

section \<open>Strings\<close>

text \<open>A Rust \<open>str\<close> is the list of its bytes; \<open>utf8_valid\<close> is what \<open>str::from_utf8\<close> accepts.\<close>

definition bytes_of_str :: "string \<Rightarrow> bytes" where
  "bytes_of_str s = map (\<lambda>c. of_nat (of_char c)) s"

definition str_of_bytes :: "bytes \<Rightarrow> string" where
  "str_of_bytes bs = map (\<lambda>b. char_of (unat b)) bs"

definition utf8_cont :: "byte \<Rightarrow> bool" where
  "utf8_cont b \<longleftrightarrow> 0x80 \<le> b \<and> b \<le> 0xBF"

fun utf8_valid :: "bytes \<Rightarrow> bool" where
  "utf8_valid [] = True"
| "utf8_valid (b # bs) =
     (if b < 0x80 then utf8_valid bs
      else if 0xC2 \<le> b \<and> b \<le> 0xDF then
        (case bs of c1 # r \<Rightarrow> utf8_cont c1 \<and> utf8_valid r | _ \<Rightarrow> False)
      else if 0xE0 \<le> b \<and> b \<le> 0xEF then
        (case bs of
           c1 # c2 # r \<Rightarrow>
             (if b = 0xE0 then 0xA0 \<le> c1 \<and> c1 \<le> 0xBF
              else if b = 0xED then 0x80 \<le> c1 \<and> c1 \<le> 0x9F else utf8_cont c1)
             \<and> utf8_cont c2 \<and> utf8_valid r
         | _ \<Rightarrow> False)
      else if 0xF0 \<le> b \<and> b \<le> 0xF4 then
        (case bs of
           c1 # c2 # c3 # r \<Rightarrow>
             (if b = 0xF0 then 0x90 \<le> c1 \<and> c1 \<le> 0xBF
              else if b = 0xF4 then 0x80 \<le> c1 \<and> c1 \<le> 0x8F else utf8_cont c1)
             \<and> utf8_cont c2 \<and> utf8_cont c3 \<and> utf8_valid r
         | _ \<Rightarrow> False)
      else False)"

lemma str_of_bytes_of_str [simp]: "str_of_bytes (bytes_of_str s) = s"
proof -
  have "char_of (unat (of_nat (of_char c) :: byte)) = c" for c
    by (simp add: unat_of_nat)
  then show ?thesis by (simp add: str_of_bytes_def bytes_of_str_def o_def)
qed

lemma length_bytes_of_str [simp]: "length (bytes_of_str s) = length s"
  by (simp add: bytes_of_str_def)

lemma utf8_valid_ascii: "\<forall>b \<in> set bs. b < 0x80 \<Longrightarrow> utf8_valid bs"
  by (induction bs) auto

section \<open>The read cursor\<close>

text \<open>Split \<open>n\<close> bytes off the front, \<open>None\<close> when fewer remain.\<close>

definition take_n :: "nat \<Rightarrow> bytes \<Rightarrow> (bytes \<times> bytes) option" where
  "take_n n bs = (if length bs < n then None else Some (take n bs, drop n bs))"

lemma take_n_append [simp, codec_simps]: "length xs = n \<Longrightarrow> take_n n (xs @ ys) = Some (xs, ys)"
  by (auto simp: take_n_def)

lemma take_n_SomeD: "take_n n bs = Some (h, t) \<Longrightarrow> bs = h @ t \<and> length h = n"
  by (auto simp: take_n_def split: if_splits)

lemma take_n_None_iff [simp]: "take_n n bs = None \<longleftrightarrow> length bs < n"
  by (simp add: take_n_def)

section \<open>Codecs over a read cursor\<close>

text \<open>
  A run of encoded items, and the decoder that reads a known number of them back. The locale
  \<open>stream_codec\<close> is the contract of one item: what the encoder wrote, the decoder reads back as
  \<open>view x\<close> (the identity unless the layout drops a field) and leaves the rest of the input alone.
\<close>

primrec encode_all :: "('a \<Rightarrow> 'e + bytes) \<Rightarrow> 'a list \<Rightarrow> 'e + bytes" where
  "encode_all f [] = Inr []"
| "encode_all f (x # xs) = rbind (f x) (\<lambda>b. rbind (encode_all f xs) (\<lambda>bs. Inr (b @ bs)))"

primrec decode_many :: "(bytes \<Rightarrow> 'e + ('a \<times> bytes)) \<Rightarrow> nat \<Rightarrow> bytes \<Rightarrow> 'e + ('a list \<times> bytes)" where
  "decode_many f 0 bs = Inr ([], bs)"
| "decode_many f (Suc n) bs =
     rbind (f bs) (\<lambda>(x, rest). rbind (decode_many f n rest) (\<lambda>(xs, rest'). Inr (x # xs, rest')))"

locale stream_codec =
  fixes enc :: "'a \<Rightarrow> 'e + bytes"
    and dec :: "bytes \<Rightarrow> 'd + ('a \<times> bytes)"
    and view :: "'a \<Rightarrow> 'a"
  assumes roundtrip: "enc x = Inr b \<Longrightarrow> dec (b @ rest) = Inr (view x, rest)"
begin

lemma many: "encode_all enc xs = Inr b \<Longrightarrow> decode_many dec (length xs) (b @ rest) = Inr (map view xs, rest)"
  by (induction xs arbitrary: b) (auto simp: result_simps roundtrip)

end

text \<open>The same contract for an encoder that never fails on the values \<open>ok\<close> accepts.\<close>

locale plain_codec =
  fixes penc :: "'a \<Rightarrow> bytes"
    and ok :: "'a \<Rightarrow> bool"
    and dec :: "bytes \<Rightarrow> 'd + ('a \<times> bytes)"
    and view :: "'a \<Rightarrow> 'a"
  assumes plain_roundtrip: "ok x \<Longrightarrow> dec (penc x @ rest) = Inr (view x, rest)"
begin

definition checked :: "'a \<Rightarrow> unit + bytes" where
  "checked x = (if ok x then Inr (penc x) else Inl ())"

lemma checked_all: "\<forall>x \<in> set xs. ok x \<Longrightarrow> encode_all checked xs = Inr (concat (map penc xs))"
  by (induction xs) (auto simp: checked_def)

end

sublocale plain_codec \<subseteq> as_stream: stream_codec checked dec view
  by unfold_locales (auto simp: checked_def plain_roundtrip split: if_splits)

context plain_codec
begin

lemma plain_many:
  "\<forall>x \<in> set xs. ok x \<Longrightarrow> decode_many dec (length xs) (concat (map penc xs) @ rest) = Inr (map view xs, rest)"
  by (rule as_stream.many [OF checked_all])

end

end
