(* ===== verification/Varint.thy ===== *)
theory Varint
  imports Prelude
begin

unbundle bit_operations_syntax

text \<open>
  The variable-length integers of the Kafka record format
  (\<open>tansu-sans-io/src/primitive/varint.rs\<close>): zigzag mapping, the 7-bit little-endian group
  encoding shared by \<open>VarInt\<close>, \<open>LongVarInt\<close> and \<open>UnsignedVarInt\<close>, and the checked decoder.
  The width (32 or 64) is a parameter of the shared loops; \<open>VarInt\<close> and \<open>LongVarInt\<close> instantiate it.
\<close>

datatype sio_error =
    Overflow
  | TryGet
  | TryFromInt
  | UnknownCompressionType int
  | UnexpectedType
  | Panic

section \<open>Zigzag\<close>

text \<open>\<open>((decoded << 1) ^ (decoded >> 31)) as u32\<close>, the right shift arithmetic.\<close>

definition en_zigzag :: "'a::len word \<Rightarrow> 'a word" where
  "en_zigzag d = push_bit 1 d XOR signed_drop_bit (LENGTH('a) - 1) d"

text \<open>\<open>((encoded >> 1) as i32) ^ -((encoded & 1) as i32)\<close>.\<close>

definition de_zigzag :: "'a::len word \<Rightarrow> 'a word" where
  "de_zigzag e = drop_bit 1 e XOR - (e AND 1)"

section \<open>The group encoding\<close>

text \<open>
  \<open>while v >= CONTINUATION { put(v as u8 | CONTINUATION); v >>= 7 } put(v as u8)\<close>.
\<close>

fun put_groups :: "nat \<Rightarrow> bytes" where
  "put_groups v =
     (if 128 \<le> v then (of_nat v OR 128) # put_groups (v div 128) else [of_nat v])"

declare put_groups.simps [simp del]

text \<open>The size loop of \<open>ByteSize\<close>, which runs the same shifts without writing.\<close>

fun size_groups :: "nat \<Rightarrow> nat" where
  "size_groups v = (if 128 \<le> v then 1 + size_groups (v div 128) else 1)"

declare size_groups.simps [simp del]

text \<open>
  \<open>checked_shl\<close> refuses a shift of the width or more and drops the bits shifted out;
  \<open>checked_add\<close> refuses a sum of \<open>2 ^ width\<close> or more.
\<close>

definition checked_shl :: "nat \<Rightarrow> nat \<Rightarrow> nat \<Rightarrow> nat option" where
  "checked_shl width x shift = (if shift < width then Some (x * 2 ^ shift mod 2 ^ width) else None)"

definition checked_add :: "nat \<Rightarrow> nat \<Rightarrow> nat \<Rightarrow> nat option" where
  "checked_add width x y = (if x + y < 2 ^ width then Some (x + y) else None)"

definition accumulate :: "nat \<Rightarrow> nat \<Rightarrow> nat \<Rightarrow> nat \<Rightarrow> sio_error + nat" where
  "accumulate width acc x shift =
     ok_or Overflow (Option.bind (checked_shl width x shift) (checked_add width acc))"

fun get_groups :: "nat \<Rightarrow> nat \<Rightarrow> nat \<Rightarrow> bytes \<Rightarrow> sio_error + (nat \<times> bytes)" where
  "get_groups width shift acc [] = Inl TryGet"
| "get_groups width shift acc (b # rest) =
     (if b AND 128 = 128 then
        rbind (accumulate width acc (unat (b AND 127)) shift)
          (\<lambda>acc'. rbind (ok_or Overflow (checked_add 8 shift 7))
            (\<lambda>shift'. get_groups width shift' acc' rest))
      else
        rbind (accumulate width acc (unat b) shift) (\<lambda>acc'. Inr (acc', rest)))"

section \<open>The integer types\<close>

definition VarInt_encode :: "32 word \<Rightarrow> bytes" where
  "VarInt_encode i = put_groups (unat (en_zigzag i))"

definition VarInt_decode :: "bytes \<Rightarrow> sio_error + (32 word \<times> bytes)" where
  "VarInt_decode encoded =
     rbind (get_groups 32 0 0 encoded) (\<lambda>(acc, rest). Inr (de_zigzag (of_nat acc), rest))"

definition VarInt_size :: "32 word \<Rightarrow> nat" where
  "VarInt_size i = size_groups (unat (en_zigzag i))"

definition LongVarInt_encode :: "64 word \<Rightarrow> bytes" where
  "LongVarInt_encode i = put_groups (unat (en_zigzag i))"

definition LongVarInt_decode :: "bytes \<Rightarrow> sio_error + (64 word \<times> bytes)" where
  "LongVarInt_decode encoded =
     rbind (get_groups 64 0 0 encoded) (\<lambda>(acc, rest). Inr (de_zigzag (of_nat acc), rest))"

definition LongVarInt_size :: "64 word \<Rightarrow> nat" where
  "LongVarInt_size i = size_groups (unat (en_zigzag i))"

definition UnsignedVarInt_encode :: "32 word \<Rightarrow> bytes" where
  "UnsignedVarInt_encode i = put_groups (unat i)"

definition UnsignedVarInt_size :: "32 word \<Rightarrow> nat" where
  "UnsignedVarInt_size i = size_groups (unat i)"

section \<open>Zigzag is a bijection\<close>

lemma signed_top_cases:
  fixes d :: "'a::len word"
  shows "signed_drop_bit (LENGTH('a) - 1) d = (if bit d (LENGTH('a) - 1) then - 1 else 0)"
proof (rule bit_word_eqI)
  fix n assume "n < LENGTH('a)"
  then show "bit (signed_drop_bit (LENGTH('a) - 1) d) n =
      bit (if bit d (LENGTH('a) - 1) then - 1 else 0 :: 'a word) n"
    by (cases n) (auto simp: bit_signed_drop_bit_iff)
qed

lemma and_one_cases: "(e :: 'a::len word) AND 1 = (if bit e 0 then 1 else 0)"
proof (rule bit_word_eqI)
  fix n assume "n < LENGTH('a)"
  then show "bit (e AND 1) n = bit (if bit e 0 then 1 else 0 :: 'a word) n"
    by (cases n) (auto simp: bit_simps bit_1_iff)
qed

lemma bit_en_zigzag:
  fixes d :: "'a::len word"
  assumes "n < LENGTH('a)"
  shows "bit (en_zigzag d) n \<longleftrightarrow> (0 < n \<and> bit d (n - 1)) \<noteq> bit d (LENGTH('a) - 1)"
  unfolding en_zigzag_def signed_top_cases bit_xor_iff bit_push_bit_iff
  using assms by auto

lemma bit_de_zigzag:
  fixes e :: "'a::len word"
  assumes "n < LENGTH('a)"
  shows "bit (de_zigzag e) n \<longleftrightarrow> bit e (Suc n) \<noteq> bit e 0"
  unfolding de_zigzag_def and_one_cases bit_xor_iff bit_drop_bit_eq
  using assms by auto

lemma de_en_zigzag: "de_zigzag (en_zigzag d) = (d :: 'a::len word)"
proof (rule bit_word_eqI)
  fix n assume n: "n < LENGTH('a)"
  show "bit (de_zigzag (en_zigzag d)) n = bit d n"
  proof (cases "Suc n < LENGTH('a)")
    case True
    then show ?thesis by (auto simp: bit_de_zigzag bit_en_zigzag)
  next
    case False
    then have "n = LENGTH('a) - 1" and "\<not> bit (en_zigzag d) (Suc n)"
      using n by (auto simp: bit_imp_le_length dest: bit_imp_le_length)
    then show ?thesis using n by (simp add: bit_de_zigzag bit_en_zigzag)
  qed
qed

section \<open>The group encoding round-trips\<close>

lemma put_groups_length: "length (put_groups v) = size_groups v"
  by (induction v rule: put_groups.induct) (simp add: put_groups.simps size_groups.simps)

lemma group_byte:
  assumes "128 \<le> v"
  shows "((of_nat v :: byte) OR 128) AND 128 = 128"
    and "unat (((of_nat v :: byte) OR 128) AND 127) = v mod 128"
proof -
  show "((of_nat v :: byte) OR 128) AND 128 = 128"
    by (simp add: and.commute bit.conj_disj_distrib)
  have "((of_nat v :: byte) OR 128) AND 127 = of_nat v AND mask 7"
    by (simp add: mask_eq_exp_minus_1 bit.conj_disj_distrib2)
  then show "unat (((of_nat v :: byte) OR 128) AND 127) = v mod 128"
    by (simp add: unat_mod_distrib unat_of_nat take_bit_eq_mod mod_mod_cancel flip: take_bit_eq_mask)
qed

lemma last_group_byte:
  assumes "v < 128"
  shows "(of_nat v :: byte) AND 128 \<noteq> 128" and "unat (of_nat v :: byte) = v"
proof -
  show u: "unat (of_nat v :: byte) = v"
    using assms by (simp add: unat_of_nat)
  have "unat ((of_nat v :: byte) AND 128) \<le> unat (of_nat v :: byte)"
    by (simp add: word_and_le2 flip: word_le_nat_alt)
  with assms u show "(of_nat v :: byte) AND 128 \<noteq> 128"
    by auto
qed

lemma accumulate_ok:
  assumes "shift < width" and "acc + x * 2 ^ shift < 2 ^ width"
  shows "accumulate width acc x shift = Inr (acc + x * 2 ^ shift)"
  using assms by (simp add: accumulate_def checked_shl_def checked_add_def ok_or_def)

lemma group_split: "v * 2 ^ s = v mod 128 * 2 ^ s + v div 128 * 2 ^ (s + 7)" for v :: nat
proof -
  have "(r + 128 * q) * 2 ^ s = r * 2 ^ s + q * 2 ^ (s + 7)" for r q :: nat
    by (simp add: power_add algebra_simps)
  from this [of "v mod 128" "v div 128"] show ?thesis by simp
qed

lemma get_put_groups:
  assumes "shift < width" and "width \<le> 64" and "acc + v * 2 ^ shift < 2 ^ width"
  shows "get_groups width shift acc (put_groups v @ rest) = Inr (acc + v * 2 ^ shift, rest)"
  using assms
proof (induction v arbitrary: shift acc rule: put_groups.induct)
  case (1 v)
  show ?case
  proof (cases "128 \<le> v")
    case True
    have split: "v * 2 ^ shift = v mod 128 * 2 ^ shift + v div 128 * 2 ^ (shift + 7)"
      by (rule group_split)
    have pos: "2 ^ (shift + 7) \<le> v div 128 * 2 ^ (shift + 7)"
      using True by (simp add: div_greater_zero_iff Suc_le_eq)
    then have "(2::nat) ^ (shift + 7) < 2 ^ width"
      using "1.prems"(3) split by linarith
    then have shift: "shift + 7 < width"
      by (metis nat_power_less_imp_less zero_less_numeral)
    have acc: "acc + v mod 128 * 2 ^ shift < 2 ^ width"
      using "1.prems"(3) split by linarith
    have "get_groups width (shift + 7) (acc + v mod 128 * 2 ^ shift) (put_groups (v div 128) @ rest)
        = Inr (acc + v * 2 ^ shift, rest)"
      using "1.IH" [OF True shift "1.prems"(2), of "acc + v mod 128 * 2 ^ shift"] "1.prems"(3) split
      by (simp add: add.assoc)
    then show ?thesis
      using True "1.prems"(1,2) acc shift
      by (simp add: put_groups.simps [of v] group_byte accumulate_ok checked_add_def ok_or_def)
  next
    case False
    then show ?thesis
      using "1.prems" by (simp add: put_groups.simps [of v] last_group_byte accumulate_ok)
  qed
qed

section \<open>Bounds\<close>

lemma size_groups_bound: "v < 128 ^ Suc k \<Longrightarrow> size_groups v \<le> Suc k"
proof (induction k arbitrary: v)
  case 0
  then show ?case by (simp add: size_groups.simps)
next
  case (Suc k)
  have "v div 128 < 128 ^ Suc k"
    using Suc.prems by (simp add: div_less_iff_less_mult mult.commute)
  from Suc.IH [OF this] show ?case
    by (simp add: size_groups.simps [of v])
qed

lemma accumulate_Inr:
  "accumulate width acc x shift = Inr y \<Longrightarrow> shift < width \<and> y < 2 ^ width"
  by (auto simp: accumulate_def checked_shl_def checked_add_def ok_or_def split: if_splits)

text \<open>A decode that succeeds has read at most one byte per seven bits of the width.\<close>

lemma get_groups_consumes:
  "get_groups width shift acc bs = Inr (x, rest) \<Longrightarrow>
     x < 2 ^ width \<and>
     (\<exists>used. bs = used @ rest \<and> used \<noteq> [] \<and> shift + 7 * (length used - 1) < width)"
proof (induction width shift acc bs rule: get_groups.induct)
  case (1 width shift acc)
  then show ?case by simp
next
  case (2 width shift acc b bs)
  show ?case
  proof (cases "b AND 128 = 128")
    case True
    then obtain acc' where acc': "accumulate width acc (unat (b AND 127)) shift = Inr acc'"
      and rec: "get_groups width (shift + 7) acc' bs = Inr (x, rest)"
      using "2.prems" by (auto simp: result_simps checked_add_def split: if_splits)
    from "2.IH" [OF True rec] obtain used where
      "x < 2 ^ width" "bs = used @ rest" "used \<noteq> []" "shift + 7 + 7 * (length used - 1) < width"
      by blast
    then show ?thesis
      by (intro conjI exI [of _ "b # used"]) (auto simp: neq_Nil_conv)
  next
    case False
    then obtain "accumulate width acc (unat b) shift = Inr x" and "bs = rest"
      using "2.prems" by (auto simp: result_simps)
    then show ?thesis
      by (intro conjI exI [of _ "[b]"]) (auto dest: accumulate_Inr)
  qed
qed

lemma of_nat_unat_groups: "get_groups LENGTH('a) 0 0 (put_groups (unat v) @ rest) = Inr (unat v, rest)"
  if "LENGTH('a) \<le> 64" for v :: "'a::len word"
  using that get_put_groups [of 0 "LENGTH('a)" 0 "unat v" rest] by simp

lemma VarInt_roundtrip [codec_simps]: "VarInt_decode (VarInt_encode i @ rest) = Inr (i, rest)"
  using of_nat_unat_groups [where 'a = 32, of "en_zigzag i" rest]
  by (simp add: VarInt_decode_def VarInt_encode_def de_en_zigzag)

lemma LongVarInt_roundtrip [codec_simps]:
  "LongVarInt_decode (LongVarInt_encode i @ rest) = Inr (i, rest)"
  using of_nat_unat_groups [where 'a = 64, of "en_zigzag i" rest]
  by (simp add: LongVarInt_decode_def LongVarInt_encode_def de_en_zigzag)

lemma VarInt_size_bound: "VarInt_size i \<le> 5"
  using size_groups_bound [of "unat (en_zigzag i)" 4] unsigned_less [where ?'a = nat, of "en_zigzag i"]
  by (simp add: VarInt_size_def)

lemma LongVarInt_size_bound: "LongVarInt_size i \<le> 10"
  using size_groups_bound [of "unat (en_zigzag i)" 9] unsigned_less [where ?'a = nat, of "en_zigzag i"]
  by (simp add: LongVarInt_size_def)

lemma VarInt_encode_length: "length (VarInt_encode i) = VarInt_size i"
  by (simp add: VarInt_encode_def VarInt_size_def put_groups_length)

lemma LongVarInt_encode_length: "length (LongVarInt_encode i) = LongVarInt_size i"
  by (simp add: LongVarInt_encode_def LongVarInt_size_def put_groups_length)

section \<open>Properties\<close>

text \<open>
  Every 32-bit and every 64-bit value survives the zigzag varint encoding: the decoder returns
  the value and exactly the bytes that follow it, the size function is the number of bytes written,
  and that is at most five bytes for an \<open>i32\<close> and ten for an \<open>i64\<close>.
\<close>

lemma varint_roundtrip:
  "VarInt_decode (VarInt_encode x @ rest) = Inr (x, rest) \<and>
   length (VarInt_encode x) = VarInt_size x \<and> VarInt_size x \<le> 5 \<and>
   LongVarInt_decode (LongVarInt_encode y @ rest) = Inr (y, rest) \<and>
   length (LongVarInt_encode y) = LongVarInt_size y \<and> LongVarInt_size y \<le> 10"
  by (simp add: VarInt_roundtrip LongVarInt_roundtrip VarInt_encode_length LongVarInt_encode_length
      VarInt_size_bound LongVarInt_size_bound)

end
