(* ===== verification/RecordCodec.thy ===== *)
theory RecordCodec
  imports Varint
begin

text \<open>
  The record encoding inside a batch: \<open>Octets\<close> and \<open>VarIntSequence\<close>
  (\<open>tansu-sans-io/src/record/codec.rs\<close>), \<open>Header\<close> (\<open>record/header.rs\<close>) and \<open>Record\<close>
  (\<open>record.rs\<close>), with the panics of \<open>Buf::get_u8\<close>, \<open>Bytes::split_to\<close> and
  \<open>Vec::with_capacity\<close> on a malformed payload as the error \<open>Panic\<close>. How much memory an allocation
  may take is not modelled, so a capacity request fails only when it exceeds the address space.
\<close>

section \<open>Octets\<close>

text \<open>\<open>VarInt::try_from(usize)\<close>: a length must fit an \<open>i32\<close>.\<close>

definition VarInt_of_len :: "nat \<Rightarrow> sio_error + 32 word" where
  "VarInt_of_len n = (if n < 2 ^ 31 then Inr (of_nat n) else Inl TryFromInt)"

text \<open>\<open>length as usize\<close> for an \<open>i32\<close> sign-extends to 64 bits.\<close>

definition i32_as_usize :: "32 word \<Rightarrow> nat" where
  "i32_as_usize i = nat (sint i mod 2 ^ 64)"

definition Octets_size :: "bytes option \<Rightarrow> sio_error + nat" where
  "Octets_size v =
     (case v of
        None \<Rightarrow> Inr (VarInt_size (- 1))
      | Some data \<Rightarrow> rbind (VarInt_of_len (length data)) (\<lambda>l. Inr (VarInt_size l + length data)))"

definition Octets_encode :: "bytes option \<Rightarrow> sio_error + bytes" where
  "Octets_encode v =
     (case v of
        None \<Rightarrow> Inr (VarInt_encode (- 1))
      | Some data \<Rightarrow>
          rbind (Octets_size v) (\<lambda>_.
          rbind (VarInt_of_len (length data)) (\<lambda>l. Inr (VarInt_encode l @ data))))"

definition Octets_decode :: "bytes \<Rightarrow> sio_error + (bytes option \<times> bytes)" where
  "Octets_decode encoded =
     rbind (VarInt_decode encoded) (\<lambda>(l, rest).
       if l = - 1 then Inr (None, rest)
       else if length rest < i32_as_usize l then Inl Panic
       else Inr (Some (take (i32_as_usize l) rest), drop (i32_as_usize l) rest))"

section \<open>Headers\<close>

record header =
  h_key :: "bytes option"
  h_value :: "bytes option"

definition Header_size :: "header \<Rightarrow> sio_error + nat" where
  "Header_size h = rbind (Octets_size (h_key h)) (\<lambda>k. rbind (Octets_size (h_value h)) (\<lambda>v. Inr (k + v)))"

definition Header_encode :: "header \<Rightarrow> sio_error + bytes" where
  "Header_encode h =
     rbind (Header_size h) (\<lambda>_.
     rbind (Octets_encode (h_key h)) (\<lambda>k.
     rbind (Octets_encode (h_value h)) (\<lambda>v. Inr (k @ v))))"

definition Header_decode :: "bytes \<Rightarrow> sio_error + (header \<times> bytes)" where
  "Header_decode encoded =
     rbind (Octets_decode encoded) (\<lambda>(k, rest).
     rbind (Octets_decode rest) (\<lambda>(v, rest'). Inr (\<lparr>h_key = k, h_value = v\<rparr>, rest')))"

section \<open>Sequences of headers\<close>

primrec sum_sizes :: "('a \<Rightarrow> sio_error + nat) \<Rightarrow> nat \<Rightarrow> 'a list \<Rightarrow> sio_error + nat" where
  "sum_sizes f acc [] = Inr acc"
| "sum_sizes f acc (x # xs) = rbind (f x) (\<lambda>n. sum_sizes f (acc + n) xs)"

definition Headers_size :: "header list \<Rightarrow> sio_error + nat" where
  "Headers_size hs =
     rbind (VarInt_of_len (length hs)) (\<lambda>l. sum_sizes Header_size (VarInt_size l) hs)"

definition Headers_encode :: "header list \<Rightarrow> sio_error + bytes" where
  "Headers_encode hs =
     rbind (Headers_size hs) (\<lambda>_.
     rbind (VarInt_of_len (length hs)) (\<lambda>l.
     rbind (encode_all Header_encode hs) (\<lambda>b. Inr (VarInt_encode l @ b))))"

text \<open>
  A \<open>Vec<Header>\<close> element is larger than one byte, so a capacity of \<open>2 ^ 63\<close> or more overflows.
\<close>

definition Headers_decode :: "bytes \<Rightarrow> sio_error + (header list \<times> bytes)" where
  "Headers_decode encoded =
     rbind (VarInt_decode encoded) (\<lambda>(l, rest).
       if 2 ^ 63 \<le> i32_as_usize l then Inl Panic else decode_many Header_decode (i32_as_usize l) rest)"

section \<open>Records\<close>

record krecord =
  r_length :: "32 word"
  r_attributes :: byte
  r_timestamp_delta :: "64 word"
  r_offset_delta :: "32 word"
  r_key :: "bytes option"
  r_value :: "bytes option"
  r_headers :: "header list"

definition is_tombstone :: "krecord \<Rightarrow> bool" where
  "is_tombstone r \<longleftrightarrow> r_key r \<noteq> None \<and> r_value r = None"

definition Record_size :: "krecord \<Rightarrow> sio_error + nat" where
  "Record_size r =
     rbind (Octets_size (r_key r)) (\<lambda>k.
     rbind (Octets_size (r_value r)) (\<lambda>v.
     rbind (Headers_size (r_headers r)) (\<lambda>h.
       Inr (VarInt_size (r_length r) + 1 + LongVarInt_size (r_timestamp_delta r)
            + VarInt_size (r_offset_delta r) + k + v + h))))"

definition Record_encode :: "krecord \<Rightarrow> sio_error + bytes" where
  "Record_encode r =
     rbind (Record_size r) (\<lambda>_.
     rbind (Octets_encode (r_key r)) (\<lambda>k.
     rbind (Octets_encode (r_value r)) (\<lambda>v.
     rbind (Headers_encode (r_headers r)) (\<lambda>h.
       Inr (VarInt_encode (r_length r) @ [r_attributes r] @ LongVarInt_encode (r_timestamp_delta r)
            @ VarInt_encode (r_offset_delta r) @ k @ v @ h)))))"

definition get_u8 :: "bytes \<Rightarrow> sio_error + (byte \<times> bytes)" where
  "get_u8 bs = (case bs of [] \<Rightarrow> Inl Panic | b # rest \<Rightarrow> Inr (b, rest))"

definition Record_decode :: "bytes \<Rightarrow> sio_error + (krecord \<times> bytes)" where
  "Record_decode encoded =
     rbind (VarInt_decode encoded) (\<lambda>(len, e1).
     rbind (get_u8 e1) (\<lambda>(attributes, e2).
     rbind (LongVarInt_decode e2) (\<lambda>(timestamp_delta, e3).
     rbind (VarInt_decode e3) (\<lambda>(offset_delta, e4).
     rbind (Octets_decode e4) (\<lambda>(key, e5).
     rbind (Octets_decode e5) (\<lambda>(val, e6).
     rbind (Headers_decode e6) (\<lambda>(headers, e7).
       Inr (\<lparr>r_length = len, r_attributes = attributes, r_timestamp_delta = timestamp_delta,
             r_offset_delta = offset_delta, r_key = key, r_value = val, r_headers = headers\<rparr>, e7))))))))"

definition Records_encode :: "krecord list \<Rightarrow> sio_error + bytes" where
  "Records_encode rs = rbind (sum_sizes Record_size 0 rs) (\<lambda>_. encode_all Record_encode rs)"

section \<open>Round trips\<close>

lemma i32_as_usize_of_nat [simp]: "n < 2 ^ 31 \<Longrightarrow> i32_as_usize (of_nat n) = n"
  by (simp add: i32_as_usize_def signed_of_nat signed_take_bit_int_eq_self)

lemma of_len_not_minus_one: "n < 2 ^ 31 \<Longrightarrow> (of_nat n :: 32 word) \<noteq> - 1"
proof
  assume n: "n < 2 ^ 31" and "(of_nat n :: 32 word) = - 1"
  then have "unat (of_nat n :: 32 word) = unat (- 1 :: 32 word)" by simp
  with n show False by (simp add: unat_of_nat unsigned_minus_1_eq_mask mask_eq_exp_minus_1)
qed

lemma VarInt_of_len_Inr: "VarInt_of_len n = Inr l \<longleftrightarrow> n < 2 ^ 31 \<and> l = of_nat n"
  by (auto simp: VarInt_of_len_def)

lemma Octets_roundtrip:
  assumes "Octets_encode v = Inr b"
  shows "Octets_decode (b @ rest) = Inr (v, rest)"
proof (cases v)
  case None
  with assms show ?thesis by (auto simp: Octets_encode_def Octets_decode_def codec_simps)
next
  case (Some data)
  with assms have "length data < 2 ^ 31" and "b = VarInt_encode (of_nat (length data)) @ data"
    by (auto simp: Octets_encode_def VarInt_of_len_Inr result_simps)
  with Some show ?thesis
    by (simp add: Octets_decode_def of_len_not_minus_one codec_simps)
qed

lemma Header_roundtrip:
  "Header_encode h = Inr b \<Longrightarrow> Header_decode (b @ rest) = Inr (h, rest)"
  by (auto simp: Header_encode_def Header_decode_def result_simps Octets_roundtrip)

interpretation header_codec: stream_codec Header_encode Header_decode "\<lambda>h. h"
  by unfold_locales (rule Header_roundtrip)

lemma Headers_roundtrip:
  assumes "Headers_encode hs = Inr b"
  shows "Headers_decode (b @ rest) = Inr (hs, rest)"
proof -
  from assms obtain body where len: "length hs < 2 ^ 31"
    and body: "encode_all Header_encode hs = Inr body"
    and b: "b = VarInt_encode (of_nat (length hs)) @ body"
    by (auto simp: Headers_encode_def VarInt_of_len_Inr result_simps)
  have "decode_many Header_decode (length hs) (body @ rest) = Inr (hs, rest)"
    using header_codec.many [OF body] by simp
  with len b show ?thesis by (simp add: Headers_decode_def codec_simps)
qed

lemma Record_roundtrip:
  "Record_encode r = Inr b \<Longrightarrow> Record_decode (b @ rest) = Inr (r, rest)"
  by (auto simp: Record_encode_def Record_decode_def get_u8_def result_simps codec_simps
      Octets_roundtrip Headers_roundtrip)

interpretation record_codec: stream_codec Record_encode Record_decode "\<lambda>r. r"
  by unfold_locales (rule Record_roundtrip)

section \<open>Sizes\<close>

lemma Octets_size_exact: "Octets_encode v = Inr b \<Longrightarrow> Octets_size v = Inr (length b)"
  by (auto simp: Octets_encode_def Octets_size_def VarInt_of_len_Inr VarInt_encode_length
      result_simps split: option.splits)

lemma Header_size_exact: "Header_encode h = Inr b \<Longrightarrow> Header_size h = Inr (length b)"
  by (auto simp: Header_encode_def Header_size_def Octets_size_exact result_simps)

lemma sum_sizes_encode_all:
  assumes "\<And>x b. f x = Inr b \<Longrightarrow> g x = Inr (length b)"
  shows "encode_all f xs = Inr b \<Longrightarrow> sum_sizes g acc xs = Inr (acc + length b)"
  by (induction xs arbitrary: acc b) (auto simp: result_simps assms)

lemma Headers_size_exact: "Headers_encode hs = Inr b \<Longrightarrow> Headers_size hs = Inr (length b)"
  by (auto simp: Headers_encode_def Headers_size_def VarInt_of_len_Inr VarInt_encode_length
      result_simps sum_sizes_encode_all [OF Header_size_exact])

lemma Record_size_exact: "Record_encode r = Inr b \<Longrightarrow> Record_size r = Inr (length b)"
  by (auto simp: Record_encode_def Record_size_def VarInt_encode_length LongVarInt_encode_length
      result_simps Octets_size_exact Headers_size_exact)

lemma Records_roundtrip:
  assumes "Records_encode rs = Inr b"
  shows "decode_many Record_decode (length rs) (b @ rest) = Inr (rs, rest)"
    and "sum_sizes Record_size 0 rs = Inr (length b)"
proof -
  have all: "encode_all Record_encode rs = Inr b"
    using assms by (auto simp: Records_encode_def result_simps)
  show "decode_many Record_decode (length rs) (b @ rest) = Inr (rs, rest)"
    using record_codec.many [OF all] by simp
  show "sum_sizes Record_size 0 rs = Inr (length b)"
    using sum_sizes_encode_all [where f = Record_encode and g = Record_size and acc = 0, OF _ all]
    by (simp add: Record_size_exact)
qed

section \<open>Properties\<close>

text \<open>
  What the record encoder writes, the record decoder reads back record for record (keys, values and
  headers included), leaving what follows untouched, and the size computed beforehand is the
  number of bytes written.
\<close>

lemma records_roundtrip:
  assumes "Records_encode rs = Inr b"
  shows "decode_many Record_decode (length rs) (b @ rest) = Inr (rs, rest) \<and>
         sum_sizes Record_size 0 rs = Inr (length b)"
  using Records_roundtrip [OF assms] by blast

definition sample_record :: krecord where
  "sample_record =
     \<lparr>r_length = 12, r_attributes = 0, r_timestamp_delta = 3, r_offset_delta = 1, r_key = Some [107],
      r_value = None, r_headers = [\<lparr>h_key = Some [1, 2], h_value = Some []\<rparr>]\<rparr>"

text \<open>
  A byte string whose length prefix claims more bytes than the payload holds does not make the
  record decoder return an error: the split of the buffer panics.
\<close>

lemma octets_overrun_panics:
  assumes "length data < n" and "n < 2 ^ 31"
  shows "Octets_decode (VarInt_encode (of_nat n) @ data) = Inl Panic"
  using assms by (simp add: Octets_decode_def codec_simps of_len_not_minus_one take_n_def)

end
