(* ===== verification/RecordBatch.thy ===== *)
theory RecordBatch
  imports RecordCodec "HOL-Library.Sublist"
begin

unbundle bit_operations_syntax

text \<open>
  The deflated record batch (\<open>tansu-sans-io/src/record/deflated.rs\<close>): the struct, its wire encoding,
  the decoder with every early return, and the predicates the broker reads off a batch. The CRC-32C
  digest is the \<open>crc_fast\<close> package's; it is the parameter \<open>crc32c\<close> of the two definitions that
  compare against it. The decoder only logs a mismatch, so it does not take it.
\<close>

record batch =
  b_base_offset :: int
  b_batch_length :: int
  b_partition_leader_epoch :: int
  b_magic :: int
  b_crc :: int
  b_attributes :: int
  b_last_offset_delta :: int
  b_base_timestamp :: int
  b_max_timestamp :: int
  b_producer_id :: int
  b_producer_epoch :: int
  b_base_sequence :: int
  b_record_count :: int
  b_record_data :: bytes

definition Batch_default :: batch where
  "Batch_default =
     \<lparr>b_base_offset = 0, b_batch_length = 0, b_partition_leader_epoch = 0, b_magic = 0, b_crc = 0,
      b_attributes = 0, b_last_offset_delta = 0, b_base_timestamp = 0, b_max_timestamp = 0,
      b_producer_id = 0, b_producer_epoch = 0, b_base_sequence = 0, b_record_count = 0,
      b_record_data = []\<rparr>"

definition MAGIC_RECORD_BATCH_V2 :: int where
  "MAGIC_RECORD_BATCH_V2 = 2"

definition FIXED_BATCH_LENGTH :: nat where
  "FIXED_BATCH_LENGTH = 4 + 1 + 4 + 2 + 4 + 8 + 8 + 8 + 2 + 4 + 4"

text \<open>The ranges of the struct's field types: every value of the Rust type satisfies it.\<close>

definition wf_batch :: "batch \<Rightarrow> bool" where
  "wf_batch b \<longleftrightarrow>
     fits_s 8 (b_base_offset b) \<and> fits_s 4 (b_batch_length b) \<and> fits_s 4 (b_partition_leader_epoch b) \<and>
     fits_s 1 (b_magic b) \<and> fits_u 4 (b_crc b) \<and> fits_s 2 (b_attributes b) \<and>
     fits_s 4 (b_last_offset_delta b) \<and> fits_s 8 (b_base_timestamp b) \<and> fits_s 8 (b_max_timestamp b) \<and>
     fits_s 8 (b_producer_id b) \<and> fits_s 2 (b_producer_epoch b) \<and> fits_s 4 (b_base_sequence b) \<and>
     fits_u 4 (b_record_count b)"

section \<open>Encoding\<close>

definition Batch_to_bytes :: "batch \<Rightarrow> bytes" where
  "Batch_to_bytes b =
     to_be 8 (b_base_offset b) @ to_be 4 (b_batch_length b) @ to_be 4 (b_partition_leader_epoch b)
     @ to_be 1 (b_magic b) @ to_be 4 (b_crc b) @ to_be 2 (b_attributes b)
     @ to_be 4 (b_last_offset_delta b) @ to_be 8 (b_base_timestamp b) @ to_be 8 (b_max_timestamp b)
     @ to_be 8 (b_producer_id b) @ to_be 2 (b_producer_epoch b) @ to_be 4 (b_base_sequence b)
     @ to_be 4 (b_record_count b) @ b_record_data b"

section \<open>Decoding\<close>

definition try_get_s :: "nat \<Rightarrow> bytes \<Rightarrow> sio_error + (int \<times> bytes)" where
  "try_get_s n bs = rbind (ok_or TryGet (take_n n bs)) (\<lambda>(h, t). Inr (from_be_s h, t))"

definition try_get_u :: "nat \<Rightarrow> bytes \<Rightarrow> sio_error + (int \<times> bytes)" where
  "try_get_u n bs = rbind (ok_or TryGet (take_n n bs)) (\<lambda>(h, t). Inr (from_be_u h, t))"

definition checked_sub :: "nat \<Rightarrow> nat \<Rightarrow> sio_error + nat" where
  "checked_sub a b = (if a < b then Inl Overflow else Inr (a - b))"

definition usize_try_from :: "int \<Rightarrow> sio_error + nat" where
  "usize_try_from i = (if i < 0 then Inl TryFromInt else Inr (nat i))"

definition Batch_try_from :: "bytes \<Rightarrow> sio_error + batch" where
  "Batch_try_from encoded =
     rbind (try_get_s 8 encoded) (\<lambda>(base_offset, encoded).
     rbind (try_get_s 4 encoded) (\<lambda>(batch_length, encoded).
     rbind (try_get_s 4 encoded) (\<lambda>(partition_leader_epoch, encoded).
     rbind (try_get_s 1 encoded) (\<lambda>(magic, encoded).
       if magic \<noteq> MAGIC_RECORD_BATCH_V2 then
         Inr (Batch_default\<lparr>b_base_offset := base_offset, b_batch_length := batch_length, b_magic := magic\<rparr>)
       else
         rbind (try_get_u 4 encoded) (\<lambda>(crc, encoded).
         rbind (rbind (rbind (rbind (usize_try_from batch_length) (\<lambda>n. checked_sub n 4))
                        (\<lambda>n. checked_sub n 1)) (\<lambda>n. checked_sub n 4)) (\<lambda>crc_data_size.
           if length encoded < crc_data_size then Inl Overflow
           else
             rbind (try_get_s 2 encoded) (\<lambda>(attributes, encoded).
             rbind (try_get_s 4 encoded) (\<lambda>(last_offset_delta, encoded).
             rbind (try_get_s 8 encoded) (\<lambda>(base_timestamp, encoded).
             rbind (try_get_s 8 encoded) (\<lambda>(max_timestamp, encoded).
             rbind (try_get_s 8 encoded) (\<lambda>(producer_id, encoded).
             rbind (try_get_s 2 encoded) (\<lambda>(producer_epoch, encoded).
             rbind (try_get_s 4 encoded) (\<lambda>(base_sequence, encoded).
             rbind (try_get_u 4 encoded) (\<lambda>(record_count, encoded).
             rbind (rbind (usize_try_from batch_length) (\<lambda>n. checked_sub n FIXED_BATCH_LENGTH))
               (\<lambda>record_data_size.
               if length encoded < record_data_size then Inl Overflow
               else
                 Inr \<lparr>b_base_offset = base_offset, b_batch_length = batch_length,
                      b_partition_leader_epoch = partition_leader_epoch, b_magic = magic, b_crc = crc,
                      b_attributes = attributes, b_last_offset_delta = last_offset_delta,
                      b_base_timestamp = base_timestamp, b_max_timestamp = max_timestamp,
                      b_producer_id = producer_id, b_producer_epoch = producer_epoch,
                      b_base_sequence = base_sequence, b_record_count = record_count,
                      b_record_data = take record_data_size encoded\<rparr>)))))))))))))))"

section \<open>Reading a batch\<close>

definition is_record_batch_v2 :: "batch \<Rightarrow> bool" where
  "is_record_batch_v2 b \<longleftrightarrow> b_magic b = MAGIC_RECORD_BATCH_V2"

definition wire_size :: "batch \<Rightarrow> nat" where
  "wire_size b = 8 + 4 + FIXED_BATCH_LENGTH + length (b_record_data b)"

definition Frame_size_in_bytes :: "batch list \<Rightarrow> nat" where
  "Frame_size_in_bytes batches = sum_list (map wire_size batches)"

definition attribute_bit :: "int \<Rightarrow> int \<Rightarrow> bool" where
  "attribute_bit attributes m \<longleftrightarrow> attributes AND m = m"

definition is_transactional :: "batch \<Rightarrow> bool" where
  "is_transactional b \<longleftrightarrow> attribute_bit (b_attributes b) 16"

definition is_control :: "batch \<Rightarrow> bool" where
  "is_control b \<longleftrightarrow> attribute_bit (b_attributes b) 32"

definition is_idempotent :: "batch \<Rightarrow> bool" where
  "is_idempotent b \<longleftrightarrow> b_producer_id b \<noteq> - 1 \<and> b_base_sequence b \<noteq> - 1"

definition encoded_batch_length :: "batch \<Rightarrow> sio_error + int" where
  "encoded_batch_length b =
     (let n = FIXED_BATCH_LENGTH + length (b_record_data b)
      in if n < 2 ^ 31 then Inr (int n) else Inl TryFromInt)"

definition declares_its_own_length :: "batch \<Rightarrow> bool" where
  "declares_its_own_length b \<longleftrightarrow> encoded_batch_length b = Inr (b_batch_length b)"

definition max_offset :: "batch \<Rightarrow> int" where
  "max_offset b = b_base_offset b + b_last_offset_delta b"

datatype compression = CNone | Gzip | Snappy | Lz4 | Zstd

definition Compression_try_from :: "int \<Rightarrow> sio_error + compression" where
  "Compression_try_from a =
     (let c = a AND 7
      in if c = 0 then Inr CNone else if c = 1 then Inr Gzip else if c = 2 then Inr Snappy
         else if c = 3 then Inr Lz4 else if c = 4 then Inr Zstd else Inl (UnknownCompressionType c))"

definition has_dependent_lz4_blocks :: "batch \<Rightarrow> bool" where
  "has_dependent_lz4_blocks b \<longleftrightarrow>
     Compression_try_from (b_attributes b) = Inr Lz4 \<and>
     5 \<le> length (b_record_data b) \<and>
     take 4 (b_record_data b) = [0x04, 0x22, 0x4d, 0x18] \<and>
     b_record_data b ! 4 AND 32 = 0"

section \<open>The checksum range\<close>

record crc_data =
  cd_attributes :: int
  cd_last_offset_delta :: int
  cd_base_timestamp :: int
  cd_max_timestamp :: int
  cd_producer_id :: int
  cd_producer_epoch :: int
  cd_base_sequence :: int
  cd_record_count :: int
  cd_record_data :: bytes

definition CrcData_to_bytes :: "crc_data \<Rightarrow> bytes" where
  "CrcData_to_bytes c =
     to_be 2 (cd_attributes c) @ to_be 4 (cd_last_offset_delta c) @ to_be 8 (cd_base_timestamp c)
     @ to_be 8 (cd_max_timestamp c) @ to_be 8 (cd_producer_id c) @ to_be 2 (cd_producer_epoch c)
     @ to_be 4 (cd_base_sequence c) @ to_be 4 (cd_record_count c) @ cd_record_data c"

definition CrcData_size :: "crc_data \<Rightarrow> nat" where
  "CrcData_size c = 2 + 4 + 8 + 8 + 8 + 2 + 4 + 4 + length (cd_record_data c)"

definition CrcData_from :: "batch \<Rightarrow> crc_data" where
  "CrcData_from b =
     \<lparr>cd_attributes = b_attributes b, cd_last_offset_delta = b_last_offset_delta b,
      cd_base_timestamp = b_base_timestamp b, cd_max_timestamp = b_max_timestamp b,
      cd_producer_id = b_producer_id b, cd_producer_epoch = b_producer_epoch b,
      cd_base_sequence = b_base_sequence b, cd_record_count = b_record_count b,
      cd_record_data = b_record_data b\<rparr>"

definition CrcData_crc :: "(bytes \<Rightarrow> int) \<Rightarrow> crc_data \<Rightarrow> int" where
  "CrcData_crc crc32c c = crc32c (CrcData_to_bytes c)"

definition into_batch :: "(bytes \<Rightarrow> int) \<Rightarrow> crc_data \<Rightarrow> int \<Rightarrow> int \<Rightarrow> int \<Rightarrow> sio_error + batch" where
  "into_batch crc32c c base_offset partition_leader_epoch magic =
     (let n = FIXED_BATCH_LENGTH + length (cd_record_data c)
      in if n < 2 ^ 31 then
           Inr \<lparr>b_base_offset = base_offset, b_batch_length = int n,
                b_partition_leader_epoch = partition_leader_epoch, b_magic = magic,
                b_crc = CrcData_crc crc32c c, b_attributes = cd_attributes c,
                b_last_offset_delta = cd_last_offset_delta c, b_base_timestamp = cd_base_timestamp c,
                b_max_timestamp = cd_max_timestamp c, b_producer_id = cd_producer_id c,
                b_producer_epoch = cd_producer_epoch c, b_base_sequence = cd_base_sequence c,
                b_record_count = cd_record_count c, b_record_data = cd_record_data c\<rparr>
         else Inl TryFromInt)"

definition computed_crc :: "(bytes \<Rightarrow> int) \<Rightarrow> batch \<Rightarrow> int" where
  "computed_crc crc32c b = CrcData_crc crc32c (CrcData_from b)"

definition crc_matches :: "(bytes \<Rightarrow> int) \<Rightarrow> batch \<Rightarrow> bool" where
  "crc_matches crc32c b \<longleftrightarrow> computed_crc crc32c b = b_crc b"

section \<open>Batches made from records\<close>

text \<open>
  \<open>inflated::Batch\<close>, the batch with its records decoded. The compressors are third-party packages:
  \<open>compress\<close> stands for the three the encoder calls (gzip, lz4 and zstd).
\<close>

record inflated_batch =
  i_base_offset :: int
  i_batch_length :: int
  i_partition_leader_epoch :: int
  i_magic :: int
  i_crc :: int
  i_attributes :: int
  i_last_offset_delta :: int
  i_base_timestamp :: int
  i_max_timestamp :: int
  i_producer_id :: int
  i_producer_epoch :: int
  i_base_sequence :: int
  i_records :: "krecord list"

definition into_record_data ::
    "(compression \<Rightarrow> bytes \<Rightarrow> sio_error + bytes) \<Rightarrow> krecord list \<Rightarrow> compression \<Rightarrow> sio_error + bytes" where
  "into_record_data compress records c =
     rbind (sum_sizes Record_size 0 records) (\<lambda>_.
       case c of
         CNone \<Rightarrow> Records_encode records
       | Snappy \<Rightarrow> Inl UnexpectedType
       | _ \<Rightarrow> rbind (Records_encode records) (compress c))"

definition Batch_from_inflated ::
    "(bytes \<Rightarrow> int) \<Rightarrow> (compression \<Rightarrow> bytes \<Rightarrow> sio_error + bytes) \<Rightarrow> inflated_batch \<Rightarrow> sio_error + batch" where
  "Batch_from_inflated crc32c compress b =
     (if 2 ^ 32 \<le> length (i_records b) then Inl TryFromInt
      else
        rbind (Compression_try_from (i_attributes b)) (\<lambda>c.
        rbind (into_record_data compress (i_records b) c) (\<lambda>data.
          into_batch crc32c
            \<lparr>cd_attributes = i_attributes b, cd_last_offset_delta = i_last_offset_delta b,
             cd_base_timestamp = i_base_timestamp b, cd_max_timestamp = i_max_timestamp b,
             cd_producer_id = i_producer_id b, cd_producer_epoch = i_producer_epoch b,
             cd_base_sequence = i_base_sequence b, cd_record_count = int (length (i_records b)),
             cd_record_data = data\<rparr>
            (i_base_offset b) (i_partition_leader_epoch b) (i_magic b))))"

text \<open>
  The uncompressed branch of \<open>TryFrom<Batch> for Vec<Record>\<close>; \<open>None\<close> where the code goes on to a
  decompressor.
\<close>

definition Batch_records :: "batch \<Rightarrow> (sio_error + krecord list) option" where
  "Batch_records b =
     (if Compression_try_from (b_attributes b) = Inr CNone
      then Some (rbind (decode_many Record_decode (nat (b_record_count b)) (b_record_data b))
                  (\<lambda>(records, _). Inr records))
      else None)"

section \<open>Keys and in-batch compaction\<close>

text \<open>
  \<open>inflated::Batch::keys\<close> and \<open>compact\<close>. The code's \<open>BTreeSet\<close>s are sets here; the loop's
  \<open>BTreeMap\<close> from key to last offset delta is a map. The records kept are rebuilt through a builder
  that copies the fields of the batch; only the records and the count are modelled.
\<close>

definition batch_keys :: "krecord list \<Rightarrow> bytes set" where
  "batch_keys records = fold (\<lambda>r acc. case r_key r of Some k \<Rightarrow> insert k acc | None \<Rightarrow> acc) records {}"

definition compact_step ::
    "bytes set \<Rightarrow> krecord \<Rightarrow> (bytes \<rightharpoonup> 32 word) \<times> nat \<Rightarrow> (bytes \<rightharpoonup> 32 word) \<times> nat" where
  "compact_step head r = (\<lambda>(last_delta, n).
     case r_key r of
       None \<Rightarrow> (last_delta, n)
     | Some k \<Rightarrow>
         if k \<in> head then (last_delta, n + 1)
         else (last_delta(k \<mapsto> r_offset_delta r), if last_delta k \<noteq> None then n + 1 else n))"

definition compact_records :: "bytes set \<Rightarrow> krecord list \<Rightarrow> krecord list \<times> nat" where
  "compact_records head records =
     (let (last_delta, n) = fold (compact_step head) records (Map.empty, 0)
      in if 0 < n then
           (filter (\<lambda>r. \<exists>r' \<in> set records. case r_key r' of None \<Rightarrow> False
                          | Some k \<Rightarrow> last_delta k = Some (r_offset_delta r)) records, n)
         else (records, n))"

section \<open>Lemmas\<close>

lemma try_get_s_to_be [codec_simps]:
  "0 < n \<Longrightarrow> fits_s n v \<Longrightarrow> try_get_s n (to_be n v @ rest) = Inr (v, rest)"
  by (simp add: try_get_s_def ok_or_def from_be_s_inverse)

lemma try_get_u_to_be [codec_simps]:
  "fits_u n v \<Longrightarrow> try_get_u n (to_be n v @ rest) = Inr (v, rest)"
  by (simp add: try_get_u_def ok_or_def from_be_u_inverse)

lemma try_get_s_to_be_1 [codec_simps]:
  "fits_s (Suc 0) v \<Longrightarrow> try_get_s (Suc 0) (word_of_int v # rest) = Inr (v, rest)"
  using try_get_s_to_be [of "Suc 0" v rest] by simp

lemma Batch_to_bytes_length: "length (Batch_to_bytes b) = wire_size b"
  by (simp add: Batch_to_bytes_def wire_size_def FIXED_BATCH_LENGTH_def)

lemma declares_length_iff:
  "declares_its_own_length b \<longleftrightarrow>
     b_batch_length b = int (FIXED_BATCH_LENGTH + length (b_record_data b)) \<and>
     FIXED_BATCH_LENGTH + length (b_record_data b) < 2 ^ 31"
  by (auto simp: declares_its_own_length_def encoded_batch_length_def Let_def)

lemma Batch_roundtrip:
  assumes wf: "wf_batch b" and v2: "is_record_batch_v2 b" and len: "declares_its_own_length b"
  shows "Batch_try_from (Batch_to_bytes b @ rest) = Inr b"
proof -
  have l: "b_batch_length b = 49 + int (length (b_record_data b))"
    using len by (simp add: declares_length_iff FIXED_BATCH_LENGTH_def)
  then have n: "nat (b_batch_length b) = 49 + length (b_record_data b)" "0 \<le> b_batch_length b"
    by simp_all
  show ?thesis
    using wf v2 n
    by (simp add: Batch_try_from_def Batch_to_bytes_def wf_batch_def is_record_batch_v2_def
        usize_try_from_def checked_sub_def FIXED_BATCH_LENGTH_def codec_simps)
qed

section \<open>Compaction keeps the newest record of each key\<close>

definition keyed :: "krecord list \<Rightarrow> krecord list" where
  "keyed = filter (\<lambda>r. r_key r \<noteq> None)"

text \<open>
  The reference: the records whose key is not in \<open>head\<close> and does not occur again later in the list.
\<close>

primrec survivors :: "bytes set \<Rightarrow> krecord list \<Rightarrow> krecord list" where
  "survivors head [] = []"
| "survivors head (r # rs) =
     (case r_key r of
        None \<Rightarrow> survivors head rs
      | Some k \<Rightarrow> if k \<in> head \<or> Some k \<in> r_key ` set rs then survivors head rs
                 else r # survivors head rs)"

definition survivor_deltas :: "bytes set \<Rightarrow> krecord list \<Rightarrow> bytes \<rightharpoonup> 32 word" where
  "survivor_deltas head rs = map_of (map (\<lambda>r. (the (r_key r), r_offset_delta r)) (survivors head rs))"

lemma batch_keys_eq: "batch_keys rs = {k. Some k \<in> r_key ` set rs}"
proof -
  have "fold (\<lambda>r acc. case r_key r of Some k \<Rightarrow> insert k acc | None \<Rightarrow> acc) rs A
          = {k. Some k \<in> r_key ` set rs} \<union> A" for A
    by (induction rs arbitrary: A) (auto split: option.splits)
  then show ?thesis by (simp add: batch_keys_def)
qed

lemma survivors_subset: "set (survivors head rs) \<subseteq> set rs"
  by (induction rs) (auto split: option.splits)

lemma survivors_keyed: "r \<in> set (survivors head rs) \<Longrightarrow> \<exists>k. r_key r = Some k \<and> k \<notin> head"
  by (induction rs) (auto split: option.splits if_splits)

lemma survivors_keys:
  "Some k \<in> r_key ` set (survivors head rs) \<longleftrightarrow> k \<notin> head \<and> Some k \<in> r_key ` set rs"
  by (induction rs) (auto split: option.splits)

lemma survivors_distinct_keys: "distinct (map r_key (survivors head rs))"
proof (induction rs)
  case (Cons r rs)
  have "Some k \<notin> r_key ` set rs \<Longrightarrow> Some k \<notin> r_key ` set (survivors head rs)" for k
    by (simp add: survivors_keys)
  with Cons show ?case by (auto split: option.splits)
qed simp

lemma survivors_append:
  "survivors head (xs @ ys) = survivors (head \<union> batch_keys ys) xs @ survivors head ys"
  by (induction xs) (auto simp: batch_keys_eq split: option.splits)

lemma dom_survivor_deltas: "dom (survivor_deltas head rs) = {k. k \<notin> head \<and> Some k \<in> r_key ` set rs}"
proof -
  have "dom (survivor_deltas head rs) = {k. Some k \<in> r_key ` set (survivors head rs)}"
  proof -
    have "fst ` set (map (\<lambda>r. (the (r_key r), r_offset_delta r)) (survivors head rs))
            = {k. Some k \<in> r_key ` set (survivors head rs)}" (is "?L = ?R")
    proof (intro set_eqI iffI)
      fix k assume "k \<in> ?L"
      then obtain r where r: "r \<in> set (survivors head rs)" "k = the (r_key r)" by auto
      then have "Some k = r_key r" using survivors_keyed by fastforce
      with r show "k \<in> ?R" by simp
    next
      fix k assume "k \<in> ?R"
      then obtain r where "r \<in> set (survivors head rs)" "r_key r = Some k" by auto
      then show "k \<in> ?L" by (auto simp: image_iff intro!: bexI [of _ r])
    qed
    then show ?thesis by (simp add: survivor_deltas_def dom_map_of_conv_image_fst)
  qed
  then show ?thesis by (simp add: survivors_keys)
qed

lemma compact_step_key:
  "r_key r = None \<Longrightarrow> compact_step head r (m, n) = (m, n)"
  "r_key r = Some k \<Longrightarrow> k \<in> head \<Longrightarrow> compact_step head r (m, n) = (m, n + 1)"
  "r_key r = Some k \<Longrightarrow> k \<notin> head \<Longrightarrow>
     compact_step head r (m, n) = (m(k \<mapsto> r_offset_delta r), n + (if k \<in> dom m then 1 else 0))"
  by (auto simp: compact_step_def)

lemma survivor_deltas_Cons:
  "r_key r = None \<Longrightarrow> survivor_deltas head (r # rs) = survivor_deltas head rs"
  "r_key r = Some k \<Longrightarrow> k \<in> head \<or> Some k \<in> r_key ` set rs \<Longrightarrow>
     survivor_deltas head (r # rs) = survivor_deltas head rs"
  "r_key r = Some k \<Longrightarrow> k \<notin> head \<Longrightarrow> Some k \<notin> r_key ` set rs \<Longrightarrow>
     survivor_deltas head (r # rs) = (survivor_deltas head rs)(k \<mapsto> r_offset_delta r)"
  by (simp_all add: survivor_deltas_def)

lemma map_add_upd_left:
  "k \<in> dom f \<Longrightarrow> m(k \<mapsto> v) ++ f = m ++ f"
  "k \<notin> dom f \<Longrightarrow> m(k \<mapsto> v) ++ f = m ++ f(k \<mapsto> v)"
  by (auto simp: map_add_def split: option.splits)

lemma compact_fold_deltas:
  "fst (fold (compact_step head) rs (m, n)) = m ++ survivor_deltas head rs"
proof (induction rs arbitrary: m n)
  case Nil
  show ?case by (simp add: survivor_deltas_def)
next
  case (Cons r rs)
  show ?case
  proof (cases "r_key r")
    case None
    then show ?thesis using Cons by (simp add: compact_step_key survivor_deltas_Cons)
  next
    case (Some k)
    consider (head) "k \<in> head" | (later) "k \<notin> head" "Some k \<in> r_key ` set rs"
      | (last) "k \<notin> head" "Some k \<notin> r_key ` set rs" by blast
    then show ?thesis
    proof cases
      case head
      with Some Cons show ?thesis by (simp add: compact_step_key survivor_deltas_Cons)
    next
      case later
      with Some have "k \<in> dom (survivor_deltas head rs)" by (simp add: dom_survivor_deltas)
      then have "m(k \<mapsto> r_offset_delta r) ++ survivor_deltas head rs = m ++ survivor_deltas head rs"
        by (rule map_add_upd_left)
      with later Some Cons show ?thesis
        by (simp only: fold_Cons o_apply compact_step_key survivor_deltas_Cons simp_thms)
    next
      case last
      then have "k \<notin> dom (survivor_deltas head rs)" by (simp add: dom_survivor_deltas)
      with last Some Cons show ?thesis
        by (simp only: fold_Cons o_apply compact_step_key survivor_deltas_Cons map_add_upd_left not_False_eq_True)
    qed
  qed
qed

lemma distinct_count_insert:
  assumes "distinct ys"
  shows "length (filter (\<lambda>x. x \<in> insert y A) ys)
           = length (filter (\<lambda>x. x \<in> A) ys) + (if y \<in> set ys \<and> y \<notin> A then 1 else 0)"
proof -
  have "{x. x \<in> insert y A} \<inter> set ys
          = (if y \<in> set ys then insert y ({x. x \<in> A} \<inter> set ys) else {x. x \<in> A} \<inter> set ys)"
    by auto
  then show ?thesis using assms by (auto simp: distinct_length_filter card_insert_if)
qed

lemma compact_fold_count:
  "snd (fold (compact_step head) rs (m, n)) + length (survivors head rs)
     = n + length (keyed rs)
       + length (filter (\<lambda>k. k \<in> Some ` dom m) (map r_key (survivors head rs)))"
proof (induction rs arbitrary: m n)
  case (Cons r rs)
  show ?case
  proof (cases "r_key r")
    case (Some k)
    let ?K = "map r_key (survivors head rs)"
    have dom_upd: "Some ` dom (m(k \<mapsto> v)) = insert (Some k) (Some ` dom m)" for v
      by auto
    have keys: "Some k \<in> set ?K \<longleftrightarrow> k \<notin> head \<and> Some k \<in> r_key ` set rs"
      using survivors_keys by simp
    have mem: "Some k \<in> Some ` dom m \<longleftrightarrow> k \<in> dom m" by auto
    note count = distinct_count_insert [OF survivors_distinct_keys, of "Some k" "Some ` dom m" head rs, unfolded keys mem]
    show ?thesis
    proof (cases "k \<in> head")
      case True
      then show ?thesis using Some Cons [of m "n + 1"] by (simp add: compact_step_key keyed_def)
    next
      case False
      have "snd (fold (compact_step head) (r # rs) (m, n)) + length (survivors head rs)
              = n + (if k \<in> dom m then 1 else 0) + length (keyed rs)
                + (length (filter (\<lambda>k. k \<in> Some ` dom m) ?K)
                   + (if Some k \<in> r_key ` set rs \<and> k \<notin> dom m then 1 else 0))"
        using False Some Cons [of "m(k \<mapsto> r_offset_delta r)" "n + (if k \<in> dom m then 1 else 0)"] count
        by (simp only: fold_Cons o_apply compact_step_key dom_upd simp_thms not_False_eq_True)
      then show ?thesis using False Some mem by (auto simp: keyed_def)
    qed
  qed (use Cons in \<open>simp add: compact_step_key keyed_def\<close>)
qed (simp add: keyed_def)

lemma survivors_by_delta:
  "distinct (map r_offset_delta rs) \<Longrightarrow>
   filter (\<lambda>r. r_offset_delta r \<in> r_offset_delta ` set (survivors head rs)) rs = survivors head rs"
proof (induction rs)
  case (Cons r rs)
  have sub: "r_offset_delta ` set (survivors head rs) \<subseteq> r_offset_delta ` set rs"
    using survivors_subset by (rule image_mono)
  have other: "filter (\<lambda>x. r_offset_delta x = r_offset_delta r \<or> P x) rs = filter P rs" for P
    using Cons.prems by (intro filter_cong) (auto simp: image_iff)
  show ?case using Cons sub by (auto simp: other split: option.splits)
qed simp

lemma retained_iff:
  "(\<exists>r' \<in> set rs. case r_key r' of None \<Rightarrow> False | Some k \<Rightarrow> survivor_deltas head rs k = Some d)
     \<longleftrightarrow> d \<in> r_offset_delta ` set (survivors head rs)"
proof
  assume "\<exists>r' \<in> set rs. case r_key r' of None \<Rightarrow> False | Some k \<Rightarrow> survivor_deltas head rs k = Some d"
  then show "d \<in> r_offset_delta ` set (survivors head rs)"
    by (auto simp: survivor_deltas_def split: option.splits dest!: map_of_SomeD)
next
  assume "d \<in> r_offset_delta ` set (survivors head rs)"
  then obtain r where r: "r \<in> set (survivors head rs)" "d = r_offset_delta r" by auto
  then obtain k where k: "r_key r = Some k" using survivors_keyed by blast
  have "map r_key (survivors head rs) = map Some (map (\<lambda>r. the (r_key r)) (survivors head rs))"
    using survivors_keyed by force
  then have "distinct (map (\<lambda>r. the (r_key r)) (survivors head rs))"
    using survivors_distinct_keys [of head rs] by (simp only: distinct_map)
  then have "survivor_deltas head rs k = Some d"
    unfolding survivor_deltas_def using r k by (intro map_of_is_SomeI) (auto simp: o_def image_iff intro!: bexI [of _ r])
  with r k survivors_subset show
    "\<exists>r' \<in> set rs. case r_key r' of None \<Rightarrow> False | Some k \<Rightarrow> survivor_deltas head rs k = Some d"
    by (intro bexI [of _ r]) auto
qed

lemma survivors_subseq: "subseq (survivors head rs) (keyed rs)"
  by (induction rs) (auto simp: keyed_def split: option.splits)

lemma compact_records_correct:
  assumes "distinct (map r_offset_delta rs)"
  shows "keyed (fst (compact_records head rs)) = survivors head rs"
    and "snd (compact_records head rs) + length (survivors head rs) = length (keyed rs)"
    and "fst (compact_records head rs) = (if survivors head rs = keyed rs then rs else survivors head rs)"
proof -
  obtain m n where f: "fold (compact_step head) rs (Map.empty, 0) = (m, n)" by fastforce
  have m: "m = survivor_deltas head rs"
    using compact_fold_deltas [of head rs Map.empty 0] f by simp
  have n: "n + length (survivors head rs) = length (keyed rs)"
    using compact_fold_count [of head rs Map.empty 0] f by simp
  have zero: "n = 0 \<longleftrightarrow> survivors head rs = keyed rs"
    using n subseq_same_length [OF survivors_subseq, of head rs] by auto
  have c: "compact_records head rs = (if 0 < n then survivors head rs else rs, n)"
    using assms by (simp add: compact_records_def f m retained_iff survivors_by_delta)
  have "keyed (survivors head rs) = survivors head rs"
    using survivors_keyed by (fastforce simp: keyed_def filter_id_conv)
  with c zero show "keyed (fst (compact_records head rs)) = survivors head rs" by auto
  show "snd (compact_records head rs) + length (survivors head rs) = length (keyed rs)"
    using c n by simp
  show "fst (compact_records head rs) = (if survivors head rs = keyed rs then rs else survivors head rs)"
    using c zero by (cases "n = 0") auto
qed

section \<open>Properties\<close>

definition sample_batch :: batch where
  "sample_batch =
     \<lparr>b_base_offset = 0, b_batch_length = 52, b_partition_leader_epoch = - 1, b_magic = 2, b_crc = 7,
      b_attributes = 0, b_last_offset_delta = 2, b_base_timestamp = 5, b_max_timestamp = 9,
      b_producer_id = 41, b_producer_epoch = 0, b_base_sequence = 0, b_record_count = 3,
      b_record_data = [1, 2, 3]\<rparr>"

lemma sample_batch_ok:
  "wf_batch sample_batch" "is_record_batch_v2 sample_batch" "declares_its_own_length sample_batch"
  by (simp_all add: sample_batch_def wf_batch_def fits_s_def fits_u_def is_record_batch_v2_def
      MAGIC_RECORD_BATCH_V2_def declares_length_iff FIXED_BATCH_LENGTH_def)

text \<open>
  C31. A version 2 batch that declares its own length survives its wire encoding, whatever follows it in
  the buffer, and the encoding is exactly \<open>wire_size\<close> bytes long.
\<close>

theorem batch_roundtrip:
  assumes "wf_batch b" and "is_record_batch_v2 b" and "declares_its_own_length b"
  shows "Batch_try_from (Batch_to_bytes b @ rest) = Inr b \<and> length (Batch_to_bytes b) = wire_size b"
  using Batch_roundtrip [OF assms] Batch_to_bytes_length by blast

theorem batch_roundtrip_witness:
  "Batch_try_from (Batch_to_bytes sample_batch @ [0]) = Inr sample_batch"
  using batch_roundtrip [OF sample_batch_ok] by blast


definition keyed_record :: "32 word \<Rightarrow> bytes option \<Rightarrow> krecord" where
  "keyed_record delta key =
     \<lparr>r_length = 0, r_attributes = 0, r_timestamp_delta = 0, r_offset_delta = delta, r_key = key,
      r_value = Some [], r_headers = []\<rparr>"

definition sample_records :: "krecord list" where
  "sample_records = [keyed_record 0 (Some [1]), keyed_record 1 None, keyed_record 2 (Some [2]), keyed_record 3 (Some [1])]"


text \<open>
  C33. A batch built from records declares its own length, carries the checksum of its own fields, and
  so passes both checks the produce path makes before it is stored.
\<close>

theorem built_batch_checks:
  assumes "Batch_from_inflated crc32c compress ib = Inr b"
  shows "declares_its_own_length b \<and> crc_matches crc32c b \<and> b_record_count b = int (length (i_records ib))"
proof -
  obtain c data where "into_batch crc32c
            \<lparr>cd_attributes = i_attributes ib, cd_last_offset_delta = i_last_offset_delta ib,
             cd_base_timestamp = i_base_timestamp ib, cd_max_timestamp = i_max_timestamp ib,
             cd_producer_id = i_producer_id ib, cd_producer_epoch = i_producer_epoch ib,
             cd_base_sequence = i_base_sequence ib, cd_record_count = int (length (i_records ib)),
             cd_record_data = data\<rparr> (i_base_offset ib) (i_partition_leader_epoch ib) (i_magic ib) = Inr b"
    using assms by (auto simp: Batch_from_inflated_def result_simps split: if_splits)
  then show ?thesis
    by (auto simp: into_batch_def Let_def declares_length_iff crc_matches_def computed_crc_def CrcData_from_def
        split: if_splits)
qed

definition sample_inflated :: inflated_batch where
  "sample_inflated =
     \<lparr>i_base_offset = 0, i_batch_length = 0, i_partition_leader_epoch = - 1, i_magic = 2, i_crc = 0,
      i_attributes = 0, i_last_offset_delta = 0, i_base_timestamp = 0, i_max_timestamp = 0,
      i_producer_id = - 1, i_producer_epoch = 0, i_base_sequence = - 1, i_records = []\<rparr>"

theorem built_batch_checks_witness:
  "\<exists>b. Batch_from_inflated (\<lambda>bs. int (length bs)) (\<lambda>_ bs. Inr bs) sample_inflated = Inr b \<and>
       declares_its_own_length b \<and> crc_matches (\<lambda>bs. int (length bs)) b"
proof -
  have "\<exists>b. Batch_from_inflated (\<lambda>bs. int (length bs)) (\<lambda>_ bs. Inr bs) sample_inflated = Inr b"
    by (simp add: Batch_from_inflated_def sample_inflated_def Compression_try_from_def into_record_data_def
        Records_encode_def into_batch_def FIXED_BATCH_LENGTH_def Let_def)
  then obtain b where "Batch_from_inflated (\<lambda>bs. int (length bs)) (\<lambda>_ bs. Inr bs) sample_inflated = Inr b" by blast
  from built_batch_checks [OF this] this show ?thesis by blast
qed

end
