(* ===== verification/SegmentFormat.thy ===== *)
theory SegmentFormat
  imports RecordBatch
begin

unbundle bit_operations_syntax

text \<open>
  The segment object of the prefix-coalesced log (\<open>tansu-storage/src/dynostore/codec.rs\<close>, with the
  types of \<open>dynostore.rs\<close>): sub-stream regions laid end to end, the footer that describes them in
  its four layouts, the fixed trailer, and the readers: the footer decoder, the frame scan over a
  region and its verdict. Lengths and byte positions are naturals or integers; what is written to
  the object is reduced to its field's width by \<^const>\<open>to_be\<close>, as the code's \<open>as\<close> casts do.
\<close>

section \<open>Types\<close>

type_synonym uuid = bytes

datatype substream = SName string | SId uuid

primrec substream_id :: "substream \<Rightarrow> uuid option" where
  "substream_id (SName n) = None"
| "substream_id (SId i) = Some i"

definition uuid_nil :: uuid where
  "uuid_nil = replicate 16 0"

record topition =
  tp_topic :: string
  tp_partition :: int

record producer_coord =
  pc_producer_id :: int
  pc_producer_epoch :: int
  pc_base_sequence :: int
  pc_last_sequence :: int
  pc_offset_delta :: int
  pc_flags :: byte

record substream_entry =
  se_topic :: string
  se_topic_id :: "uuid option"
  se_partition :: int
  se_base_offset :: int
  se_record_count :: int
  se_byte_start :: int
  se_byte_len :: int
  se_max_timestamp :: int
  se_producers :: "producer_coord list"

record segment_footer =
  sf_writer_epoch :: int
  sf_nonce :: int
  sf_entries :: "substream_entry list"

record substream_write =
  sw_topition :: topition
  sw_substream :: substream
  sw_base_offset :: int
  sw_batches :: "batch list"

text \<open>The storage errors of this component.\<close>

datatype seg_error =
    TruncatedFooter
  | BadUtf8
  | UnsupportedVersion int
  | FooterLengthExceedsTail
  | KafkaStorageError
  | DivergentBatch nat
  | CorruptSegment nat "int option"
  | ShortOfExtent nat

definition entry_substream :: "substream_entry \<Rightarrow> substream" where
  "entry_substream e = (case se_topic_id e of Some i \<Rightarrow> SId i | None \<Rightarrow> SName (se_topic e))"

definition entry_is :: "substream_entry \<Rightarrow> substream \<Rightarrow> bool" where
  "entry_is e s = (case s of SId i \<Rightarrow> se_topic_id e = Some i
                           | SName n \<Rightarrow> se_topic_id e = None \<and> se_topic e = n)"

definition entry_end :: "substream_entry \<Rightarrow> int" where
  "entry_end e = se_base_offset e + se_record_count e"

definition footer_get :: "segment_footer \<Rightarrow> substream \<Rightarrow> int \<Rightarrow> substream_entry option" where
  "footer_get f s p = find (\<lambda>e. se_partition e = p \<and> entry_is e s) (sf_entries f)"

definition region_of :: "segment_footer \<Rightarrow> substream_entry \<Rightarrow> substream_entry option" where
  "region_of f e =
     (let s = entry_substream e
      in case find (\<lambda>own. se_partition own = se_partition e \<and> entry_is own s
                         \<and> se_base_offset own = se_base_offset e) (sf_entries f) of
           Some own \<Rightarrow> Some own
         | None \<Rightarrow> footer_get f s (se_partition e))"

definition SEGMENT_MAGIC :: int where "SEGMENT_MAGIC = 0x54534547"
definition SEGMENT_FORMAT_VERSION :: int where "SEGMENT_FORMAT_VERSION = 1"
definition SEGMENT_FORMAT_VERSION_V2 :: int where "SEGMENT_FORMAT_VERSION_V2 = 2"
definition SEGMENT_FORMAT_VERSION_V3 :: int where "SEGMENT_FORMAT_VERSION_V3 = 3"
definition SEGMENT_FORMAT_VERSION_V4 :: int where "SEGMENT_FORMAT_VERSION_V4 = 4"
definition SEGMENT_TRAILER_LEN :: nat where "SEGMENT_TRAILER_LEN = 18"
definition FLAG_TRANSACTIONAL :: byte where "FLAG_TRANSACTIONAL = 1"
definition FLAG_CONTROL :: byte where "FLAG_CONTROL = 2"

lemmas version_defs = SEGMENT_FORMAT_VERSION_def SEGMENT_FORMAT_VERSION_V2_def
  SEGMENT_FORMAT_VERSION_V3_def SEGMENT_FORMAT_VERSION_V4_def

section \<open>The footer\<close>

definition encode_coord :: "int \<Rightarrow> producer_coord \<Rightarrow> bytes" where
  "encode_coord version pc =
     to_be 8 (pc_producer_id pc) @ to_be 2 (pc_producer_epoch pc) @ to_be 4 (pc_base_sequence pc)
     @ to_be 4 (pc_last_sequence pc) @ to_be 4 (pc_offset_delta pc)
     @ (if SEGMENT_FORMAT_VERSION_V3 \<le> version then [pc_flags pc] else [])"

definition encode_entry :: "int \<Rightarrow> substream_entry \<Rightarrow> bytes" where
  "encode_entry version e =
     to_be 2 (int (length (bytes_of_str (se_topic e)))) @ bytes_of_str (se_topic e)
     @ (if SEGMENT_FORMAT_VERSION_V4 \<le> version
        then (case se_topic_id e of Some i \<Rightarrow> i | None \<Rightarrow> uuid_nil) else [])
     @ to_be 4 (se_partition e) @ to_be 8 (se_base_offset e) @ to_be 8 (se_record_count e)
     @ to_be 8 (se_byte_start e) @ to_be 8 (se_byte_len e) @ to_be 8 (se_max_timestamp e)
     @ (if SEGMENT_FORMAT_VERSION_V2 \<le> version
        then to_be 2 (int (length (se_producers e))) @ concat (map (encode_coord version) (se_producers e))
        else [])"

definition encode_footer :: "segment_footer \<Rightarrow> int \<Rightarrow> bytes" where
  "encode_footer f version =
     to_be 8 (sf_writer_epoch f)
     @ (if SEGMENT_FORMAT_VERSION_V2 \<le> version then to_be 8 (sf_nonce f) else [])
     @ concat (map (encode_entry version) (sf_entries f))"

definition ftake :: "nat \<Rightarrow> bytes \<Rightarrow> seg_error + (bytes \<times> bytes)" where
  "ftake n cursor = (if length cursor < n then Inl TruncatedFooter else Inr (take n cursor, drop n cursor))"

definition ftake_s :: "nat \<Rightarrow> bytes \<Rightarrow> seg_error + (int \<times> bytes)" where
  "ftake_s n cursor = rbind (ftake n cursor) (\<lambda>(h, t). Inr (from_be_s h, t))"

definition ftake_u :: "nat \<Rightarrow> bytes \<Rightarrow> seg_error + (int \<times> bytes)" where
  "ftake_u n cursor = rbind (ftake n cursor) (\<lambda>(h, t). Inr (from_be_u h, t))"

definition decode_coord :: "int \<Rightarrow> bytes \<Rightarrow> seg_error + (producer_coord \<times> bytes)" where
  "decode_coord version cursor =
     rbind (ftake_s 8 cursor) (\<lambda>(producer_id, cursor).
     rbind (ftake_s 2 cursor) (\<lambda>(producer_epoch, cursor).
     rbind (ftake_s 4 cursor) (\<lambda>(base_sequence, cursor).
     rbind (ftake_s 4 cursor) (\<lambda>(last_sequence, cursor).
     rbind (ftake_u 4 cursor) (\<lambda>(offset_delta, cursor).
     rbind (if SEGMENT_FORMAT_VERSION_V3 \<le> version
            then rbind (ftake 1 cursor) (\<lambda>(h, t). Inr (hd h, t)) else Inr (0, cursor)) (\<lambda>(flags, cursor).
       Inr (\<lparr>pc_producer_id = producer_id, pc_producer_epoch = producer_epoch,
             pc_base_sequence = base_sequence, pc_last_sequence = last_sequence,
             pc_offset_delta = offset_delta, pc_flags = flags\<rparr>, cursor)))))))"

definition decode_entry :: "int \<Rightarrow> bytes \<Rightarrow> seg_error + (substream_entry \<times> bytes)" where
  "decode_entry version cursor =
     rbind (ftake_u 2 cursor) (\<lambda>(topic_len, cursor).
     rbind (ftake (nat topic_len) cursor) (\<lambda>(topic, cursor).
     rbind (if utf8_valid topic then Inr (str_of_bytes topic) else Inl BadUtf8) (\<lambda>topic.
     rbind (if SEGMENT_FORMAT_VERSION_V4 \<le> version
            then rbind (ftake 16 cursor) (\<lambda>(h, t). Inr (if h = uuid_nil then None else Some h, t))
            else Inr (None, cursor)) (\<lambda>(topic_id, cursor).
     rbind (ftake_s 4 cursor) (\<lambda>(partition, cursor).
     rbind (ftake_s 8 cursor) (\<lambda>(base_offset, cursor).
     rbind (ftake_s 8 cursor) (\<lambda>(record_count, cursor).
     rbind (ftake_u 8 cursor) (\<lambda>(byte_start, cursor).
     rbind (ftake_u 8 cursor) (\<lambda>(byte_len, cursor).
     rbind (ftake_s 8 cursor) (\<lambda>(max_timestamp, cursor).
     rbind (if SEGMENT_FORMAT_VERSION_V2 \<le> version
            then rbind (ftake_u 2 cursor) (\<lambda>(n, cursor). decode_many (decode_coord version) (nat n) cursor)
            else Inr ([], cursor)) (\<lambda>(producers, cursor).
       Inr (\<lparr>se_topic = topic, se_topic_id = topic_id, se_partition = partition,
             se_base_offset = base_offset, se_record_count = record_count, se_byte_start = byte_start,
             se_byte_len = byte_len, se_max_timestamp = max_timestamp, se_producers = producers\<rparr>,
            cursor))))))))))))"

definition decode_footer :: "bytes \<Rightarrow> nat \<Rightarrow> int \<Rightarrow> seg_error + segment_footer" where
  "decode_footer footer_bytes entry_count version =
     rbind (ftake_s 8 footer_bytes) (\<lambda>(writer_epoch, cursor).
     rbind (if SEGMENT_FORMAT_VERSION_V2 \<le> version then ftake_u 8 cursor else Inr (0, cursor)) (\<lambda>(nonce, cursor).
     rbind (decode_many (decode_entry version) entry_count cursor) (\<lambda>(entries, cursor).
       Inr \<lparr>sf_writer_epoch = writer_epoch, sf_nonce = nonce, sf_entries = entries\<rparr>)))"

definition slice :: "nat \<Rightarrow> nat \<Rightarrow> 'a list \<Rightarrow> 'a list" where
  "slice a b xs = take (b - a) (drop a xs)"

definition decode_segment_footer :: "bytes \<Rightarrow> seg_error + segment_footer option" where
  "decode_segment_footer tail =
     (if length tail < SEGMENT_TRAILER_LEN then Inr None
      else
        let trailer = drop (length tail - SEGMENT_TRAILER_LEN) tail;
            magic = from_be_u (slice 14 18 trailer)
        in if magic \<noteq> SEGMENT_MAGIC then Inr None
           else
             let footer_len = nat (from_be_u (slice 0 8 trailer));
                 entry_count = nat (from_be_u (slice 8 12 trailer));
                 version = from_be_u (slice 12 14 trailer)
             in if version \<noteq> SEGMENT_FORMAT_VERSION \<and> version \<noteq> SEGMENT_FORMAT_VERSION_V2
                   \<and> version \<noteq> SEGMENT_FORMAT_VERSION_V3 \<and> version \<noteq> SEGMENT_FORMAT_VERSION_V4
                then Inl (UnsupportedVersion version)
                else
                  let footer_end = length tail - SEGMENT_TRAILER_LEN
                  in if footer_end < footer_len then Inl FooterLengthExceedsTail
                     else rbind (decode_footer (slice (footer_end - footer_len) footer_end tail)
                                   entry_count version) (\<lambda>f. Inr (Some f)))"

section \<open>Encoding a segment\<close>

definition wrapping_add_i32 :: "int \<Rightarrow> int \<Rightarrow> int" where
  "wrapping_add_i32 a b = (a + b + 2 ^ 31) mod 2 ^ 32 - 2 ^ 31"

record region_acc =
  ra_body :: bytes
  ra_record_count :: int
  ra_max_timestamp :: int
  ra_producers :: "producer_coord list"

definition coord_flags :: "batch \<Rightarrow> byte" where
  "coord_flags b = (if is_transactional b then FLAG_TRANSACTIONAL else 0)
                   OR (if is_control b then FLAG_CONTROL else 0)"

definition coord_of :: "int \<Rightarrow> batch \<Rightarrow> producer_coord list" where
  "coord_of record_count b =
     (if is_idempotent b \<or> is_transactional b \<or> is_control b
      then [\<lparr>pc_producer_id = b_producer_id b, pc_producer_epoch = b_producer_epoch b,
             pc_base_sequence = b_base_sequence b,
             pc_last_sequence = wrapping_add_i32 (b_base_sequence b) (b_last_offset_delta b),
             pc_offset_delta = record_count mod 2 ^ 32, pc_flags = coord_flags b\<rparr>]
      else [])"

fun encode_region :: "nat \<Rightarrow> batch list \<Rightarrow> region_acc \<Rightarrow> seg_error + region_acc" where
  "encode_region index [] acc = Inr acc"
| "encode_region index (b # bs) acc =
     (if \<not> declares_its_own_length b then Inl (DivergentBatch index)
      else encode_region (index + 1) bs
             \<lparr>ra_body = ra_body acc @ Batch_to_bytes b,
              ra_record_count = ra_record_count acc + (b_last_offset_delta b + 1),
              ra_max_timestamp = max (ra_max_timestamp acc) (b_max_timestamp b),
              ra_producers = ra_producers acc @ coord_of (ra_record_count acc) b\<rparr>)"

definition region_acc0 :: "bytes \<Rightarrow> region_acc" where
  "region_acc0 body =
     \<lparr>ra_body = body, ra_record_count = 0, ra_max_timestamp = - (2 ^ 63), ra_producers = []\<rparr>"

definition entry_written :: "substream_write \<Rightarrow> bytes \<Rightarrow> region_acc \<Rightarrow> substream_entry" where
  "entry_written w body acc =
     \<lparr>se_topic = tp_topic (sw_topition w), se_topic_id = substream_id (sw_substream w),
      se_partition = tp_partition (sw_topition w), se_base_offset = sw_base_offset w,
      se_record_count = ra_record_count acc, se_byte_start = int (length body),
      se_byte_len = int (length (ra_body acc)) - int (length body),
      se_max_timestamp = ra_max_timestamp acc, se_producers = ra_producers acc\<rparr>"

fun encode_substreams ::
    "int \<Rightarrow> substream_write list \<Rightarrow> bytes \<Rightarrow> substream_entry list \<Rightarrow> seg_error + (bytes \<times> substream_entry list)" where
  "encode_substreams version [] body entries = Inr (body, entries)"
| "encode_substreams version (w # ws) body entries =
     (if sw_batches w = [] then encode_substreams version ws body entries
      else if version < SEGMENT_FORMAT_VERSION_V4 \<and> substream_id (sw_substream w) \<noteq> None
      then Inl KafkaStorageError
      else
        rbind (encode_region 0 (sw_batches w) (region_acc0 body))
          (\<lambda>acc. encode_substreams version ws (ra_body acc) (entries @ [entry_written w body acc])))"

definition segment_tail :: "segment_footer \<Rightarrow> int \<Rightarrow> bytes" where
  "segment_tail footer version =
     (let footer_bytes = encode_footer footer version
      in footer_bytes @ to_be 8 (int (length footer_bytes)) @ to_be 4 (int (length (sf_entries footer)))
         @ to_be 2 version @ to_be 4 SEGMENT_MAGIC)"

definition encode_segment_indexed ::
    "substream_write list \<Rightarrow> int \<Rightarrow> int \<Rightarrow> int \<Rightarrow> seg_error + (bytes \<times> segment_footer)" where
  "encode_segment_indexed substreams writer_epoch nonce version =
     rbind (encode_substreams version substreams [] []) (\<lambda>(body, entries).
       let footer = \<lparr>sf_writer_epoch = writer_epoch, sf_nonce = nonce, sf_entries = entries\<rparr>
       in Inr (body @ segment_tail footer version, footer))"

section \<open>Reading a region\<close>

datatype frame_tail = Exhausted | FShort nat nat | FMalformed nat int

primrec tail_at :: "frame_tail \<Rightarrow> nat" where
  "tail_at Exhausted = 0"
| "tail_at (FShort at remaining) = at"
| "tail_at (FMalformed at declared) = at"

primrec tail_declared :: "frame_tail \<Rightarrow> int option" where
  "tail_declared Exhausted = None"
| "tail_declared (FShort at remaining) = None"
| "tail_declared (FMalformed at declared) = Some declared"

definition FRAME_PREFIX :: nat where "FRAME_PREFIX = 8 + 4"

function decode_frame_from :: "nat \<Rightarrow> bytes \<Rightarrow> sio_error + (batch list \<times> frame_tail)" where
  "decode_frame_from at remaining =
     (if length remaining < FRAME_PREFIX
      then Inr ([], if remaining = [] then Exhausted else FShort at (length remaining))
      else
        let declared = from_be_s (slice 8 FRAME_PREFIX remaining)
        in if declared < 0 then Inr ([], FMalformed at declared)
           else
             let total = FRAME_PREFIX + nat declared
             in if length remaining < total then Inr ([], FMalformed at declared)
                else rbind (Batch_try_from (take total remaining)) (\<lambda>b.
                       rbind (decode_frame_from (at + total) (drop total remaining)) (\<lambda>(bs, t).
                         Inr (b # bs, t))))"
  by pat_completeness auto
termination
  by (relation "measure (\<lambda>(at, remaining). length remaining)") (auto simp: FRAME_PREFIX_def)

declare decode_frame_from.simps [simp del]

definition decode_frame :: "bytes \<Rightarrow> sio_error + (batch list \<times> frame_tail)" where
  "decode_frame encoded = decode_frame_from 0 encoded"

definition region_truncated :: "substream_entry \<Rightarrow> bytes \<Rightarrow> bool" where
  "region_truncated e encoded \<longleftrightarrow> int (length encoded) < se_byte_len e"

definition decode_region :: "substream_entry \<Rightarrow> bytes \<Rightarrow> seg_error + batch list" where
  "decode_region e encoded =
     (case decode_frame encoded of
        Inl _ \<Rightarrow> Inl (CorruptSegment 0 None)
      | Inr (batches, tail) \<Rightarrow>
          if region_truncated e encoded then Inl (ShortOfExtent (length encoded))
          else if tail = Exhausted then Inr batches
          else if batches = [] then Inl (CorruptSegment (tail_at tail) (tail_declared tail))
          else Inr batches)"

section \<open>What a footer version keeps\<close>

definition view_coord :: "int \<Rightarrow> producer_coord \<Rightarrow> producer_coord" where
  "view_coord v pc = (if SEGMENT_FORMAT_VERSION_V3 \<le> v then pc else pc\<lparr>pc_flags := 0\<rparr>)"

definition view_entry :: "int \<Rightarrow> substream_entry \<Rightarrow> substream_entry" where
  "view_entry v e =
     e\<lparr>se_topic_id := if SEGMENT_FORMAT_VERSION_V4 \<le> v then se_topic_id e else None,
       se_producers := if SEGMENT_FORMAT_VERSION_V2 \<le> v then map (view_coord v) (se_producers e) else []\<rparr>"

definition view_footer :: "int \<Rightarrow> segment_footer \<Rightarrow> segment_footer" where
  "view_footer v f =
     f\<lparr>sf_nonce := if SEGMENT_FORMAT_VERSION_V2 \<le> v then sf_nonce f else 0,
       sf_entries := map (view_entry v) (sf_entries f)\<rparr>"

text \<open>The values of the struct's field types, and the two counts that are stored in sixteen bits.\<close>

definition wf_coord :: "producer_coord \<Rightarrow> bool" where
  "wf_coord pc \<longleftrightarrow> fits_s 8 (pc_producer_id pc) \<and> fits_s 2 (pc_producer_epoch pc) \<and>
     fits_s 4 (pc_base_sequence pc) \<and> fits_s 4 (pc_last_sequence pc) \<and> fits_u 4 (pc_offset_delta pc)"

definition wf_topic :: "string \<Rightarrow> bool" where
  "wf_topic t \<longleftrightarrow> length t < 2 ^ 16 \<and> utf8_valid (bytes_of_str t)"

definition wf_topic_id :: "uuid option \<Rightarrow> bool" where
  "wf_topic_id i \<longleftrightarrow> (case i of None \<Rightarrow> True | Some u \<Rightarrow> length u = 16 \<and> u \<noteq> uuid_nil)"

definition wf_entry :: "substream_entry \<Rightarrow> bool" where
  "wf_entry e \<longleftrightarrow> wf_topic (se_topic e) \<and> wf_topic_id (se_topic_id e) \<and> fits_s 4 (se_partition e) \<and>
     fits_s 8 (se_base_offset e) \<and> fits_s 8 (se_record_count e) \<and> fits_u 8 (se_byte_start e) \<and>
     fits_u 8 (se_byte_len e) \<and> fits_s 8 (se_max_timestamp e) \<and>
     length (se_producers e) < 2 ^ 16 \<and> (\<forall>pc \<in> set (se_producers e). wf_coord pc)"

definition wf_footer :: "segment_footer \<Rightarrow> bool" where
  "wf_footer f \<longleftrightarrow> fits_s 8 (sf_writer_epoch f) \<and> fits_u 8 (sf_nonce f) \<and>
     length (sf_entries f) < 2 ^ 32 \<and> (\<forall>e \<in> set (sf_entries f). wf_entry e)"

section \<open>Footer round trip\<close>

lemma ftake_append [codec_simps]: "length h = n \<Longrightarrow> ftake n (h @ t) = Inr (h, t)"
  by (simp add: ftake_def)

lemma ftake_s_to_be [codec_simps]: "0 < n \<Longrightarrow> fits_s n v \<Longrightarrow> ftake_s n (to_be n v @ t) = Inr (v, t)"
  by (simp add: ftake_s_def ftake_append from_be_s_inverse)

lemma ftake_u_to_be [codec_simps]: "fits_u n v \<Longrightarrow> ftake_u n (to_be n v @ t) = Inr (v, t)"
  by (simp add: ftake_u_def ftake_append from_be_u_inverse)

lemma fits_u_len: "n < 2 ^ (8 * k) \<Longrightarrow> fits_u k (int n)"
  by (simp add: fits_u_def)

lemma coord_roundtrip:
  "wf_coord pc \<Longrightarrow> decode_coord v (encode_coord v pc @ rest) = Inr (view_coord v pc, rest)"
  by (simp add: wf_coord_def decode_coord_def encode_coord_def view_coord_def codec_simps ftake_def)

interpretation coord_codec: plain_codec "encode_coord v" wf_coord "decode_coord v" "view_coord v" for v
  by unfold_locales (rule coord_roundtrip)

definition encode_topic_id :: "int \<Rightarrow> uuid option \<Rightarrow> bytes" where
  "encode_topic_id v i = (if SEGMENT_FORMAT_VERSION_V4 \<le> v then (case i of Some u \<Rightarrow> u | None \<Rightarrow> uuid_nil) else [])"

lemma topic_id_roundtrip:
  assumes "wf_topic_id i"
  shows "(if SEGMENT_FORMAT_VERSION_V4 \<le> v
          then rbind (ftake 16 (encode_topic_id v i @ rest)) (\<lambda>(h, t). Inr (if h = uuid_nil then None else Some h, t))
          else Inr (None, encode_topic_id v i @ rest))
         = Inr (if SEGMENT_FORMAT_VERSION_V4 \<le> v then i else None, rest)"
  using assms
  by (auto simp: encode_topic_id_def wf_topic_id_def ftake_append uuid_nil_def split: option.splits)

lemma producers_roundtrip:
  assumes "length pcs < 2 ^ 16" and "\<forall>pc \<in> set pcs. wf_coord pc"
  shows "(if SEGMENT_FORMAT_VERSION_V2 \<le> v
          then rbind (ftake_u 2 ((if SEGMENT_FORMAT_VERSION_V2 \<le> v
                 then to_be 2 (int (length pcs)) @ concat (map (encode_coord v) pcs) else []) @ rest))
                 (\<lambda>(n, cursor). decode_many (decode_coord v) (nat n) cursor)
          else Inr ([], (if SEGMENT_FORMAT_VERSION_V2 \<le> v
                 then to_be 2 (int (length pcs)) @ concat (map (encode_coord v) pcs) else []) @ rest))
         = Inr (if SEGMENT_FORMAT_VERSION_V2 \<le> v then map (view_coord v) pcs else [], rest)"
  using assms by (simp add: codec_simps fits_u_len coord_codec.plain_many)

lemma entry_roundtrip:
  assumes "wf_entry e"
  shows "decode_entry v (encode_entry v e @ rest) = Inr (view_entry v e, rest)"
proof -
  have t: "fits_u 2 (int (length (se_topic e)))" "utf8_valid (bytes_of_str (se_topic e))"
    using assms by (simp_all add: wf_entry_def wf_topic_def fits_u_len)
  have i: "wf_topic_id (se_topic_id e)" and p: "length (se_producers e) < 2 ^ 16"
    "\<forall>pc \<in> set (se_producers e). wf_coord pc"
    using assms by (simp_all add: wf_entry_def)
  have f: "fits_s 4 (se_partition e)" "fits_s 8 (se_base_offset e)" "fits_s 8 (se_record_count e)"
    "fits_u 8 (se_byte_start e)" "fits_u 8 (se_byte_len e)" "fits_s 8 (se_max_timestamp e)"
    using assms by (simp_all add: wf_entry_def)
  show ?thesis
    unfolding decode_entry_def encode_entry_def encode_topic_id_def [symmetric]
    by (simp add: codec_simps t f topic_id_roundtrip [OF i] producers_roundtrip [OF p] view_entry_def
        del: if_split)
qed

interpretation entry_codec: plain_codec "encode_entry v" wf_entry "decode_entry v" "view_entry v" for v
  by unfold_locales (rule entry_roundtrip)

lemma footer_roundtrip:
  assumes "wf_footer f"
  shows "decode_footer (encode_footer f v) (length (sf_entries f)) v = Inr (view_footer v f)"
  using assms entry_codec.plain_many [of "sf_entries f" v "[]"]
  by (simp add: wf_footer_def decode_footer_def encode_footer_def view_footer_def codec_simps)

lemma slice_append [simp]:
  "slice 0 (length xs) (xs @ ys) = xs"
  "length xs \<le> a \<Longrightarrow> slice a b (xs @ ys) = slice (a - length xs) (b - length xs) ys"
  by (simp_all add: slice_def)

lemma slice_take: "a \<le> b \<Longrightarrow> b \<le> length xs \<Longrightarrow> slice a b (xs @ ys) = slice a b xs"
  by (simp add: slice_def)

lemma segment_tail_roundtrip:
  assumes wf: "wf_footer f" and len: "length (encode_footer f v) < 2 ^ 64" and v: "v \<in> {1, 2, 3, 4}"
  shows "decode_segment_footer (pre @ segment_tail f v) = Inr (Some (view_footer v f))"
proof -
  let ?fb = "encode_footer f v"
  let ?t = "to_be 8 (int (length ?fb)) @ to_be 4 (int (length (sf_entries f))) @ to_be 2 v @ to_be 4 SEGMENT_MAGIC"
  let ?all = "pre @ segment_tail f v"
  have all: "?all = (pre @ ?fb) @ ?t" by (simp add: segment_tail_def Let_def)
  have lt: "length ?t = 18" by simp
  have drop: "drop (length ?all - 18) ?all = ?t" unfolding all using lt by simp
  have fits: "fits_u 8 (int (length ?fb))" "fits_u 4 (int (length (sf_entries f)))" "fits_u 2 v"
    "fits_u 4 SEGMENT_MAGIC"
    using wf len v by (auto simp: wf_footer_def fits_u_def SEGMENT_MAGIC_def)
  have parts: "slice 0 8 ?t = to_be 8 (int (length ?fb))"
    "slice 8 12 ?t = to_be 4 (int (length (sf_entries f)))"
    "slice 12 14 ?t = to_be 2 v" "slice 14 18 ?t = to_be 4 SEGMENT_MAGIC"
    by (simp_all add: slice_def)
  have body: "slice (length ?all - 18 - length ?fb) (length ?all - 18) ?all = ?fb"
    unfolding all using lt by (simp add: slice_def)
  have ge: "\<not> length ?all < 18" "\<not> length ?all - 18 < length ?fb" unfolding all using lt by simp_all
  have ver: "\<not> (v \<noteq> 1 \<and> v \<noteq> 2 \<and> v \<noteq> 3 \<and> v \<noteq> 4)" using v by simp
  show ?thesis
    unfolding decode_segment_footer_def SEGMENT_TRAILER_LEN_def version_defs Let_def drop
      parts from_be_u_inverse [OF fits(1)] from_be_u_inverse [OF fits(2)] from_be_u_inverse [OF fits(3)]
      from_be_u_inverse [OF fits(4)] nat_int body
    using ge ver footer_roundtrip [OF wf] by simp
qed

section \<open>Segment round trip\<close>

definition region_bytes :: "batch list \<Rightarrow> bytes" where
  "region_bytes bs = concat (map Batch_to_bytes bs)"

definition offsets_of :: "batch list \<Rightarrow> int" where
  "offsets_of bs = sum_list (map (\<lambda>b. b_last_offset_delta b + 1) bs)"

text \<open>A batch the broker can hold: its fields in range, and in the v2 format.\<close>

definition wf_v2 :: "batch \<Rightarrow> bool" where
  "wf_v2 b \<longleftrightarrow> wf_batch b \<and> is_record_batch_v2 b"

lemma encode_region_ok:
  assumes "encode_region i bs acc = Inr acc'"
  shows "ra_body acc' = ra_body acc @ region_bytes bs"
    and "ra_record_count acc' = ra_record_count acc + offsets_of bs"
    and "\<forall>b \<in> set bs. declares_its_own_length b"
    and "length (ra_producers acc') \<le> length (ra_producers acc) + length bs"
  using assms
  by (induction i bs acc rule: encode_region.induct)
    (auto simp: region_bytes_def offsets_of_def coord_of_def split: if_splits)

lemma encode_region_max:
  assumes "encode_region i bs acc = Inr acc'"
  shows "ra_max_timestamp acc' = foldl (\<lambda>m b. max m (b_max_timestamp b)) (ra_max_timestamp acc) bs"
  using assms
  by (induction i bs acc rule: encode_region.induct) (auto split: if_splits)

lemma wrapping_add_i32_fits: "fits_s 4 (wrapping_add_i32 a b)"
proof -
  have "0 \<le> (a + b + 2 ^ 31) mod 2 ^ 32" "(a + b + 2 ^ 31) mod 2 ^ 32 < (2 ^ 32 :: int)" by simp_all
  then show ?thesis unfolding wrapping_add_i32_def fits_s_def by simp
qed

lemma coord_of_wf: "wf_batch b \<Longrightarrow> \<forall>pc \<in> set (coord_of n b). wf_coord pc"
  by (simp add: coord_of_def wf_coord_def wf_batch_def wrapping_add_i32_fits fits_u_def)

lemma max_fits: "fits_s n a \<Longrightarrow> fits_s n b \<Longrightarrow> fits_s n (max a b)"
  by (simp add: max_def)

lemma encode_region_wf:
  assumes "encode_region i bs acc = Inr acc'" and "\<forall>b \<in> set bs. wf_batch b"
    and "\<forall>pc \<in> set (ra_producers acc). wf_coord pc" and "fits_s 8 (ra_max_timestamp acc)"
  shows "(\<forall>pc \<in> set (ra_producers acc'). wf_coord pc) \<and> fits_s 8 (ra_max_timestamp acc')"
  using assms
proof (induction i bs acc rule: encode_region.induct)
  case (2 i b bs acc)
  have "fits_s 8 (max (ra_max_timestamp acc) (b_max_timestamp b))"
    using 2(3,5) by (intro max_fits) (simp_all add: wf_batch_def)
  moreover have "\<forall>pc \<in> set (ra_producers acc @ coord_of (ra_record_count acc) b). wf_coord pc"
    using 2(3,4) coord_of_wf by auto
  ultimately show ?case using 2(1,2,3) by (simp split: if_splits)
qed simp

lemma frame_step:
  assumes "wf_v2 b" and "declares_its_own_length b"
  shows "decode_frame_from at (Batch_to_bytes b @ rest)
           = rbind (decode_frame_from (at + wire_size b) rest) (\<lambda>(bs, t). Inr (b # bs, t))"
proof -
  let ?r = "Batch_to_bytes b @ rest"
  have len: "b_batch_length b = 49 + int (length (b_record_data b))"
    using assms(2) by (simp add: declares_length_iff FIXED_BATCH_LENGTH_def)
  have "slice 8 12 ?r = to_be 4 (b_batch_length b)"
    by (simp add: slice_def Batch_to_bytes_def)
  moreover have "from_be_s (to_be 4 (b_batch_length b)) = b_batch_length b"
    using assms(1) by (intro from_be_s_inverse) (simp_all add: wf_v2_def wf_batch_def)
  ultimately have d: "from_be_s (slice 8 12 ?r) = b_batch_length b" by simp
  have total: "12 + nat (b_batch_length b) = wire_size b"
    using len by (simp add: wire_size_def FIXED_BATCH_LENGTH_def)
  have lb: "length (Batch_to_bytes b) = wire_size b" by (rule Batch_to_bytes_length)
  have "12 \<le> wire_size b" by (simp add: wire_size_def)
  then have no: "\<not> length ?r < 12" "\<not> length ?r < wire_size b" "\<not> b_batch_length b < 0"
    using lb len by simp_all
  have "take (wire_size b) ?r = Batch_to_bytes b" "drop (wire_size b) ?r = rest"
    using lb by simp_all
  moreover have "Batch_try_from (Batch_to_bytes b) = Inr b"
    using Batch_roundtrip [of b "[]"] assms by (simp add: wf_v2_def)
  ultimately show ?thesis
    using no by (subst decode_frame_from.simps) (simp add: FRAME_PREFIX_def Let_def d total)
qed

lemma frame_roundtrip:
  assumes "\<forall>b \<in> set bs. wf_v2 b \<and> declares_its_own_length b"
  shows "decode_frame_from at (region_bytes bs) = Inr (bs, Exhausted)"
  using assms
proof (induction bs arbitrary: at)
  case Nil
  show ?case by (simp add: region_bytes_def decode_frame_from.simps FRAME_PREFIX_def)
next
  case (Cons b bs)
  then show ?case by (simp add: region_bytes_def frame_step)
qed

lemma region_roundtrip:
  assumes "\<forall>b \<in> set bs. wf_v2 b \<and> declares_its_own_length b"
    and "se_byte_len e \<le> int (length (region_bytes bs))"
  shows "decode_region e (region_bytes bs) = Inr bs"
  using assms by (simp add: decode_region_def decode_frame_def frame_roundtrip region_truncated_def)

text \<open>
  The entry written for one non-empty sub-stream whose region starts at byte \<open>start\<close>, and the bytes
  a reader of that entry gets from the payload.
\<close>

text \<open>
  The coordinates \<^const>\<open>encode_region\<close> writes for the batches of one region.
\<close>

fun region_coords :: "int \<Rightarrow> batch list \<Rightarrow> producer_coord list" where
  "region_coords n [] = []"
| "region_coords n (b # bs) = coord_of n b @ region_coords (n + (b_last_offset_delta b + 1)) bs"

lemma encode_region_coords:
  "encode_region i bs acc = Inr acc' \<Longrightarrow> ra_producers acc' = ra_producers acc @ region_coords (ra_record_count acc) bs"
  by (induction i bs acc rule: encode_region.induct) (auto split: if_splits)

definition entry_describes :: "bytes \<Rightarrow> substream_write \<Rightarrow> substream_entry \<Rightarrow> bool" where
  "entry_describes payload w e \<longleftrightarrow>
     se_topic e = tp_topic (sw_topition w) \<and> se_topic_id e = substream_id (sw_substream w) \<and>
     se_partition e = tp_partition (sw_topition w) \<and> se_base_offset e = sw_base_offset w \<and>
     se_record_count e = offsets_of (sw_batches w) \<and> se_producers e = region_coords 0 (sw_batches w) \<and>
     0 \<le> se_byte_start e \<and> se_byte_len e = int (length (region_bytes (sw_batches w))) \<and>
     slice (nat (se_byte_start e)) (nat (se_byte_start e + se_byte_len e)) payload
       = region_bytes (sw_batches w)"

lemma entry_describes_append:
  "entry_describes payload w e \<Longrightarrow> se_byte_start e + se_byte_len e \<le> int (length payload) \<Longrightarrow>
   entry_describes (payload @ extra) w e"
  by (auto simp: entry_describes_def slice_take)

definition nonempty_writes :: "substream_write list \<Rightarrow> substream_write list" where
  "nonempty_writes = filter (\<lambda>w. sw_batches w \<noteq> [])"

definition region_within :: "bytes \<Rightarrow> substream_entry \<Rightarrow> bool" where
  "region_within payload e \<longleftrightarrow> se_byte_start e + se_byte_len e \<le> int (length payload)"

lemma encode_substreams_step:
  assumes "encode_substreams v (w # ws) body entries = Inr (body', entries')" and "sw_batches w \<noteq> []"
  obtains acc where "\<not> (v < SEGMENT_FORMAT_VERSION_V4 \<and> substream_id (sw_substream w) \<noteq> None)"
    and "encode_region 0 (sw_batches w) (region_acc0 body) = Inr acc"
    and "encode_substreams v ws (ra_body acc) (entries @ [entry_written w body acc]) = Inr (body', entries')"
  using assms by (auto simp: rbind_Inr_iff split: if_splits)

lemma encode_substreams_extends:
  "encode_substreams v ws body entries = Inr (body', entries') \<Longrightarrow> \<exists>extra. body' = body @ extra"
proof (induction ws arbitrary: body entries)
  case (Cons w ws)
  show ?case
  proof (cases "sw_batches w = []")
    case False
    from encode_substreams_step [OF Cons.prems False] obtain acc where
      acc: "encode_region 0 (sw_batches w) (region_acc0 body) = Inr acc"
      and rest: "encode_substreams v ws (ra_body acc) (entries @ [entry_written w body acc]) = Inr (body', entries')" .
    from Cons.IH [OF rest] encode_region_ok(1) [OF acc] show ?thesis by (auto simp: region_acc0_def)
  qed (use Cons in simp)
qed simp

lemma encode_substreams_ok:
  assumes "encode_substreams v ws body entries = Inr (body', entries')"
    and "list_all2 (\<lambda>w e. entry_describes body w e \<and> region_within body e) done entries"
  shows "list_all2 (\<lambda>w e. entry_describes body' w e \<and> region_within body' e)
           (done @ nonempty_writes ws) entries'"
  using assms
proof (induction ws arbitrary: body entries "done")
  case (Cons w ws)
  show ?case
  proof (cases "sw_batches w = []")
    case True
    then show ?thesis using Cons by (simp add: nonempty_writes_def)
  next
    case False
    from encode_substreams_step [OF Cons.prems(1) False] obtain acc where
      acc: "encode_region 0 (sw_batches w) (region_acc0 body) = Inr acc"
      and rest: "encode_substreams v ws (ra_body acc) (entries @ [entry_written w body acc]) = Inr (body', entries')" .
    note ok = encode_region_ok [OF acc, unfolded region_acc0_def, simplified]
    have e: "entry_describes (ra_body acc) w (entry_written w body acc) \<and> region_within (ra_body acc) (entry_written w body acc)"
      using ok(1,2) encode_region_coords [OF acc]
      by (simp add: entry_describes_def entry_written_def region_within_def slice_def nat_add_distrib region_acc0_def)
    have old: "list_all2 (\<lambda>w e. entry_describes (ra_body acc) w e \<and> region_within (ra_body acc) e) done entries"
      using Cons.prems(2)
      by (rule list_all2_mono) (auto simp: ok(1) region_within_def intro: entry_describes_append)
    have "list_all2 (\<lambda>w e. entry_describes (ra_body acc) w e \<and> region_within (ra_body acc) e)
            (done @ [w]) (entries @ [entry_written w body acc])"
      using old e by (simp add: list_all2_appendI)
    from Cons.IH [OF rest this] show ?thesis using False by (simp add: nonempty_writes_def)
  qed
qed (simp add: nonempty_writes_def)

lemma encode_substreams_checks:
  assumes "encode_substreams v ws body entries = Inr (body', entries')"
  shows "\<forall>w \<in> set (nonempty_writes ws). (\<forall>b \<in> set (sw_batches w). declares_its_own_length b) \<and>
           (v < SEGMENT_FORMAT_VERSION_V4 \<longrightarrow> substream_id (sw_substream w) = None)"
  using assms
proof (induction ws arbitrary: body entries)
  case (Cons w ws)
  show ?case
  proof (cases "sw_batches w = []")
    case False
    from encode_substreams_step [OF Cons.prems False] obtain acc where
      ids: "\<not> (v < SEGMENT_FORMAT_VERSION_V4 \<and> substream_id (sw_substream w) \<noteq> None)"
      and acc: "encode_region 0 (sw_batches w) (region_acc0 body) = Inr acc"
      and rest: "encode_substreams v ws (ra_body acc) (entries @ [entry_written w body acc]) = Inr (body', entries')" .
    from Cons.IH [OF rest] ids encode_region_ok(3) [OF acc] False show ?thesis
      by (simp add: nonempty_writes_def)
  qed (use Cons in \<open>simp add: nonempty_writes_def\<close>)
qed (simp add: nonempty_writes_def)

definition wf_write :: "substream_write \<Rightarrow> bool" where
  "wf_write w \<longleftrightarrow>
     wf_topic (tp_topic (sw_topition w)) \<and> wf_topic_id (substream_id (sw_substream w)) \<and>
     fits_s 4 (tp_partition (sw_topition w)) \<and> fits_s 8 (sw_base_offset w) \<and>
     length (sw_batches w) < 2 ^ 16 \<and> (\<forall>b \<in> set (sw_batches w). wf_v2 b)"

lemma offsets_of_bound:
  "\<forall>b \<in> set bs. wf_batch b \<Longrightarrow> \<bar>offsets_of bs\<bar> \<le> 2 ^ 31 * int (length bs)"
proof (induction bs)
  case (Cons b bs)
  then have "\<bar>b_last_offset_delta b + 1\<bar> \<le> 2 ^ 31" by (auto simp: wf_batch_def fits_s_def)
  with Cons show ?case by (simp add: offsets_of_def algebra_simps)
qed (simp add: offsets_of_def)

lemma offsets_of_fits:
  assumes "\<forall>b \<in> set bs. wf_batch b" and "length bs < 2 ^ 16"
  shows "fits_s 8 (offsets_of bs)"
proof -
  have "\<bar>offsets_of bs\<bar> \<le> 2 ^ 31 * int (length bs)" using assms(1) by (rule offsets_of_bound)
  also have "\<dots> \<le> 2 ^ 31 * 2 ^ 16" using assms(2) by simp
  finally show ?thesis by (simp add: fits_s_def abs_le_iff)
qed

lemma entry_written_wf:
  assumes w: "wf_write w" and acc: "encode_region 0 (sw_batches w) (region_acc0 body) = Inr acc"
    and len: "length (ra_body acc) < 2 ^ 64"
  shows "wf_entry (entry_written w body acc)"
proof -
  note ok = encode_region_ok [OF acc, unfolded region_acc0_def, simplified]
  have wb: "\<forall>b \<in> set (sw_batches w). wf_batch b" using w by (simp add: wf_write_def wf_v2_def)
  have "(\<forall>pc \<in> set (ra_producers acc). wf_coord pc) \<and> fits_s 8 (ra_max_timestamp acc)"
    using encode_region_wf [OF acc wb] by (simp add: region_acc0_def fits_s_def)
  moreover have "fits_u 8 (int (length body))" "fits_u 8 (int (length (ra_body acc)) - int (length body))"
    using ok(1) len by (simp_all add: fits_u_def)
  moreover have "fits_s 8 (ra_record_count acc)"
    using ok(2) offsets_of_fits [OF wb] w by (simp add: wf_write_def)
  moreover have "length (ra_producers acc) < 2 ^ 16"
    using ok(4) w by (simp add: wf_write_def)
  ultimately show ?thesis using w by (simp add: entry_written_def wf_entry_def wf_write_def)
qed

lemma encode_substreams_wf:
  assumes "encode_substreams v ws body entries = Inr (body', entries')"
    and "\<forall>w \<in> set ws. wf_write w" and "\<forall>e \<in> set entries. wf_entry e" and "length body' < 2 ^ 64"
  shows "\<forall>e \<in> set entries'. wf_entry e"
  using assms
proof (induction ws arbitrary: body entries)
  case (Cons w ws)
  show ?case
  proof (cases "sw_batches w = []")
    case True
    with Cons show ?thesis by simp
  next
    case False
    from encode_substreams_step [OF Cons.prems(1) False] obtain acc where
      acc: "encode_region 0 (sw_batches w) (region_acc0 body) = Inr acc"
      and rest: "encode_substreams v ws (ra_body acc) (entries @ [entry_written w body acc]) = Inr (body', entries')" .
    have "length (ra_body acc) < 2 ^ 64"
      using encode_substreams_extends [OF rest] Cons.prems(4) by auto
    then have "wf_entry (entry_written w body acc)"
      using Cons.prems(2) by (intro entry_written_wf [OF _ acc]) simp_all
    then show ?thesis using Cons.prems by (intro Cons.IH [OF rest]) auto
  qed
qed simp

text \<open>What a reader of a footer entry gets from the object: the byte range the entry names.\<close>

definition region_slice :: "bytes \<Rightarrow> substream_entry \<Rightarrow> bytes" where
  "region_slice payload e = slice (nat (se_byte_start e)) (nat (se_byte_start e + se_byte_len e)) payload"

lemma segment_regions:
  assumes enc: "encode_segment_indexed ws epoch nonce v = Inr (payload, footer)"
    and wf: "\<forall>w \<in> set ws. wf_write w"
  shows "list_all2 (\<lambda>w e. decode_region e (region_slice payload e) = Inr (sw_batches w)
                          \<and> entry_end e = sw_base_offset w + offsets_of (sw_batches w))
           (nonempty_writes ws) (sf_entries footer)"
proof -
  from enc obtain body where body: "encode_substreams v ws [] [] = Inr (body, sf_entries footer)"
    and pay: "payload = body @ segment_tail footer v"
    by (auto simp: encode_segment_indexed_def Let_def rbind_Inr_iff)
  have l: "list_all2 (\<lambda>w e. entry_describes body w e \<and> region_within body e)
             (nonempty_writes ws) (sf_entries footer)"
    using encode_substreams_ok [OF body, of "[]"] by simp
  have checks: "\<forall>w \<in> set (nonempty_writes ws). \<forall>b \<in> set (sw_batches w). wf_v2 b \<and> declares_its_own_length b"
    using encode_substreams_checks [OF body] wf by (auto simp: wf_write_def nonempty_writes_def)
  show ?thesis
  proof (rule list.rel_mono_strong [OF l])
    fix w e assume w: "w \<in> set (nonempty_writes ws)" and "entry_describes body w e \<and> region_within body e"
    then have d: "entry_describes payload w e"
      by (simp add: pay region_within_def entry_describes_append)
    then have "region_slice payload e = region_bytes (sw_batches w)"
      and "se_byte_len e \<le> int (length (region_bytes (sw_batches w)))"
      unfolding region_slice_def entry_describes_def by auto
    then have "decode_region e (region_slice payload e) = Inr (sw_batches w)"
      using checks w by (simp add: region_roundtrip)
    with d show "decode_region e (region_slice payload e) = Inr (sw_batches w)
                 \<and> entry_end e = sw_base_offset w + offsets_of (sw_batches w)"
      by (simp add: entry_end_def entry_describes_def)
  qed
qed

lemma segment_footer_roundtrip:
  assumes enc: "encode_segment_indexed ws epoch nonce v = Inr (payload, footer)"
    and wf: "\<forall>w \<in> set ws. wf_write w" and v: "v \<in> {3, 4}" and epoch: "fits_s 8 epoch" and nonce: "fits_u 8 nonce"
    and size: "length payload < 2 ^ 64" "length ws < 2 ^ 32"
  shows "decode_segment_footer payload = Inr (Some footer)"
proof -
  from enc obtain body where body: "encode_substreams v ws [] [] = Inr (body, sf_entries footer)"
    and pay: "payload = body @ segment_tail footer v"
    and f: "sf_writer_epoch footer = epoch" "sf_nonce footer = nonce"
    by (auto simp: encode_segment_indexed_def Let_def rbind_Inr_iff)
  have l: "list_all2 (\<lambda>w e. entry_describes body w e \<and> region_within body e)
             (nonempty_writes ws) (sf_entries footer)"
    using encode_substreams_ok [OF body, of "[]"] by simp
  have "length (sf_entries footer) = length (nonempty_writes ws)"
    using l by (simp add: list_all2_lengthD)
  then have n: "length (sf_entries footer) < 2 ^ 32"
    using le_less_trans [OF length_filter_le size(2)] by (simp add: nonempty_writes_def)
  have wfe: "\<forall>e \<in> set (sf_entries footer). wf_entry e"
    using size(1) by (intro encode_substreams_wf [OF body wf]) (simp_all add: pay)
  have "v < 4 \<Longrightarrow> se_topic_id e = None" if "e \<in> set (sf_entries footer)" for e
    using that l encode_substreams_checks [OF body]
    by (force simp: list_all2_conv_all_nth in_set_conv_nth entry_describes_def version_defs)
  then have "\<forall>e \<in> set (sf_entries footer). view_entry v e = e"
    using v by (auto simp: view_entry_def view_coord_def [abs_def] version_defs)
  then have view: "view_footer v footer = footer"
    using v by (auto simp: view_footer_def version_defs map_idI)
  have "wf_footer footer" using f epoch nonce n wfe by (simp add: wf_footer_def)
  moreover have "length (encode_footer footer v) < 2 ^ 64"
    using size(1) by (simp add: pay segment_tail_def Let_def)
  ultimately show ?thesis
    unfolding pay using v segment_tail_roundtrip [of footer v body] view by auto
qed

section \<open>Properties\<close>

text \<open>
  C30. A footer encoded in any of the four layouts, behind any object body, is found and decoded from the
  object's tail as that footer without the fields the layout does not carry: the nonce and the
  producer coordinates from version 2, the coordinate flags from version 3, the topic id from
  version 4.
\<close>

theorem footer_layouts_roundtrip:
  assumes "wf_footer f" and "length (encode_footer f v) < 2 ^ 64" and "v \<in> {1, 2, 3, 4}"
  shows "decode_segment_footer (body @ segment_tail f v) = Inr (Some (view_footer v f))"
  using assms by (rule segment_tail_roundtrip)

definition sample_footer :: segment_footer where
  "sample_footer =
     \<lparr>sf_writer_epoch = 3, sf_nonce = 99,
      sf_entries = [\<lparr>se_topic = ''orders'', se_topic_id = None, se_partition = 2, se_base_offset = 10,
                     se_record_count = 4, se_byte_start = 0, se_byte_len = 64, se_max_timestamp = 5,
                     se_producers = [\<lparr>pc_producer_id = 7, pc_producer_epoch = 1, pc_base_sequence = 0,
                                      pc_last_sequence = 3, pc_offset_delta = 0, pc_flags = 1\<rparr>]\<rparr>]\<rparr>"

theorem footer_layouts_roundtrip_witness:
  "decode_segment_footer ([1, 2, 3] @ segment_tail sample_footer 2) = Inr (Some (view_footer 2 sample_footer))"
proof (rule footer_layouts_roundtrip)
  show "wf_footer sample_footer"
    by (simp add: sample_footer_def wf_footer_def wf_entry_def wf_topic_def bytes_of_str_def wf_topic_id_def
        wf_coord_def fits_s_def fits_u_def)
  show "length (encode_footer sample_footer 2) < 2 ^ 64"
    by (simp add: sample_footer_def encode_footer_def encode_entry_def encode_coord_def version_defs)
qed simp

text \<open>
  C3. A segment encoded from sub-streams reads back whole: the trailer yields exactly the footer the
  writer keeps in its index, and every footer entry, in order, names a byte range of the object
  that decodes to exactly the batches of its sub-stream and ends at the offset that follows them.
\<close>

theorem segment_roundtrip:
  assumes "encode_segment_indexed ws epoch nonce v = Inr (payload, footer)"
    and "\<forall>w \<in> set ws. wf_write w" and "v \<in> {3, 4}" and "fits_s 8 epoch" and "fits_u 8 nonce"
    and "length payload < 2 ^ 64" and "length ws < 2 ^ 32"
  shows "decode_segment_footer payload = Inr (Some footer) \<and>
         list_all2 (\<lambda>w e. decode_region e (region_slice payload e) = Inr (sw_batches w)
                          \<and> entry_end e = sw_base_offset w + offsets_of (sw_batches w))
           (nonempty_writes ws) (sf_entries footer)"
  using segment_footer_roundtrip [OF assms] segment_regions [OF assms(1,2)] by blast

definition sample_write :: substream_write where
  "sample_write =
     \<lparr>sw_topition = \<lparr>tp_topic = ''t'', tp_partition = 0\<rparr>, sw_substream = SName ''t'', sw_base_offset = 10,
      sw_batches = [sample_batch, sample_batch]\<rparr>"

lemma sample_write_wf: "wf_write sample_write"
  by (simp add: wf_write_def sample_write_def wf_topic_def bytes_of_str_def wf_topic_id_def wf_v2_def
      sample_batch_ok fits_s_def)

lemma sample_segment_encodes:
  "\<exists>payload footer. encode_segment_indexed [sample_write] 1 77 3 = Inr (payload, footer) \<and> length payload < 2 ^ 64"
  by (simp add: encode_segment_indexed_def sample_write_def version_defs sample_batch_ok Let_def
      region_acc0_def segment_tail_def encode_footer_def entry_written_def encode_entry_def encode_coord_def)
    (simp add: sample_batch_def Batch_to_bytes_def coord_of_def is_idempotent_def encode_coord_def version_defs)

theorem segment_roundtrip_witness:
  "\<exists>payload footer. encode_segment_indexed [sample_write] 1 77 3 = Inr (payload, footer) \<and>
     decode_segment_footer payload = Inr (Some footer)"
proof -
  obtain payload footer where e: "encode_segment_indexed [sample_write] 1 77 3 = Inr (payload, footer)"
    and l: "length payload < 2 ^ 64" using sample_segment_encodes by blast
  have "decode_segment_footer payload = Inr (Some footer)"
    using segment_roundtrip [OF e _ _ _ _ l] sample_write_wf by (simp add: fits_s_def fits_u_def)
  with e show ?thesis by blast
qed

text \<open>
  C34. A region is never served in part: a read that returns fewer bytes than its footer entry claims is
  refused, and so is a region that arrived whole but holds no complete batch.
\<close>

theorem short_or_empty_region_refused:
  "(int (length encoded) < se_byte_len e \<longrightarrow> \<not> is_ok (decode_region e encoded)) \<and>
   (encoded \<noteq> [] \<and> length encoded < FRAME_PREFIX \<longrightarrow> \<not> is_ok (decode_region e encoded)) \<and>
   (decode_region e encoded = Inr [] \<longrightarrow> encoded = [])"
proof -
  have tail: "decode_frame_from at bs = Inr ([], Exhausted) \<Longrightarrow> bs = []" for at bs
    by (subst (asm) decode_frame_from.simps) (auto simp: Let_def result_simps split: if_splits)
  have short: "bs \<noteq> [] \<Longrightarrow> length bs < FRAME_PREFIX \<Longrightarrow> decode_frame_from at bs = Inr ([], FShort at (length bs))" for at bs
    by (subst decode_frame_from.simps) simp
  show ?thesis
    using tail [of 0 encoded] short [of encoded 0]
    by (auto simp: decode_region_def decode_frame_def region_truncated_def split: sum.splits if_splits)
qed

theorem short_or_empty_region_refused_witness:
  "\<not> is_ok (decode_region (hd (sf_entries sample_footer)) [1, 2, 3])"
  using short_or_empty_region_refused [of "[1, 2, 3]" "hd (sf_entries sample_footer)"]
  by (simp add: sample_footer_def)

end
