(* ===== verification/ProducerTail.thy ===== *)
theory ProducerTail
  imports SegmentFormat
begin

unbundle bit_operations_syntax

text \<open>
  Log-based idempotent produce: the per-producer tail folded from the producer coordinates of the
  segment footers and its classification (\<open>ProducerTail\<close>, \<open>dynostore/codec.rs\<close>), the pruning of the
  coordinates that a resident index entry keeps (\<open>retain_foldable_producers\<close>), and the loop of the
  leaseless flush that classifies and places the pending batches of one topition
  (\<open>flush_prefix_coalesced_leaseless\<close>, \<open>dynostore/coalesce.rs\<close>).
\<close>

section \<open>The tail\<close>

definition IDEMPOTENT_WINDOW :: nat where "IDEMPOTENT_WINDOW = 5"

record producer_tail =
  pt_epoch :: int
  pt_seen :: bool
  pt_next_sequence :: int
  pt_window :: "(int \<times> int) list"

definition ProducerTail_default :: producer_tail where
  "ProducerTail_default = \<lparr>pt_epoch = 0, pt_seen = False, pt_next_sequence = 0, pt_window = []\<rparr>"

datatype idempotent_class = Admit | Duplicate int | OutOfOrder | Fenced

definition seq_increment :: "int \<Rightarrow> int" where
  "seq_increment sequence = (if sequence = 2 ^ 31 - 1 then 0 else sequence + 1)"

definition expected :: "producer_tail \<Rightarrow> int" where
  "expected t = (if pt_seen t then pt_next_sequence t else 0)"

definition pt_fold :: "int \<Rightarrow> int \<Rightarrow> int \<Rightarrow> int \<Rightarrow> producer_tail \<Rightarrow> producer_tail" where
  "pt_fold epoch base_sequence last_sequence base_offset t =
     (if epoch < pt_epoch t then t
      else
        let window = (if pt_epoch t < epoch then [] else pt_window t);
            window = (if length window = IDEMPOTENT_WINDOW then tl window else window)
        in \<lparr>pt_epoch = epoch, pt_seen = True, pt_next_sequence = seq_increment last_sequence,
            pt_window = window @ [(base_sequence, base_offset)]\<rparr>)"

definition classify :: "producer_tail \<Rightarrow> int \<Rightarrow> int \<Rightarrow> idempotent_class" where
  "classify t epoch base_sequence =
     (if epoch < pt_epoch t then Fenced
      else
        let fresh_epoch = pt_epoch t < epoch;
            exp = (if fresh_epoch then 0 else expected t)
        in if base_sequence = exp then Admit
           else if fresh_epoch then OutOfOrder
           else case find (\<lambda>(seq, _). seq = base_sequence) (pt_window t) of
                  Some (_, offset) \<Rightarrow> Duplicate offset
                | None \<Rightarrow> OutOfOrder)"

definition folds :: "producer_coord \<Rightarrow> bool" where
  "folds pc \<longleftrightarrow> pc_flags pc AND FLAG_CONTROL = 0 \<and> pc_base_sequence pc \<noteq> - 1"

definition fold_coord :: "int \<Rightarrow> int \<Rightarrow> producer_coord \<Rightarrow> producer_tail \<Rightarrow> producer_tail" where
  "fold_coord producer_id base pc t =
     (if \<not> folds pc then t
      else if pc_producer_id pc = producer_id
      then pt_fold (pc_producer_epoch pc) (pc_base_sequence pc) (pc_last_sequence pc)
             (base + pc_offset_delta pc) t
      else t)"

definition fold_entry :: "int \<Rightarrow> substream_entry \<Rightarrow> producer_tail \<Rightarrow> producer_tail" where
  "fold_entry producer_id e t = fold (fold_coord producer_id (se_base_offset e)) (se_producers e) t"

definition producer_tail_folded :: "substream_entry list \<Rightarrow> int \<Rightarrow> producer_tail" where
  "producer_tail_folded fenced producer_id = fold (fold_entry producer_id) fenced ProducerTail_default"

section \<open>Pruning a resident entry\<close>

fun top_update :: "int \<Rightarrow> int \<Rightarrow> (int \<times> int) list \<Rightarrow> (int \<times> int) list" where
  "top_update pid epoch [] = [(pid, epoch)]"
| "top_update pid epoch ((i, e) # tops) =
     (if i = pid then (i, max e epoch) # tops else (i, e) # top_update pid epoch tops)"

definition top_epochs :: "producer_coord list \<Rightarrow> (int \<times> int) list" where
  "top_epochs pcs =
     fold (\<lambda>pc. top_update (pc_producer_id pc) (pc_producer_epoch pc)) (filter folds pcs) []"

fun taken_update :: "int \<Rightarrow> (int \<times> nat) list \<Rightarrow> (int \<times> nat) list" where
  "taken_update pid [] = [(pid, 1)]"
| "taken_update pid ((i, n) # taken) =
     (if i = pid then (i, n + 1) # taken else (i, n) # taken_update pid taken)"

definition retain_step ::
    "(int \<times> int) list \<Rightarrow> producer_coord \<Rightarrow> producer_coord list \<times> (int \<times> nat) list
     \<Rightarrow> producer_coord list \<times> (int \<times> nat) list" where
  "retain_step tops pc = (\<lambda>(kept, taken).
     if \<not> folds pc \<or> (case map_of tops (pc_producer_id pc) of
                        None \<Rightarrow> True | Some epoch \<Rightarrow> epoch \<noteq> pc_producer_epoch pc)
     then (kept, taken)
     else if map_of taken (pc_producer_id pc) = Some IDEMPOTENT_WINDOW then (kept, taken)
     else (kept @ [pc], taken_update (pc_producer_id pc) taken))"

definition retained_producers :: "producer_coord list \<Rightarrow> producer_coord list" where
  "retained_producers pcs =
     (if pcs = [] then []
      else rev (fst (fold (retain_step (top_epochs pcs)) (rev pcs) ([], []))))"

definition retain_foldable_producers :: "substream_entry \<Rightarrow> substream_entry" where
  "retain_foldable_producers e = e\<lparr>se_producers := retained_producers (se_producers e)\<rparr>"

section \<open>Placing the pending batches of one topition\<close>

datatype produce_outcome = Acked int | OutOfOrderSequenceNumber | ProducerFenced

record plan_state =
  ps_tails :: "int \<rightharpoonup> producer_tail"
  ps_running :: int
  ps_batches :: "batch list"
  ps_outcomes :: "produce_outcome list"

definition working_tail :: "(int \<Rightarrow> producer_tail) \<Rightarrow> plan_state \<Rightarrow> int \<Rightarrow> producer_tail" where
  "working_tail folded s pid = (case ps_tails s pid of Some t \<Rightarrow> t | None \<Rightarrow> folded pid)"

definition plan_step :: "(int \<Rightarrow> producer_tail) \<Rightarrow> batch \<Rightarrow> plan_state \<Rightarrow> plan_state" where
  "plan_step folded b s =
     (let records = b_last_offset_delta b + 1;
          running = ps_running s
      in if is_idempotent b then
           let pid = b_producer_id b;
               tail = working_tail folded s pid;
               s = s\<lparr>ps_tails := (ps_tails s)(pid \<mapsto> tail)\<rparr>
           in case classify tail (b_producer_epoch b) (b_base_sequence b) of
                Admit \<Rightarrow>
                  let last_seq = wrapping_add_i32 (b_base_sequence b) (b_last_offset_delta b)
                  in s\<lparr>ps_outcomes := ps_outcomes s @ [Acked running],
                       ps_tails := (ps_tails s)(pid \<mapsto>
                         pt_fold (b_producer_epoch b) (b_base_sequence b) last_seq running tail),
                       ps_running := running + records,
                       ps_batches := ps_batches s @ [b]\<rparr>
              | Duplicate offset \<Rightarrow> s\<lparr>ps_outcomes := ps_outcomes s @ [Acked offset]\<rparr>
              | OutOfOrder \<Rightarrow> s\<lparr>ps_outcomes := ps_outcomes s @ [OutOfOrderSequenceNumber]\<rparr>
              | Fenced \<Rightarrow> s\<lparr>ps_outcomes := ps_outcomes s @ [ProducerFenced]\<rparr>
         else
           s\<lparr>ps_outcomes := ps_outcomes s @ [Acked running],
             ps_running := running + records,
             ps_batches := ps_batches s @ [b]\<rparr>)"

definition plan_topition :: "(int \<Rightarrow> producer_tail) \<Rightarrow> int \<Rightarrow> batch list \<Rightarrow> plan_state" where
  "plan_topition folded base pending =
     fold (plan_step folded) pending
       \<lparr>ps_tails = Map.empty, ps_running = base, ps_batches = [], ps_outcomes = []\<rparr>"

section \<open>The fold is determined by the last window of its highest epoch\<close>

definition last_n :: "nat \<Rightarrow> 'a list \<Rightarrow> 'a list" where
  "last_n n xs = drop (length xs - n) xs"

lemma last_n_snoc: "last_n (Suc n) (xs @ [x]) = last_n n xs @ [x]"
  by (simp add: last_n_def)

lemma last_n_all: "length xs \<le> n \<Longrightarrow> last_n n xs = xs"
  by (simp add: last_n_def)

lemma length_last_n: "length (last_n n xs) = min n (length xs)"
  by (simp add: last_n_def)

lemma last_n_append: "last_n n (xs @ last_n n ys) = last_n n (xs @ ys)"
  by (cases "length ys \<le> n") (auto simp: last_n_def)

lemma last_n_map: "last_n n (map f xs) = map f (last_n n xs)"
  by (simp add: last_n_def drop_map)

lemma last_n_snoc_last_n: "last_n n (last_n n xs @ [x]) = last_n n (xs @ [x])"
  by (cases "length xs \<le> n"; cases n) (auto simp: last_n_def add.commute Suc_diff_Suc not_le)

lemma push_window:
  assumes "length w \<le> n" and "0 < n"
  shows "(if length w = n then tl w else w) @ [x] = last_n n (w @ [x])"
  using assms by (cases w) (auto simp: last_n_def)

lemma pt_fold_alt:
  assumes "length (pt_window t) \<le> 5"
  shows "pt_fold epoch bs ls off t =
     (if epoch < pt_epoch t then t
      else \<lparr>pt_epoch = epoch, pt_seen = True, pt_next_sequence = seq_increment ls,
             pt_window = last_n 5 ((if pt_epoch t < epoch then [] else pt_window t) @ [(bs, off)])\<rparr>)"
  using push_window [of "if pt_epoch t < epoch then [] else pt_window t" 5 "(bs, off)"] assms
  by (simp only: pt_fold_def Let_def IDEMPOTENT_WINDOW_def) (simp split: if_splits)

abbreviation coord_slot :: "int \<Rightarrow> producer_coord \<Rightarrow> int \<times> int" where
  "coord_slot base pc \<equiv> (pc_base_sequence pc, base + pc_offset_delta pc)"

definition fold_own :: "int \<Rightarrow> producer_coord list \<Rightarrow> producer_tail \<Rightarrow> producer_tail" where
  "fold_own base = fold (\<lambda>pc. pt_fold (pc_producer_epoch pc) (pc_base_sequence pc) (pc_last_sequence pc)
                                (base + pc_offset_delta pc))"

definition own_coords :: "int \<Rightarrow> producer_coord list \<Rightarrow> producer_coord list" where
  "own_coords pid = filter (\<lambda>pc. folds pc \<and> pc_producer_id pc = pid)"

lemma fold_entry_own: "fold_entry pid e t = fold_own (se_base_offset e) (own_coords pid (se_producers e)) t"
proof -
  have "fold (fold_coord pid b) pcs t = fold_own b (own_coords pid pcs) t" for b pcs
    by (induction pcs arbitrary: t) (auto simp: fold_coord_def fold_own_def own_coords_def)
  then show ?thesis by (simp add: fold_entry_def)
qed

definition max_epoch :: "producer_coord list \<Rightarrow> int" where
  "max_epoch cs = Max (pc_producer_epoch ` set cs)"

definition at_max_epoch :: "producer_coord list \<Rightarrow> producer_coord list" where
  "at_max_epoch cs = filter (\<lambda>pc. pc_producer_epoch pc = max_epoch cs) cs"

lemma max_epoch_snoc: "cs \<noteq> [] \<Longrightarrow> max_epoch (cs @ [c]) = max (max_epoch cs) (pc_producer_epoch c)"
  by (simp add: max_epoch_def max.commute)

lemma epoch_le_max: "c \<in> set cs \<Longrightarrow> pc_producer_epoch c \<le> max_epoch cs"
  by (simp add: max_epoch_def)

lemma at_max_epoch_snoc:
  assumes "cs \<noteq> []"
  shows "at_max_epoch (cs @ [c]) =
     (if pc_producer_epoch c < max_epoch cs then at_max_epoch cs
      else if pc_producer_epoch c = max_epoch cs then at_max_epoch cs @ [c] else [c])"
proof -
  have "max_epoch cs < e \<Longrightarrow> filter (\<lambda>x. pc_producer_epoch x = e) cs = []" for e
    using epoch_le_max by (fastforce simp: filter_empty_conv)
  then show ?thesis using assms
    by (auto simp: at_max_epoch_def max_epoch_snoc max_def not_less)
qed

lemma fold_own_char:
  assumes "length (pt_window t) \<le> 5"
  shows "fold_own base cs t =
     (if cs = [] \<or> max_epoch cs < pt_epoch t then t
      else \<lparr>pt_epoch = max_epoch cs, pt_seen = True,
             pt_next_sequence = seq_increment (pc_last_sequence (last (at_max_epoch cs))),
             pt_window = last_n 5 ((if pt_epoch t < max_epoch cs then [] else pt_window t)
                                    @ map (coord_slot base) (at_max_epoch cs))\<rparr>)"
proof (induction cs rule: rev_induct)
  case Nil
  show ?case by (simp add: fold_own_def)
next
  case (snoc c cs)
  have step: "fold_own base (cs @ [c]) t = pt_fold (pc_producer_epoch c) (pc_base_sequence c)
      (pc_last_sequence c) (base + pc_offset_delta c) (fold_own base cs t)"
    by (simp add: fold_own_def)
  show ?case
  proof (cases "cs = []")
    case True
    then show ?thesis using assms
      by (simp add: fold_own_def pt_fold_alt at_max_epoch_def max_epoch_def)
  next
    case False
    have w: "length (pt_window (fold_own base cs t)) \<le> 5"
      unfolding snoc.IH using assms by (simp add: length_last_n)
    show ?thesis
      unfolding step pt_fold_alt [OF w] unfolding snoc.IH max_epoch_snoc [OF False] at_max_epoch_snoc [OF False]
      using False by (auto simp: max_def last_n_snoc_last_n simp flip: append_assoc)
  qed
qed

lemma fold_own_pruned:
  assumes "length (pt_window t) \<le> 5"
  shows "fold_own base (last_n 5 (at_max_epoch cs)) t = fold_own base cs t"
proof (cases "cs = []")
  case True
  then show ?thesis by (simp add: at_max_epoch_def last_n_def)
next
  case False
  let ?p = "last_n 5 (at_max_epoch cs)"
  have "max_epoch cs \<in> pc_producer_epoch ` set cs"
    unfolding max_epoch_def using False by (intro Max_in) auto
  then have ne: "at_max_epoch cs \<noteq> []" by (auto simp: at_max_epoch_def filter_empty_conv)
  then have pne: "?p \<noteq> []" by (cases "at_max_epoch cs") (simp_all add: last_n_def)
  have ep: "\<forall>c \<in> set ?p. pc_producer_epoch c = max_epoch cs"
    by (auto simp: last_n_def at_max_epoch_def dest: in_set_dropD)
  then have "pc_producer_epoch ` set ?p = {max_epoch cs}"
    using pne by (simp add: image_constant_conv cong: image_cong_simp)
  then have me: "max_epoch ?p = max_epoch cs" by (simp add: max_epoch_def [of ?p])
  have am: "at_max_epoch ?p = ?p" using ep by (simp add: at_max_epoch_def [of ?p] me)
  have "last ?p = last (at_max_epoch cs)" using pne by (simp add: last_n_def)
  then show ?thesis
    unfolding fold_own_char [OF assms] me am using False pne
    by (simp add: last_n_map [symmetric] last_n_append)
qed

section \<open>Pruning is exact\<close>

lemma map_of_top_update:
  "map_of (top_update pid epoch tops) k =
     (if k = pid then Some (case map_of tops pid of None \<Rightarrow> epoch | Some e \<Rightarrow> max e epoch) else map_of tops k)"
  by (induction pid epoch tops rule: top_update.induct) auto

lemma map_of_top_epochs:
  "map_of (top_epochs pcs) pid =
     (if own_coords pid pcs = [] then None else Some (max_epoch (own_coords pid pcs)))"
proof (induction pcs rule: rev_induct)
  case Nil
  show ?case by (simp add: top_epochs_def own_coords_def)
next
  case (snoc pc pcs)
  have "map_of (top_epochs (pcs @ [pc])) pid =
      (if folds pc \<and> pc_producer_id pc = pid
       then Some (case map_of (top_epochs pcs) pid of None \<Rightarrow> pc_producer_epoch pc | Some e \<Rightarrow> max e (pc_producer_epoch pc))
       else map_of (top_epochs pcs) pid)"
    by (auto simp: top_epochs_def map_of_top_update)
  moreover have "own_coords pid (pcs @ [pc]) = own_coords pid pcs @ (if folds pc \<and> pc_producer_id pc = pid then [pc] else [])"
    by (simp add: own_coords_def)
  ultimately show ?case
    using snoc by (auto simp: max_epoch_snoc max_epoch_def [of "[_]"])
qed

definition taken_count :: "(int \<times> nat) list \<Rightarrow> int \<Rightarrow> nat" where
  "taken_count taken pid = (case map_of taken pid of None \<Rightarrow> 0 | Some n \<Rightarrow> n)"

lemma taken_count_update:
  "taken_count (taken_update pid taken) k = (if k = pid then Suc (taken_count taken k) else taken_count taken k)"
  by (induction pid taken rule: taken_update.induct) (auto simp: taken_count_def)

definition keepable :: "(int \<times> int) list \<Rightarrow> producer_coord \<Rightarrow> bool" where
  "keepable tops pc \<longleftrightarrow> folds pc \<and> map_of tops (pc_producer_id pc) = Some (pc_producer_epoch pc)"

lemma retain_step_alt:
  "retain_step tops pc (kept, taken) =
     (if keepable tops pc \<and> taken_count taken (pc_producer_id pc) \<noteq> 5
      then (kept @ [pc], taken_update (pc_producer_id pc) taken) else (kept, taken))"
  by (auto simp: retain_step_def keepable_def taken_count_def IDEMPOTENT_WINDOW_def split: option.splits)

lemma retain_fold:
  assumes "\<forall>k. taken_count taken k \<le> 5"
  shows "filter (\<lambda>pc. pc_producer_id pc = pid) (fst (fold (retain_step tops) pcs (kept, taken)))
     = filter (\<lambda>pc. pc_producer_id pc = pid) kept
       @ take (5 - taken_count taken pid) (filter (\<lambda>pc. keepable tops pc \<and> pc_producer_id pc = pid) pcs)"
  using assms
proof (induction pcs arbitrary: kept taken)
  case (Cons pc pcs)
  let ?own = "filter (\<lambda>pc. keepable tops pc \<and> pc_producer_id pc = pid)"
  show ?case
  proof (cases "keepable tops pc \<and> taken_count taken (pc_producer_id pc) \<noteq> 5")
    case True
    let ?taken = "taken_update (pc_producer_id pc) taken"
    have lt: "taken_count taken (pc_producer_id pc) < 5"
      using Cons.prems True by (simp add: le_neq_implies_less)
    then have le: "\<forall>k. taken_count ?taken k \<le> 5"
      using Cons.prems by (simp add: taken_count_update)
    have "take (5 - taken_count taken pid) (?own (pc # pcs))
        = (if pc_producer_id pc = pid then [pc] else []) @ take (5 - taken_count ?taken pid) (?own pcs)"
      using True lt by (auto simp: taken_count_update take_Cons' Suc_diff_Suc)
    moreover have "fold (retain_step tops) (pc # pcs) (kept, taken) = fold (retain_step tops) pcs (kept @ [pc], ?taken)"
      using True by (simp add: retain_step_alt)
    ultimately show ?thesis using Cons.IH [OF le, of "kept @ [pc]"] by simp
  next
    case False
    then have "fold (retain_step tops) (pc # pcs) (kept, taken) = fold (retain_step tops) pcs (kept, taken)"
      by (auto simp: retain_step_alt)
    moreover have "take (5 - taken_count taken pid) (?own (pc # pcs)) = take (5 - taken_count taken pid) (?own pcs)"
      using False by auto
    ultimately show ?thesis using Cons.IH [OF Cons.prems] by simp
  qed
qed simp

lemma fold_retain_folds:
  "\<forall>pc \<in> set kept. folds pc \<Longrightarrow> \<forall>pc \<in> set (fst (fold (retain_step tops) pcs (kept, taken))). folds pc"
proof (induction pcs arbitrary: kept taken)
  case (Cons pc pcs)
  obtain kept' taken' where step: "retain_step tops pc (kept, taken) = (kept', taken')" by fastforce
  then have "\<forall>p \<in> set kept'. folds p"
    using Cons.prems by (auto simp: retain_step_alt keepable_def split: if_splits)
  then show ?case using Cons.IH by (simp add: step)
qed simp

lemma retained_own: "own_coords pid (retained_producers pcs) = last_n 5 (at_max_epoch (own_coords pid pcs))"
proof -
  let ?tops = "top_epochs pcs"
  let ?r = "fst (fold (retain_step ?tops) (rev pcs) ([], []))"
  have keep: "filter (\<lambda>pc. keepable ?tops pc \<and> pc_producer_id pc = pid) pcs = at_max_epoch (own_coords pid pcs)"
  proof -
    have "keepable ?tops pc \<and> pc_producer_id pc = pid \<longleftrightarrow>
        pc_producer_epoch pc = max_epoch (own_coords pid pcs) \<and> folds pc \<and> pc_producer_id pc = pid"
      if "pc \<in> set pcs" for pc
      using that by (auto simp: keepable_def map_of_top_epochs own_coords_def filter_empty_conv)
    then show ?thesis
      by (simp add: at_max_epoch_def own_coords_def [of pid] filter_filter conj_commute cong: filter_cong)
  qed
  have f: "\<forall>pc \<in> set ?r. folds pc"
    by (rule fold_retain_folds) simp
  have "retained_producers pcs = rev ?r" by (simp add: retained_producers_def)
  then have "own_coords pid (retained_producers pcs) = rev (filter (\<lambda>pc. pc_producer_id pc = pid) ?r)"
    using f by (auto simp: own_coords_def rev_filter intro!: filter_cong)
  also have "\<dots> = rev (take 5 (rev (at_max_epoch (own_coords pid pcs))))"
    by (subst retain_fold) (simp_all add: taken_count_def rev_filter [symmetric] keep)
  finally show ?thesis by (simp add: last_n_def take_rev)
qed

lemma fold_entry_retain:
  "length (pt_window t) \<le> 5 \<Longrightarrow> fold_entry pid (retain_foldable_producers e) t = fold_entry pid e t"
  by (simp add: fold_entry_own retain_foldable_producers_def retained_own fold_own_pruned)

lemma fold_own_window: "length (pt_window t) \<le> 5 \<Longrightarrow> length (pt_window (fold_own base cs t)) \<le> 5"
  by (simp add: fold_own_char length_last_n)

lemma fold_entry_window: "length (pt_window t) \<le> 5 \<Longrightarrow> length (pt_window (fold_entry pid e t)) \<le> 5"
  by (simp add: fold_entry_own fold_own_window)

lemma folded_retain:
  assumes "length (pt_window t) \<le> 5"
  shows "fold (fold_entry pid) (map retain_foldable_producers es) t = fold (fold_entry pid) es t"
  using assms
  by (induction es arbitrary: t) (simp_all add: fold_entry_retain fold_entry_window)

lemma producer_tail_folded_retain:
  "producer_tail_folded (map retain_foldable_producers es) pid = producer_tail_folded es pid"
  unfolding producer_tail_folded_def by (rule folded_retain) (simp add: ProducerTail_default_def)

section \<open>The plan agrees with the log it writes\<close>

lemma region_coords_snoc: "region_coords n (bs @ [b]) = region_coords n bs @ coord_of (n + offsets_of bs) b"
  by (induction bs arbitrary: n) (simp_all add: offsets_of_def algebra_simps)

definition fold_batches :: "int \<Rightarrow> int \<Rightarrow> batch list \<Rightarrow> producer_tail \<Rightarrow> producer_tail" where
  "fold_batches pid base bs = fold (fold_coord pid base) (region_coords 0 bs)"

text \<open>
  The batches a flush carries: non-negative offsets, a control batch has base sequence -1, and a
  transactional batch names its producer.
\<close>

definition sequenced :: "batch \<Rightarrow> bool" where
  "sequenced b \<longleftrightarrow> 0 \<le> b_last_offset_delta b \<and> (is_control b \<longrightarrow> b_base_sequence b = - 1) \<and>
     (is_transactional b \<longrightarrow> b_producer_id b \<noteq> - 1)"

lemma coord_flags_control: "coord_flags b AND FLAG_CONTROL = 0 \<longleftrightarrow> \<not> is_control b"
  by (cases "is_transactional b"; cases "is_control b")
    (simp_all add: coord_flags_def FLAG_CONTROL_def FLAG_TRANSACTIONAL_def)

lemma fold_coord_of:
  assumes "sequenced b" and "0 \<le> n" and "n < 2 ^ 32"
  shows "fold (fold_coord pid base) (coord_of n b) t =
     (if is_idempotent b \<and> b_producer_id b = pid
      then pt_fold (b_producer_epoch b) (b_base_sequence b)
             (wrapping_add_i32 (b_base_sequence b) (b_last_offset_delta b)) (base + n) t
      else t)"
  using assms
  by (auto simp: coord_of_def fold_coord_def folds_def coord_flags_control sequenced_def is_idempotent_def)

definition plan_inv :: "(int \<Rightarrow> producer_tail) \<Rightarrow> int \<Rightarrow> plan_state \<Rightarrow> bool" where
  "plan_inv folded base s \<longleftrightarrow>
     ps_running s = base + offsets_of (ps_batches s) \<and> 0 \<le> offsets_of (ps_batches s) \<and>
     (\<forall>pid. working_tail folded s pid = fold_batches pid base (ps_batches s) (folded pid))"

lemma fold_batches_snoc:
  assumes "sequenced b" and "0 \<le> offsets_of bs" and "offsets_of bs < 2 ^ 32"
  shows "fold_batches pid base (bs @ [b]) t =
     (if is_idempotent b \<and> b_producer_id b = pid
      then pt_fold (b_producer_epoch b) (b_base_sequence b)
             (wrapping_add_i32 (b_base_sequence b) (b_last_offset_delta b)) (base + offsets_of bs)
             (fold_batches pid base bs t)
      else fold_batches pid base bs t)"
  unfolding fold_batches_def region_coords_snoc fold_append o_apply
  using fold_coord_of [OF assms] by simp

lemma offsets_of_snoc: "offsets_of (bs @ [b]) = offsets_of bs + (b_last_offset_delta b + 1)"
  by (simp add: offsets_of_def)

lemma working_tail_upd:
  "working_tail folded (s\<lparr>ps_tails := (ps_tails s)(pid \<mapsto> t)\<rparr>) p = (if p = pid then t else working_tail folded s p)"
  by (simp add: working_tail_def)

lemma working_tail_other:
  "working_tail folded (s\<lparr>ps_outcomes := os\<rparr>) = working_tail folded s"
  "working_tail folded (s\<lparr>ps_running := r\<rparr>) = working_tail folded s"
  "working_tail folded (s\<lparr>ps_batches := bs\<rparr>) = working_tail folded s"
  by (simp_all add: working_tail_def fun_eq_iff)

definition admits :: "(int \<Rightarrow> producer_tail) \<Rightarrow> plan_state \<Rightarrow> batch \<Rightarrow> bool" where
  "admits folded s b \<longleftrightarrow>
     (is_idempotent b \<longrightarrow>
        classify (working_tail folded s (b_producer_id b)) (b_producer_epoch b) (b_base_sequence b) = Admit)"

lemma plan_step_batches:
  "ps_batches (plan_step folded b s) = ps_batches s @ (if admits folded s b then [b] else [])"
  "ps_running (plan_step folded b s) = ps_running s + (if admits folded s b then b_last_offset_delta b + 1 else 0)"
  by (auto simp: plan_step_def admits_def Let_def working_tail_def split: idempotent_class.splits)

lemma plan_step_tails:
  "working_tail folded (plan_step folded b s) pid =
     (if is_idempotent b \<and> admits folded s b \<and> b_producer_id b = pid
      then pt_fold (b_producer_epoch b) (b_base_sequence b)
             (wrapping_add_i32 (b_base_sequence b) (b_last_offset_delta b)) (ps_running s)
             (working_tail folded s pid)
      else working_tail folded s pid)"
  by (auto simp: plan_step_def admits_def Let_def working_tail_def split: idempotent_class.splits)

lemma plan_step_inv:
  assumes inv: "plan_inv folded base s" and b: "sequenced b" and bound: "offsets_of (ps_batches s) < 2 ^ 32"
  shows "plan_inv folded base (plan_step folded b s)"
proof -
  have run: "ps_running s = base + offsets_of (ps_batches s)" and pos: "0 \<le> offsets_of (ps_batches s)"
    and tails: "working_tail folded s pid = fold_batches pid base (ps_batches s) (folded pid)" for pid
    using inv by (simp_all add: plan_inv_def)
  have d: "0 \<le> b_last_offset_delta b" using b by (simp add: sequenced_def)
  have "working_tail folded (plan_step folded b s) pid
        = fold_batches pid base (ps_batches (plan_step folded b s)) (folded pid)" for pid
    unfolding plan_step_tails plan_step_batches tails run
    using fold_batches_snoc [OF b pos bound, of pid base "folded pid"] by (auto simp: admits_def)
  then show ?thesis
    using run pos d by (auto simp: plan_inv_def plan_step_batches offsets_of_snoc)
qed

lemma plan_fold_inv:
  assumes "plan_inv folded base s" and "\<forall>b \<in> set pending. sequenced b"
    and "offsets_of (ps_batches s) + offsets_of pending < 2 ^ 32"
  shows "plan_inv folded base (fold (plan_step folded) pending s)"
  using assms
proof (induction pending arbitrary: s)
  case (Cons b pending)
  have pos: "0 \<le> offsets_of pending" if "\<forall>b \<in> set pending. sequenced b"
    using that by (induction pending) (auto simp: offsets_of_def sequenced_def)
  have p: "0 \<le> offsets_of pending" "0 \<le> b_last_offset_delta b"
    using pos Cons.prems(2) by (simp_all add: sequenced_def)
  have split: "offsets_of (b # pending) = b_last_offset_delta b + 1 + offsets_of pending"
    by (simp add: offsets_of_def)
  have "plan_inv folded base (plan_step folded b s)"
    using Cons.prems p split by (intro plan_step_inv) auto
  moreover have "offsets_of (ps_batches (plan_step folded b s)) + offsets_of pending < 2 ^ 32"
    using Cons.prems(3) p split by (simp add: plan_step_batches offsets_of_snoc)
  ultimately show ?case using Cons.IH Cons.prems(2) by simp
qed simp

lemma plan_topition_inv:
  assumes "\<forall>b \<in> set pending. sequenced b" and "offsets_of pending < 2 ^ 32"
  shows "plan_inv folded base (plan_topition folded base pending)"
  unfolding plan_topition_def
  by (rule plan_fold_inv) (use assms in \<open>simp_all add: plan_inv_def working_tail_def offsets_of_def fold_batches_def\<close>)

section \<open>Properties\<close>

text \<open>
  C7. Dropping the producer coordinates that \<open>retain_foldable_producers\<close> drops never changes an
  idempotence decision: for every producer, the tail folded over the pruned entries is the tail
  folded over the complete ones.
\<close>

theorem pruned_index_folds_the_same_tail:
  "producer_tail_folded (map retain_foldable_producers es) pid = producer_tail_folded es pid"
  by (rule producer_tail_folded_retain)

text \<open>The entry a flush appends for the batches it placed at an offset.\<close>

definition appended :: "substream_entry \<Rightarrow> int \<Rightarrow> batch list \<Rightarrow> bool" where
  "appended e base bs \<longleftrightarrow> se_base_offset e = base \<and> se_producers e = region_coords 0 bs"

lemma folded_appended:
  "appended e base bs \<Longrightarrow> producer_tail_folded (es @ [e]) pid = fold_batches pid base bs (producer_tail_folded es pid)"
  by (simp add: appended_def producer_tail_folded_def fold_entry_def fold_batches_def)

lemma folded_window: "length (pt_window (producer_tail_folded es pid)) \<le> 5"
  by (induction es rule: rev_induct)
    (simp_all add: producer_tail_folded_def fold_entry_window ProducerTail_default_def)

lemma find_keyed:
  assumes "(k, v) \<in> set xs" and "\<forall>x \<in> set xs. fst x = k \<longrightarrow> snd x = v"
  shows "find (\<lambda>(s, _). s = k) xs = Some (k, v)"
  using assms by (induction xs) auto

lemma classify_replay:
  assumes "length (pt_window t) \<le> 5" and "pt_epoch t \<le> epoch" and "seq_increment last_seq \<noteq> seq"
    and "seq \<notin> fst ` set (pt_window t)"
  shows "classify (pt_fold epoch seq last_seq off t) epoch seq = Duplicate off"
proof -
  let ?w = "if pt_epoch t < epoch then [] else pt_window t"
  have "\<forall>x \<in> set (last_n 5 (?w @ [(seq, off)])). fst x = seq \<longrightarrow> snd x = off"
    using assms(4) by (auto simp: last_n_def dest!: in_set_dropD split: if_splits)
  moreover have "(seq, off) \<in> set (last_n 5 (?w @ [(seq, off)]))"
    using last_n_snoc [of 4 ?w "(seq, off)"] by simp
  ultimately have "find (\<lambda>(s, _). s = seq) (last_n 5 (?w @ [(seq, off)])) = Some (seq, off)"
    by (intro find_keyed)
  then show ?thesis
    using assms by (simp add: pt_fold_alt classify_def expected_def Let_def)
qed

text \<open>
  C8. The in-flight reservations of a flush agree with the log it writes: after planning the pending
  batches of a topition over the tails folded from its log, the working tail of every producer is
  the tail folded from the log extended by the entry the flush appends, and the offsets handed out
  end where that entry ends.
\<close>

theorem plan_agrees_with_written_log:
  assumes "\<forall>b \<in> set pending. sequenced b" and "offsets_of pending < 2 ^ 32"
    and "s = plan_topition (producer_tail_folded es) base pending" and "appended e base (ps_batches s)"
  shows "working_tail (producer_tail_folded es) s pid = producer_tail_folded (es @ [e]) pid \<and>
         ps_running s = base + offsets_of (ps_batches s)"
  using plan_topition_inv [OF assms(1,2), of "producer_tail_folded es" base] folded_appended [OF assms(4)]
  by (simp add: plan_inv_def assms(3))

lemma sample_batch_sequenced: "sequenced sample_batch" "is_idempotent sample_batch"
  by (simp_all add: sequenced_def sample_batch_def is_control_def is_transactional_def attribute_bit_def is_idempotent_def)

definition sample_entry :: substream_entry where
  "sample_entry = (hd (sf_entries sample_footer))\<lparr>se_base_offset := 100, se_producers := region_coords 0 [sample_batch]\<rparr>"

lemma sample_entry_appended: "appended sample_entry 100 [sample_batch]"
  by (simp add: appended_def sample_entry_def)

lemma sample_plan:
  "ps_batches (plan_topition (producer_tail_folded []) 100 [sample_batch, sample_batch]) = [sample_batch]"
  by (simp add: plan_topition_def plan_step_def sample_batch_sequenced producer_tail_folded_def working_tail_def Let_def)
    (simp add: sample_batch_def classify_def expected_def ProducerTail_default_def pt_fold_def seq_increment_def
      wrapping_add_i32_def IDEMPOTENT_WINDOW_def)

theorem plan_agrees_with_written_log_witness:
  "ps_running (plan_topition (producer_tail_folded []) 100 [sample_batch, sample_batch]) = 103"
  using plan_agrees_with_written_log [OF _ _ refl, of "[sample_batch, sample_batch]" sample_entry 100 "[]"]
    sample_plan sample_entry_appended sample_batch_sequenced
  by (simp add: offsets_of_def) (simp add: sample_batch_def)



text \<open>
  C35. The sequence expected after a batch is Kafka's (the next one modulo \<open>2^31\<close>) exactly when the batch
  does not run past the greatest sequence. A batch that straddles it leaves a negative expectation,
  and the producer's next in-order batch is classified out of order.
\<close>

theorem expected_sequence_after_batch:
  assumes "0 \<le> seq" and "seq < 2 ^ 31" and "0 \<le> delta" and "delta < 2 ^ 31" and "pt_epoch t \<le> epoch"
    and "t' = pt_fold epoch seq (wrapping_add_i32 seq delta) off t"
  shows "(expected t' = (seq + delta + 1) mod 2 ^ 31) \<longleftrightarrow> seq + delta < 2 ^ 31"
proof -
  have e: "expected t' = seq_increment (wrapping_add_i32 seq delta)"
    using assms(5,6) by (simp add: expected_def pt_fold_def Let_def)
  show ?thesis
  proof (cases "seq + delta < 2 ^ 31")
    case True
    then have "wrapping_add_i32 seq delta = seq + delta"
      using assms(1,3) by (simp add: wrapping_add_i32_def)
    then show ?thesis
      using True assms(1,3) unfolding e by (auto simp: seq_increment_def)
  next
    case False
    then have "(seq + delta + 2 ^ 31) mod 2 ^ 32 = seq + delta + 2 ^ 31 - 2 ^ 32"
      using assms by (subst mod_pos_geq) (auto simp: mod_pos_pos_trivial)
    then have "seq_increment (wrapping_add_i32 seq delta) < 0"
      using assms False by (simp add: wrapping_add_i32_def seq_increment_def)
    moreover have "0 \<le> (seq + delta + 1) mod 2 ^ 31" by simp
    ultimately show ?thesis using False unfolding e by linarith
  qed
qed

theorem expected_sequence_after_batch_witness:
  "expected (pt_fold 0 (2 ^ 31 - 2) (wrapping_add_i32 (2 ^ 31 - 2) 2) 0 ProducerTail_default) \<noteq> 1"
  using expected_sequence_after_batch [of "2 ^ 31 - 2" 2 ProducerTail_default 0, OF _ _ _ _ _ refl]
  by (simp add: ProducerTail_default_def)

end
