(* ===== verification/BTreeMap.thy ===== *)
theory BTreeMap
  imports Prelude
begin

text \<open>
  Rust's \<open>BTreeMap\<close> as its in-order association list, and a \<open>Vec\<close> kept sorted through
  \<open>binary_search\<close>. The locale \<open>ordered_map\<close> is the contract the components rely on: lookup after
  insert and after retain, and keys in strictly ascending order.
\<close>

type_synonym ('k, 'v) btree = "('k \<times> 'v) list"

section \<open>Operations\<close>

definition bt_get :: "('k, 'v) btree \<Rightarrow> 'k \<Rightarrow> 'v option" where
  "bt_get m k = map_of m k"

fun bt_insert :: "'k::linorder \<Rightarrow> 'v \<Rightarrow> ('k, 'v) btree \<Rightarrow> ('k, 'v) btree" where
  "bt_insert k v [] = [(k, v)]"
| "bt_insert k v ((k', v') # m) =
     (if k < k' then (k, v) # (k', v') # m
      else if k = k' then (k, v) # m
      else (k', v') # bt_insert k v m)"

definition bt_retain :: "('k \<Rightarrow> bool) \<Rightarrow> ('k, 'v) btree \<Rightarrow> ('k, 'v) btree" where
  "bt_retain P m = filter (\<lambda>(k, _). P k) m"

definition bt_keys :: "('k, 'v) btree \<Rightarrow> 'k list" where
  "bt_keys m = map fst m"

definition bt_inv :: "('k::linorder, 'v) btree \<Rightarrow> bool" where
  "bt_inv m \<longleftrightarrow> sorted_wrt (<) (map fst m)"

definition bt_remove :: "'k \<Rightarrow> ('k, 'v) btree \<Rightarrow> ('k, 'v) btree" where
  "bt_remove k m = bt_retain (\<lambda>k'. k' \<noteq> k) m"

text \<open>\<open>entry(k).or_default()\<close> followed by an edit of the value.\<close>

definition bt_update :: "'k::linorder \<Rightarrow> 'v \<Rightarrow> ('v \<Rightarrow> 'v) \<Rightarrow> ('k, 'v) btree \<Rightarrow> ('k, 'v) btree" where
  "bt_update k dflt f m = bt_insert k (f (unwrap_or dflt (bt_get m k))) m"

definition next_back :: "'a list \<Rightarrow> 'a option" where
  "next_back xs = (if xs = [] then None else Some (last xs))"

text \<open>\<open>binary_search\<close> followed by \<open>insert\<close> at the position it reports, on a sorted vector.\<close>

fun vec_insert :: "'a::linorder \<Rightarrow> 'a list \<Rightarrow> 'a list" where
  "vec_insert x [] = [x]"
| "vec_insert x (y # ys) = (if x < y then x # y # ys else if x = y then y # ys else y # vec_insert x ys)"

section \<open>The contract\<close>

locale ordered_map =
  fixes get :: "'m \<Rightarrow> 'k::linorder \<Rightarrow> 'v option"
    and ins :: "'k \<Rightarrow> 'v \<Rightarrow> 'm \<Rightarrow> 'm"
    and retain :: "('k \<Rightarrow> bool) \<Rightarrow> 'm \<Rightarrow> 'm"
    and keys :: "'m \<Rightarrow> 'k list"
    and inv :: "'m \<Rightarrow> bool"
  assumes get_ins: "get (ins k v m) j = (if j = k then Some v else get m j)"
    and get_retain: "get (retain P m) k = (if P k then get m k else None)"
    and inv_ins: "inv m \<Longrightarrow> inv (ins k v m)"
    and inv_retain: "inv m \<Longrightarrow> inv (retain P m)"
    and keys_sorted: "inv m \<Longrightarrow> sorted_wrt (<) (keys m)"
    and keys_get: "k \<in> set (keys m) \<longleftrightarrow> get m k \<noteq> None"
begin

lemma last_key_greatest:
  assumes "inv m" and "get m k \<noteq> None"
  shows "keys m \<noteq> [] \<and> k \<le> last (keys m)"
proof -
  have k: "k \<in> set (keys m)" using assms(2) by (simp add: keys_get)
  then obtain xs where xs: "keys m = xs @ [last (keys m)]"
    by (metis append_butlast_last_id length_greater_0_conv length_pos_if_in_set)
  then have "\<forall>x \<in> set xs. x < last (keys m)"
    using keys_sorted [OF assms(1)] by (metis in_set_conv_decomp sorted_wrt_append list.set_intros(1))
  then show ?thesis using k xs by (metis append_is_Nil_conv in_set_conv_decomp_first list.distinct(1) nless_le order_refl rotate1.simps(2) set_ConsD set_rotate1)
qed

lemma last_key_held:
  assumes "keys m \<noteq> []"
  shows "get m (last (keys m)) \<noteq> None"
  using last_in_set [OF assms] by (simp add: keys_get)

lemma retain_ins_kept: "P k \<Longrightarrow> get (retain P (ins k v m)) j = get (ins k v (retain P m)) j"
  by (simp add: get_ins get_retain)

end

section \<open>The association list keeps it\<close>

lemma bt_get_insert: "bt_get (bt_insert k v m) j = (if j = k then Some v else bt_get m j)"
  by (induction k v m rule: bt_insert.induct) (auto simp: bt_get_def)

lemma bt_get_retain: "bt_get (bt_retain P m) k = (if P k then bt_get m k else None)"
  by (induction m) (auto simp: bt_get_def bt_retain_def)

lemma set_keys_insert: "set (map fst (bt_insert k v m)) = insert k (set (map fst m))"
  by (induction k v m rule: bt_insert.induct) auto

lemma bt_inv_insert: "bt_inv m \<Longrightarrow> bt_inv (bt_insert k v m)"
proof (induction k v m rule: bt_insert.induct)
  case (2 k v k' v' m)
  have "set (map fst (bt_insert k v m)) = insert k (set (map fst m))" by (rule set_keys_insert)
  with 2 show ?case by (fastforce simp: bt_inv_def)
qed (simp add: bt_inv_def)

lemma bt_inv_retain: "bt_inv m \<Longrightarrow> bt_inv (bt_retain P m)"
  by (induction m) (auto simp: bt_inv_def bt_retain_def)

interpretation bt: ordered_map bt_get bt_insert bt_retain bt_keys bt_inv
proof unfold_locales
  show "bt_inv m \<Longrightarrow> sorted_wrt (<) (bt_keys m)" for m :: "('a, 'b) btree"
    by (simp add: bt_inv_def bt_keys_def)
  show "k \<in> set (bt_keys m) \<longleftrightarrow> bt_get m k \<noteq> None" for k and m :: "('a, 'b) btree"
    by (simp add: bt_keys_def bt_get_def map_of_eq_None_iff)
qed (simp_all add: bt_get_insert bt_get_retain bt_inv_insert bt_inv_retain)

lemma bt_get_Nil [simp]: "bt_get [] k = None"
  by (simp add: bt_get_def)

lemma bt_inv_distinct: "bt_inv m \<Longrightarrow> distinct (map fst m)"
  unfolding bt_inv_def by (simp add: strict_sorted_iff)

lemma bt_get_in: "bt_inv m \<Longrightarrow> bt_get m k = Some v \<longleftrightarrow> (k, v) \<in> set m"
  by (simp add: bt_get_def bt_inv_distinct)

lemma set_vec_insert: "set (vec_insert x xs) = insert x (set xs)"
  by (induction x xs rule: vec_insert.induct) auto

lemma sorted_vec_insert: "sorted_wrt (<) xs \<Longrightarrow> sorted_wrt (<) (vec_insert x xs)"
  by (induction x xs rule: vec_insert.induct) (auto simp: set_vec_insert)

lemma strict_sorted_unique:
  fixes xs ys :: "'a::linorder list"
  assumes "sorted_wrt (<) xs" and "sorted_wrt (<) ys" and "set xs = set ys"
  shows "xs = ys"
  using assms by (simp add: strict_sorted_equal)

lemma set_fold_vec_insert: "set (fold vec_insert xs ys) = set xs \<union> set ys"
  by (induction xs arbitrary: ys) (auto simp: set_vec_insert)

lemma sorted_fold_vec_insert: "sorted_wrt (<) ys \<Longrightarrow> sorted_wrt (<) (fold vec_insert xs ys)"
  by (induction xs arbitrary: ys) (auto simp: sorted_vec_insert)

lemma bt_get_Cons: "bt_get ((k, v) # m) j = (if j = k then Some v else bt_get m j)"
  by (simp add: bt_get_def)

lemma bt_get_remove [simp]: "bt_get (bt_remove k m) j = (if j = k then None else bt_get m j)"
  by (simp add: bt_remove_def bt_get_retain)

lemma bt_inv_remove: "bt_inv m \<Longrightarrow> bt_inv (bt_remove k m)"
  by (simp add: bt_remove_def bt_inv_retain)

lemma bt_get_update [simp]:
  "bt_get (bt_update k dflt f m) j = (if j = k then Some (f (unwrap_or dflt (bt_get m k))) else bt_get m j)"
  by (simp add: bt_update_def bt_get_insert)

lemma bt_inv_update: "bt_inv m \<Longrightarrow> bt_inv (bt_update k dflt f m)"
  by (simp add: bt_update_def bt_inv_insert)

lemma bt_inv_Nil [simp]: "bt_inv []" and bt_inv_single [simp]: "bt_inv [(k, v)]"
  by (simp_all add: bt_inv_def)

lemma bt_get_single [simp]: "bt_get [(k, v)] j = (if j = k then Some v else None)"
  by (simp add: bt_get_def)

lemma bt_get_map: "bt_get (map (\<lambda>(k, v). (k, f k v)) m) j = map_option (f j) (bt_get m j)"
  by (induction m) (auto simp: bt_get_def)

lemma bt_inv_map: "bt_inv (map (\<lambda>(k, v). (k, f k v)) m) = bt_inv m"
proof -
  have keys: "map fst (map (\<lambda>(k, v). (k, f k v)) m) = map fst m" by (induction m) auto
  show ?thesis unfolding bt_inv_def keys ..
qed

lemma bt_inv_filter: "bt_inv m \<Longrightarrow> bt_inv (filter P m)"
  by (simp add: bt_inv_def sorted_wrt_map sorted_wrt_filter)

lemma bt_get_filter:
  "bt_inv m \<Longrightarrow> bt_get (filter P m) k = (case bt_get m k of None \<Rightarrow> None | Some v \<Rightarrow> if P (k, v) then Some v else None)"
proof -
  assume inv: "bt_inv m"
  have some: "bt_get (filter P m) k = Some v \<longleftrightarrow> bt_get m k = Some v \<and> P (k, v)" for v
    using bt_get_in [OF inv, of k v] bt_get_in [OF bt_inv_filter [OF inv], of P k v] by simp
  show ?thesis
  proof (cases "bt_get (filter P m) k")
    case None
    then show ?thesis using some by (auto split: option.split)
  next
    case (Some v)
    then show ?thesis using some by simp
  qed
qed

lemma bt_insert_same: "bt_inv m \<Longrightarrow> bt_get m k = Some v \<Longrightarrow> bt_insert k v m = m"
proof (induction m)
  case (Cons x m)
  obtain a b where x: "x = (a, b)" by fastforce
  show ?case
  proof (cases "k = a")
    case False
    then have m: "bt_get m k = Some v" using Cons.prems(2) by (simp add: bt_get_def x)
    then have "a < k" using Cons.prems(1) by (auto simp: bt_inv_def x bt_get_def dest!: map_of_SomeD)
    then show ?thesis using Cons.IH [OF _ m] Cons.prems(1) by (auto simp: x bt_inv_def)
  qed (use Cons.prems(2) in \<open>simp add: x bt_get_def\<close>)
qed (simp add: bt_get_def)

lemma bt_ext:
  assumes "bt_inv a" and "bt_inv b" and "\<And>k. bt_get a k = bt_get b k"
  shows "a = b"
proof -
  have list: "c = map (\<lambda>k. (k, the (bt_get c k))) (map fst c)" if "bt_inv c" for c :: "('a, 'b) btree"
  proof (intro nth_equalityI)
    fix i assume "i < length c"
    then have "map_of c (fst (c ! i)) = Some (snd (c ! i))"
      by (intro map_of_is_SomeI bt_inv_distinct that) simp
    then show "c ! i = map (\<lambda>k. (k, the (bt_get c k))) (map fst c) ! i" using \<open>i < length c\<close> by (simp add: bt_get_def)
  qed simp
  have "set (map fst a) = set (map fst b)"
    using assms(3) by (auto simp: bt_get_def dom_map_of_conv_image_fst [symmetric] dom_def)
  then have "map fst a = map fst b" using assms(1,2) by (intro strict_sorted_unique) (simp_all add: bt_inv_def)
  then show ?thesis using list [OF assms(1)] list [OF assms(2)] assms(3) by simp
qed

end
