(* ===== verification/PrefixIndex.thy ===== *)
theory PrefixIndex
  imports ProducerTail BTreeMap "HOL-Library.Product_Lexorder"
begin

text \<open>
  The in-memory index of one prefix's segments (\<open>PrefixIndex\<close>, \<open>dynostore.rs\<close> and
  \<open>dynostore/index.rs\<close>): the cached footers by sequence, the derived lookup by sub-stream, and the
  epoch-fenced view of a sub-stream that every reader and writer of offsets goes through. Interned
  topic names are shared allocations of equal strings and have no counterpart here; clocks are
  integers (milliseconds) passed as arguments.
\<close>

section \<open>State\<close>

type_synonym seqno = nat
type_synonym substream_key = "substream \<times> int"

record cached_segment =
  cs_footer :: segment_footer
  cs_last_modified_ms :: int

record prefix_index =
  pi_segments :: "(seqno, cached_segment) btree"
  pi_by_substream :: "substream_key \<rightharpoonup> (seqno \<times> nat) list"
  pi_opaque :: "seqno list"
  pi_refreshed_at :: "int option"
  pi_reconciled_at :: "int option"
  pi_generation :: nat
  pi_seq_floor :: "(nat \<times> nat) option"

definition PrefixIndex_default :: prefix_index where
  "PrefixIndex_default =
     \<lparr>pi_segments = [], pi_by_substream = Map.empty, pi_opaque = [], pi_refreshed_at = None,
      pi_reconciled_at = None, pi_generation = 0, pi_seq_floor = None\<rparr>"

definition entry_key :: "substream_entry \<Rightarrow> substream_key" where
  "entry_key e = (entry_substream e, se_partition e)"

definition option_max :: "nat option \<Rightarrow> nat option \<Rightarrow> nat option" where
  "option_max a b = (case a of None \<Rightarrow> b | Some x \<Rightarrow> (case b of None \<Rightarrow> Some x | Some y \<Rightarrow> Some (max x y)))"

definition resolved_max :: "prefix_index \<Rightarrow> seqno option" where
  "resolved_max idx = option_max (next_back (bt_keys (pi_segments idx))) (next_back (pi_opaque idx))"

section \<open>Keeping the derived lookup in step\<close>

definition unindex_step ::
    "seqno \<Rightarrow> nat \<times> substream_entry \<Rightarrow> (substream_key \<rightharpoonup> (seqno \<times> nat) list)
     \<Rightarrow> (substream_key \<rightharpoonup> (seqno \<times> nat) list)" where
  "unindex_step seq = (\<lambda>(position, e) by.
     case by (entry_key e) of
       None \<Rightarrow> by
     | Some seqs \<Rightarrow>
         let seqs = remove1 (seq, position) seqs
         in if seqs = [] then by(entry_key e := None) else by(entry_key e \<mapsto> seqs))"

definition unindex_segment :: "seqno \<Rightarrow> prefix_index \<Rightarrow> prefix_index" where
  "unindex_segment seq idx =
     (case bt_get (pi_segments idx) seq of
        None \<Rightarrow> idx
      | Some cached \<Rightarrow>
          idx\<lparr>pi_by_substream :=
                fold (unindex_step seq) (enumerate 0 (sf_entries (cs_footer cached))) (pi_by_substream idx)\<rparr>)"

definition index_step ::
    "seqno \<Rightarrow> nat \<times> substream_entry \<Rightarrow> (substream_key \<rightharpoonup> (seqno \<times> nat) list)
     \<Rightarrow> (substream_key \<rightharpoonup> (seqno \<times> nat) list)" where
  "index_step seq = (\<lambda>(position, e) by.
     by(entry_key e \<mapsto>
          vec_insert (seq, position) (case by (entry_key e) of None \<Rightarrow> [] | Some seqs \<Rightarrow> seqs)))"

definition prune_cached :: "cached_segment \<Rightarrow> cached_segment" where
  "prune_cached c =
     c\<lparr>cs_footer := (cs_footer c)\<lparr>sf_entries := map retain_foldable_producers (sf_entries (cs_footer c))\<rparr>\<rparr>"

definition insert_segment :: "seqno \<Rightarrow> cached_segment \<Rightarrow> prefix_index \<Rightarrow> prefix_index" where
  "insert_segment seq cached idx =
     (let idx = unindex_segment seq idx;
          cached = prune_cached cached
      in idx\<lparr>pi_by_substream :=
               fold (index_step seq) (enumerate 0 (sf_entries (cs_footer cached))) (pi_by_substream idx),
             pi_segments := bt_insert seq cached (pi_segments idx)\<rparr>)"

definition retain_by ::
    "(seqno \<Rightarrow> bool) \<Rightarrow> (substream_key \<rightharpoonup> (seqno \<times> nat) list) \<Rightarrow> (substream_key \<rightharpoonup> (seqno \<times> nat) list)" where
  "retain_by keep by k =
     (case by k of
        None \<Rightarrow> None
      | Some seqs \<Rightarrow>
          let seqs = filter (\<lambda>(seq, _). keep seq) seqs in if seqs = [] then None else Some seqs)"

definition retain_segments :: "(seqno \<Rightarrow> bool) \<Rightarrow> prefix_index \<Rightarrow> prefix_index \<times> nat" where
  "retain_segments keep idx =
     (let segs = bt_retain keep (pi_segments idx);
          dropped = length (pi_segments idx) - length segs
      in (if 0 < dropped
          then idx\<lparr>pi_segments := segs, pi_by_substream := retain_by keep (pi_by_substream idx)\<rparr>
          else idx\<lparr>pi_segments := segs\<rparr>,
          dropped))"

definition substream_entries ::
    "prefix_index \<Rightarrow> substream \<Rightarrow> int \<Rightarrow> (seqno \<times> int \<times> substream_entry) list" where
  "substream_entries idx s p =
     List.map_filter (\<lambda>(seq, position).
       case bt_get (pi_segments idx) seq of
         None \<Rightarrow> None
       | Some cached \<Rightarrow>
           let es = sf_entries (cs_footer cached)
           in if position < length es
              then Some (seq, sf_writer_epoch (cs_footer cached), es ! position) else None)
       (case pi_by_substream idx (s, p) of None \<Rightarrow> [] | Some seqs \<Rightarrow> seqs)"

definition index_insert :: "int \<Rightarrow> seqno \<Rightarrow> segment_footer \<Rightarrow> int \<Rightarrow> prefix_index \<Rightarrow> prefix_index" where
  "index_insert now seq footer last_modified_ms idx =
     (insert_segment seq \<lparr>cs_footer = footer, cs_last_modified_ms = last_modified_ms\<rparr> idx)
       \<lparr>pi_refreshed_at := Some now\<rparr>"

definition index_invalidate :: "prefix_index \<Rightarrow> prefix_index" where
  "index_invalidate idx = idx\<lparr>pi_refreshed_at := None, pi_reconciled_at := None\<rparr>"

definition index_prune :: "seqno list \<Rightarrow> prefix_index \<Rightarrow> prefix_index" where
  "index_prune seqs idx =
     (let idx = fst (retain_segments (\<lambda>seq. seq \<notin> set seqs) idx)
      in idx\<lparr>pi_generation := pi_generation idx + 1\<rparr>)"

text \<open>
  The downward half of a reconciling refresh: what a whole-prefix listing \<open>live\<close> did not return below
  its own maximum is dropped.
\<close>

definition reconcile :: "seqno list \<Rightarrow> prefix_index \<Rightarrow> prefix_index" where
  "reconcile live idx =
     (case next_back live of
        None \<Rightarrow> idx
      | Some listed_max \<Rightarrow>
          let keep = (\<lambda>seq. listed_max \<le> seq \<or> seq \<in> set live);
              idx = fst (retain_segments keep idx)
          in idx\<lparr>pi_opaque := filter keep (pi_opaque idx)\<rparr>)"

section \<open>The fenced view\<close>

record fenced_segment =
  fs_seq :: seqno
  fs_served_from :: int
  fs_entry :: substream_entry

definition fenced_end :: "fenced_segment \<Rightarrow> int" where
  "fenced_end f = se_base_offset (fs_entry f) + se_record_count (fs_entry f)"

definition is_clipped :: "fenced_segment \<Rightarrow> bool" where
  "is_clipped f \<longleftrightarrow> se_base_offset (fs_entry f) < fs_served_from f"

type_synonym ranked_entry = "int \<times> seqno \<times> substream_entry"

fun tail_outranked :: "ranked_entry list \<Rightarrow> int \<times> seqno \<Rightarrow> int \<Rightarrow> int \<Rightarrow> bool" where
  "tail_outranked [] rank covered to = False"
| "tail_outranked ((epoch, seq, e) # later) rank covered to =
     (if covered < se_base_offset e then False
      else if rank < (epoch, seq) then
        let covered = max covered (se_base_offset e + se_record_count e)
        in if to \<le> covered then True else tail_outranked later rank covered to
      else tail_outranked later rank covered to)"

fun fence :: "int \<Rightarrow> int \<times> seqno \<Rightarrow> ranked_entry list \<Rightarrow> fenced_segment list" where
  "fence covered_to frontier_rank [] = []"
| "fence covered_to frontier_rank ((epoch, seq, e) # segs) =
     (let fin = se_base_offset e + se_record_count e
      in if fin \<le> covered_to then fence covered_to frontier_rank segs
         else if se_base_offset e < covered_to \<and> (epoch, seq) < frontier_rank
                 \<and> tail_outranked segs (epoch, seq) covered_to fin
         then fence covered_to frontier_rank segs
         else \<lparr>fs_seq = seq,
               fs_served_from = (if se_base_offset e < covered_to then covered_to else se_base_offset e),
               fs_entry = e\<rparr>
              # fence fin (epoch, seq) segs)"

definition fence_order :: "ranked_entry \<Rightarrow> int \<times> int \<times> int" where
  "fence_order = (\<lambda>(epoch, seq, e). (se_base_offset e, - epoch, - int seq))"

definition with_fenced_segments :: "prefix_index \<Rightarrow> substream \<Rightarrow> int \<Rightarrow> fenced_segment list" where
  "with_fenced_segments idx s p =
     fence (- (2 ^ 63)) (- (2 ^ 63), 0)
       (sort_key fence_order (map (\<lambda>(seq, epoch, e). (epoch, seq, e)) (substream_entries idx s p)))"

definition substream_tail :: "prefix_index \<Rightarrow> substream \<Rightarrow> int \<Rightarrow> int option" where
  "substream_tail idx s p =
     (let ends = map (\<lambda>(_, _, e). se_base_offset e + se_record_count e) (substream_entries idx s p)
      in if ends = [] then None else Some (Max (set ends)))"

definition recover_substream_next_offset :: "prefix_index \<Rightarrow> substream \<Rightarrow> int \<Rightarrow> int \<Rightarrow> int" where
  "recover_substream_next_offset idx s p persisted_floor =
     max (case substream_tail idx s p of None \<Rightarrow> 0 | Some t \<Rightarrow> t) persisted_floor"

definition segment_region_start :: "prefix_index \<Rightarrow> substream \<Rightarrow> int \<Rightarrow> int option" where
  "segment_region_start idx s p =
     (case with_fenced_segments idx s p of [] \<Rightarrow> None | f # _ \<Rightarrow> Some (se_base_offset (fs_entry f)))"

definition bytes_from :: "substream_entry \<Rightarrow> int \<Rightarrow> int" where
  "bytes_from e offset =
     (let records = se_record_count e;
          above = entry_end e - max offset (se_base_offset e)
      in if records \<le> 0 \<or> records \<le> above then se_byte_len e
         else se_byte_len e * max above 0 div records)"

section \<open>The derived lookup stays in step\<close>

definition at_key :: "(substream_key \<rightharpoonup> (seqno \<times> nat) list) \<Rightarrow> substream_key \<Rightarrow> (seqno \<times> nat) list" where
  "at_key by k = (case by k of None \<Rightarrow> [] | Some seqs \<Rightarrow> seqs)"

definition by_ok :: "(substream_key \<rightharpoonup> (seqno \<times> nat) list) \<Rightarrow> bool" where
  "by_ok by \<longleftrightarrow> (\<forall>k seqs. by k = Some seqs \<longrightarrow> seqs \<noteq> [] \<and> sorted_wrt (<) seqs)"

definition cached_entries :: "cached_segment \<Rightarrow> substream_entry list" where
  "cached_entries c = sf_entries (cs_footer c)"

definition held :: "(seqno, cached_segment) btree \<Rightarrow> substream_key \<Rightarrow> (seqno \<times> nat) set" where
  "held segs k = {(seq, i). \<exists>c. bt_get segs seq = Some c \<and> i < length (cached_entries c)
                                 \<and> entry_key (cached_entries c ! i) = k}"

definition in_step :: "prefix_index \<Rightarrow> bool" where
  "in_step idx \<longleftrightarrow> bt_inv (pi_segments idx) \<and> by_ok (pi_by_substream idx) \<and>
     (\<forall>k. set (at_key (pi_by_substream idx) k) = held (pi_segments idx) k)"

lemma in_stepD:
  assumes "in_step idx"
  shows "bt_inv (pi_segments idx)" "by_ok (pi_by_substream idx)"
    "set (at_key (pi_by_substream idx) k) = held (pi_segments idx) k"
  using assms unfolding in_step_def by blast+

lemma by_okD: "by_ok by \<Longrightarrow> by k = Some seqs \<Longrightarrow> seqs \<noteq> [] \<and> sorted_wrt (<) seqs"
  unfolding by_ok_def by blast

lemma by_okI: "(\<And>k seqs. by k = Some seqs \<Longrightarrow> seqs \<noteq> [] \<and> sorted_wrt (<) seqs) \<Longrightarrow> by_ok by"
  unfolding by_ok_def by blast

lemma by_ok_sorted: "by_ok by \<Longrightarrow> sorted_wrt (<) (at_key by k)"
  by (cases "by k") (simp_all add: at_key_def by_okD)

lemma set_remove1_strict: "sorted_wrt (<) xs \<Longrightarrow> set (remove1 x xs) = set xs - {x}" for xs :: "'a::linorder list"
  by (simp add: strict_sorted_iff)

lemma sorted_remove1: "sorted_wrt (<) xs \<Longrightarrow> sorted_wrt (<) (remove1 x xs)" for xs :: "'a::linorder list"
  by (simp add: strict_sorted_iff sorted_remove1)

lemma unindex_step_at:
  "unindex_step seq (i, e) by =
     (let seqs = remove1 (seq, i) (at_key by (entry_key e))
      in if by (entry_key e) = None then by
         else if seqs = [] then by(entry_key e := None) else by(entry_key e \<mapsto> seqs))"
  by (auto simp: unindex_step_def at_key_def Let_def split: option.splits)

lemma at_key_unindex:
  assumes "by_ok by"
  shows "at_key (unindex_step seq (i, e) by) k
           = (if k = entry_key e then remove1 (seq, i) (at_key by k) else at_key by k)"
  by (auto simp: unindex_step_at Let_def at_key_def)

lemma unindex_step_ok:
  assumes "by_ok by"
  shows "by_ok (unindex_step seq (i, e) by)"
proof (rule by_okI)
  fix k seqs assume u: "unindex_step seq (i, e) by k = Some seqs"
  have s: "sorted_wrt (<) (remove1 (seq, i) (at_key by (entry_key e)))"
    using by_ok_sorted [OF assms] by (rule sorted_remove1)
  show "seqs \<noteq> [] \<and> sorted_wrt (<) seqs"
    using u s by_okD [OF assms, of k seqs] by (auto simp: unindex_step_at Let_def split: if_splits)
qed

lemma unindex_fold:
  assumes "by_ok by"
  shows "by_ok (fold (unindex_step seq) ies by) \<and>
     set (at_key (fold (unindex_step seq) ies by) k)
       = set (at_key by k) - {(seq, i) |i e. (i, e) \<in> set ies \<and> entry_key e = k}"
  using assms
proof (induction ies arbitrary: "by")
  case (Cons ie ies)
  obtain i e where ie: "ie = (i, e)" by fastforce
  let ?by = "unindex_step seq (i, e) by"
  have ok: "by_ok ?by" using Cons.prems by (rule unindex_step_ok)
  have "set (at_key ?by k) = set (at_key by k) - (if k = entry_key e then {(seq, i)} else {})"
    using by_ok_sorted [OF Cons.prems] by (simp add: at_key_unindex [OF Cons.prems] set_remove1_strict)
  then show ?case using Cons.IH [OF ok] ie by auto
qed simp

lemma at_key_index:
  "at_key (index_step seq (i, e) by) k
     = (if k = entry_key e then vec_insert (seq, i) (at_key by k) else at_key by k)"
  by (simp add: index_step_def at_key_def)

lemma index_step_ok:
  assumes "by_ok by"
  shows "by_ok (index_step seq (i, e) by)"
proof (rule by_okI)
  fix k seqs assume u: "index_step seq (i, e) by k = Some seqs"
  have s: "sorted_wrt (<) (vec_insert (seq, i) (at_key by (entry_key e)))"
    using by_ok_sorted [OF assms] by (rule sorted_vec_insert)
  have ne: "vec_insert (seq, i) (at_key by (entry_key e)) \<noteq> []"
    using set_vec_insert [of "(seq, i)" "at_key by (entry_key e)"] by force
  show "seqs \<noteq> [] \<and> sorted_wrt (<) seqs"
    using u s ne by_okD [OF assms, of k seqs]
    by (auto simp: index_step_def at_key_def [symmetric] split: if_splits)
qed

lemma index_fold:
  assumes "by_ok by"
  shows "by_ok (fold (index_step seq) ies by) \<and>
     set (at_key (fold (index_step seq) ies by) k)
       = set (at_key by k) \<union> {(seq, i) |i e. (i, e) \<in> set ies \<and> entry_key e = k}"
  using assms
proof (induction ies arbitrary: "by")
  case (Cons ie ies)
  obtain i e where ie: "ie = (i, e)" by fastforce
  let ?by = "index_step seq (i, e) by"
  have ok: "by_ok ?by" using Cons.prems by (rule index_step_ok)
  have "set (at_key ?by k) = set (at_key by k) \<union> (if k = entry_key e then {(seq, i)} else {})"
    by (simp add: at_key_index set_vec_insert)
  then show ?case using Cons.IH [OF ok] ie by auto
qed simp

lemma in_enumerate: "(i, e) \<in> set (enumerate 0 es) \<longleftrightarrow> i < length es \<and> e = es ! i"
  by (auto simp: in_set_enumerate_eq)

lemma cached_entries_prune: "cached_entries (prune_cached c) = map retain_foldable_producers (cached_entries c)"
  by (simp add: cached_entries_def prune_cached_def)

lemma entry_key_retain [simp]: "entry_key (retain_foldable_producers e) = entry_key e"
  by (cases "se_topic_id e") (simp_all add: entry_key_def entry_substream_def retain_foldable_producers_def)

lemma unindex_segment_sel [simp]:
  "pi_segments (unindex_segment seq idx) = pi_segments idx"
  by (simp add: unindex_segment_def split: option.split)

lemma unindex_segment_by:
  assumes "in_step idx"
  shows "by_ok (pi_by_substream (unindex_segment seq idx)) \<and>
     set (at_key (pi_by_substream (unindex_segment seq idx)) k) = {x \<in> held (pi_segments idx) k. fst x \<noteq> seq}"
proof (cases "bt_get (pi_segments idx) seq")
  case None
  then show ?thesis using in_stepD [OF assms] by (auto simp: unindex_segment_def held_def)
next
  case (Some c)
  have ok: "by_ok (pi_by_substream idx)"
    and held: "set (at_key (pi_by_substream idx) k) = held (pi_segments idx) k"
    using in_stepD [OF assms] by blast+
  have look: "pi_by_substream (unindex_segment seq idx)
      = fold (unindex_step seq) (enumerate 0 (cached_entries c)) (pi_by_substream idx)"
    using Some by (simp add: unindex_segment_def cached_entries_def)
  have own: "(seq, i) \<in> held (pi_segments idx) k \<longleftrightarrow> i < length (cached_entries c) \<and> entry_key (cached_entries c ! i) = k" for i
    using Some by (simp add: held_def)
  show ?thesis
    using unindex_fold [OF ok, of seq "enumerate 0 (cached_entries c)" k]
    unfolding look held in_enumerate by (auto simp: own)
qed

lemma held_insert:
  "held (bt_insert seq c segs) k =
     {x \<in> held segs k. fst x \<noteq> seq} \<union> {(seq, i) |i. i < length (cached_entries c) \<and> entry_key (cached_entries c ! i) = k}"
  by (auto simp: held_def bt_get_insert split: if_splits)

lemma insert_segment_in_step:
  assumes "in_step idx"
  shows "in_step (insert_segment seq c idx)"
proof -
  let ?u = "unindex_segment seq idx"
  let ?c = "prune_cached c"
  let ?by = "fold (index_step seq) (enumerate 0 (cached_entries ?c)) (pi_by_substream ?u)"
  have ins: "pi_segments (insert_segment seq c idx) = bt_insert seq ?c (pi_segments idx)"
    "pi_by_substream (insert_segment seq c idx) = ?by"
    by (simp_all add: insert_segment_def Let_def cached_entries_def)
  have ok: "by_ok (pi_by_substream ?u)" using unindex_segment_by [OF assms] by blast
  have "set (at_key ?by k) = held (bt_insert seq ?c (pi_segments idx)) k" for k
    using index_fold [OF ok, of seq "enumerate 0 (cached_entries ?c)" k] unindex_segment_by [OF assms, of seq k]
    unfolding in_enumerate held_insert by auto
  moreover have "by_ok ?by" using index_fold [OF ok] by blast
  moreover have "bt_inv (bt_insert seq ?c (pi_segments idx))"
    using assms by (simp add: in_step_def bt.inv_ins)
  ultimately show ?thesis unfolding in_step_def ins by blast
qed

lemma at_key_retain: "at_key (retain_by keep by) k = filter (\<lambda>(seq, _). keep seq) (at_key by k)"
  by (simp add: at_key_def retain_by_def Let_def split: option.split)

lemma retain_by_ok:
  assumes "by_ok by"
  shows "by_ok (retain_by keep by)"
proof (rule by_okI)
  fix k seqs assume r: "retain_by keep by k = Some seqs"
  then have "seqs = filter (\<lambda>(seq, _). keep seq) (at_key by k)" "seqs \<noteq> []"
    by (auto simp: retain_by_def at_key_def Let_def split: option.splits if_splits)
  then show "seqs \<noteq> [] \<and> sorted_wrt (<) seqs"
    using by_ok_sorted [OF assms, of k] by (simp add: sorted_wrt_filter)
qed

lemma held_retain: "held (bt_retain keep segs) k = {x \<in> held segs k. keep (fst x)}"
  by (auto simp: held_def bt_get_retain split: if_splits)

lemma retain_nothing_dropped:
  assumes "\<not> 0 < length segs - length (bt_retain keep segs)"
  shows "bt_retain keep segs = segs"
proof (rule ccontr)
  assume "bt_retain keep segs \<noteq> segs"
  then obtain x where "x \<in> set segs" "\<not> (\<lambda>(k, _). keep k) x"
    unfolding bt_retain_def filter_id_conv by blast
  then have "length (bt_retain keep segs) < length segs"
    unfolding bt_retain_def by (rule length_filter_less)
  with assms show False by simp
qed

lemma retain_segments_in_step:
  assumes "in_step idx"
  shows "in_step (fst (retain_segments keep idx))"
proof (cases "0 < length (pi_segments idx) - length (bt_retain keep (pi_segments idx))")
  case True
  have "set (at_key (retain_by keep (pi_by_substream idx)) k) = held (bt_retain keep (pi_segments idx)) k" for k
    using in_stepD(3) [OF assms, of k] by (auto simp: at_key_retain held_retain)
  then show ?thesis using True assms
    by (simp add: retain_segments_def Let_def in_step_def bt.inv_retain retain_by_ok)
next
  case False
  then show ?thesis using assms retain_nothing_dropped [OF False]
    by (simp add: retain_segments_def Let_def)
qed

section \<open>The lookup answers what a walk over every footer answers\<close>

text \<open>
  The reference: every segment of the prefix in ascending sequence, and in each every footer entry of
  the sub-stream and partition.
\<close>

definition own_positions :: "cached_segment \<Rightarrow> substream_key \<Rightarrow> nat list" where
  "own_positions c k = filter (\<lambda>i. entry_key (cached_entries c ! i) = k) [0..<length (cached_entries c)]"

definition scan_entries :: "(seqno, cached_segment) btree \<Rightarrow> substream_key \<Rightarrow> (seqno \<times> int \<times> substream_entry) list" where
  "scan_entries segs k =
     concat (map (\<lambda>(seq, c). map (\<lambda>e. (seq, sf_writer_epoch (cs_footer c), e))
                                  (filter (\<lambda>e. entry_key e = k) (cached_entries c))) segs)"

definition positions_of :: "(seqno, cached_segment) btree \<Rightarrow> substream_key \<Rightarrow> (seqno \<times> nat) list" where
  "positions_of segs k = concat (map (\<lambda>(seq, c). map (Pair seq) (own_positions c k)) segs)"

lemma set_positions_of: "bt_inv segs \<Longrightarrow> set (positions_of segs k) = held segs k"
  by (auto simp: positions_of_def own_positions_def held_def bt_get_in)

lemma positions_of_Cons:
  "positions_of ((seq, c) # segs) k = map (Pair seq) (own_positions c k) @ positions_of segs k"
  by (simp add: positions_of_def)

lemma positions_of_sorted: "bt_inv segs \<Longrightarrow> sorted_wrt (<) (positions_of segs k)"
proof (induction segs)
  case (Cons sc segs)
  obtain seq c where sc: "sc = (seq, c)" by fastforce
  have inv: "bt_inv segs" and above: "\<forall>s \<in> set (map fst segs). seq < s"
    using Cons.prems by (auto simp: bt_inv_def sc)
  have "sorted_wrt (<) (map (Pair seq) (own_positions c k))"
    by (simp add: own_positions_def sorted_wrt_map sorted_wrt_filter sorted_wrt_upt)
  moreover have "\<forall>x \<in> set (positions_of segs k). seq < fst x"
    using above by (auto simp: positions_of_def)
  ultimately show ?case
    using Cons.IH [OF inv] by (auto simp: sc positions_of_Cons sorted_wrt_append)
qed (simp add: positions_of_def)

lemma in_step_positions: "in_step idx \<Longrightarrow> at_key (pi_by_substream idx) k = positions_of (pi_segments idx) k"
  using in_stepD(1,2) [of idx] in_stepD(3) [of idx k]
  by (intro strict_sorted_unique) (simp_all add: by_ok_sorted positions_of_sorted set_positions_of)

definition located :: "prefix_index \<Rightarrow> seqno \<times> nat \<Rightarrow> (seqno \<times> int \<times> substream_entry) option" where
  "located idx = (\<lambda>(seq, position).
       case bt_get (pi_segments idx) seq of
         None \<Rightarrow> None
       | Some cached \<Rightarrow>
           let es = sf_entries (cs_footer cached)
           in if position < length es
              then Some (seq, sf_writer_epoch (cs_footer cached), es ! position) else None)"

lemma substream_entries_located:
  "substream_entries idx s p = List.map_filter (located idx) (at_key (pi_by_substream idx) (s, p))"
  by (simp add: substream_entries_def located_def at_key_def)

lemma map_filter_concat: "List.map_filter f (concat xss) = concat (map (List.map_filter f) xss)"
  by (induction xss) (simp_all add: map_filter_def)

lemma map_filter_all: "(\<And>x. x \<in> set xs \<Longrightarrow> f x = Some (g x)) \<Longrightarrow> List.map_filter f xs = map g xs"
  by (induction xs) (simp_all add: List.map_filter_simps)

lemma filter_nth_map: "map (\<lambda>i. g (xs ! i)) (filter (\<lambda>i. P (xs ! i)) [0..<length xs]) = map g (filter P xs)"
proof -
  have "map (\<lambda>i. g (xs ! i)) (filter (\<lambda>i. P (xs ! i)) [0..<length xs])
      = map g (filter P (map ((!) xs) [0..<length xs]))"
    by (simp add: filter_map o_def)
  then show ?thesis by (simp add: map_nth)
qed

lemma substream_entries_scan:
  assumes "in_step idx"
  shows "substream_entries idx s p = scan_entries (pi_segments idx) (s, p)"
proof -
  let ?k = "(s, p)"
  have inv: "bt_inv (pi_segments idx)" using in_stepD [OF assms] by blast
  have row: "List.map_filter (located idx) (map (Pair seq) (own_positions c ?k))
      = map (\<lambda>e. (seq, sf_writer_epoch (cs_footer c), e)) (filter (\<lambda>e. entry_key e = ?k) (cached_entries c))"
    if "(seq, c) \<in> set (pi_segments idx)" for seq c
  proof -
    have g: "bt_get (pi_segments idx) seq = Some c" using that inv by (simp add: bt_get_in)
    have "List.map_filter (located idx) (map (Pair seq) (own_positions c ?k))
        = map (\<lambda>x. (seq, sf_writer_epoch (cs_footer c), cached_entries c ! snd x)) (map (Pair seq) (own_positions c ?k))"
      by (rule map_filter_all) (auto simp: located_def g own_positions_def cached_entries_def)
    also have "\<dots> = map (\<lambda>i. (seq, sf_writer_epoch (cs_footer c), cached_entries c ! i)) (own_positions c ?k)"
      by (simp add: o_def)
    finally show ?thesis
      unfolding own_positions_def
      by (simp only: filter_nth_map [where xs = "cached_entries c" and P = "\<lambda>e. entry_key e = ?k"
            and g = "\<lambda>e. (seq, sf_writer_epoch (cs_footer c), e)"])
  qed
  show ?thesis
    unfolding substream_entries_located in_step_positions [OF assms] positions_of_def map_filter_concat
      scan_entries_def map_map
    by (rule arg_cong [of _ _ concat], rule map_cong [OF refl]) (use row in auto)
qed

section \<open>The fenced view covers exactly the offsets held\<close>

definition span :: "substream_entry \<Rightarrow> int set" where
  "span e = {se_base_offset e ..< entry_end e}"

definition spans :: "ranked_entry list \<Rightarrow> int set" where
  "spans segs = (\<Union>(_, _, e) \<in> set segs. span e)"

definition served :: "fenced_segment \<Rightarrow> int set" where
  "served f = {fs_served_from f ..< fenced_end f}"

lemma spans_Cons [simp]: "spans ((epoch, seq, e) # segs) = span e \<union> spans segs"
  by (simp add: spans_def)

lemma tail_outranked_covers:
  "tail_outranked later rank covered to \<Longrightarrow> {covered ..< to} \<subseteq> spans later"
proof (induction later rank covered to rule: tail_outranked.induct)
  case (2 epoch seq e later rank covered to)
  show ?case
  proof (cases "rank < (epoch, seq)")
    case True
    let ?c = "max covered (se_base_offset e + se_record_count e)"
    have base: "se_base_offset e \<le> covered" using 2(3) by (simp split: if_splits)
    have "{?c ..< to} \<subseteq> spans later"
    proof (cases "to \<le> ?c")
      case False
      then have "tail_outranked later rank ?c to" using 2(3) True base by (simp add: Let_def)
      then show ?thesis using 2(1) [OF _ True refl False] base by simp
    qed simp
    moreover have "{covered ..< ?c} \<subseteq> span e" using base by (auto simp: span_def entry_end_def)
    moreover have "{covered ..< to} \<subseteq> {covered ..< ?c} \<union> {?c ..< to}" by auto
    ultimately show ?thesis by auto
  next
    case False
    then have "tail_outranked later rank covered to" using 2(3) by (simp split: if_splits)
    then show ?thesis using 2(2) False 2(3) by (auto split: if_splits)
  qed
qed simp

abbreviation ranked_base :: "ranked_entry \<Rightarrow> int" where
  "ranked_base r \<equiv> se_base_offset (snd (snd r))"

lemma fence_covers:
  "sorted_wrt (\<le>) (map ranked_base segs) \<Longrightarrow>
   (\<Union>f \<in> set (fence covered_to rank segs). served f) = spans segs \<inter> {covered_to ..}"
proof (induction covered_to rank segs rule: fence.induct)
  case (2 covered_to rank epoch seq e segs)
  let ?fin = "se_base_offset e + se_record_count e"
  have sorted: "sorted_wrt (\<le>) (map ranked_base segs)"
    and low: "\<forall>r \<in> set segs. se_base_offset e \<le> ranked_base r"
    using 2(4) by auto
  have span: "span e = {se_base_offset e ..< ?fin}" by (simp add: span_def entry_end_def)
  have above: "spans segs \<subseteq> {se_base_offset e ..}"
    using low by (fastforce simp: spans_def span_def)
  consider (inside) "?fin \<le> covered_to"
    | (outranked) "\<not> ?fin \<le> covered_to" "se_base_offset e < covered_to \<and> (epoch, seq) < rank
        \<and> tail_outranked segs (epoch, seq) covered_to ?fin"
    | (served) "\<not> ?fin \<le> covered_to" "\<not> (se_base_offset e < covered_to \<and> (epoch, seq) < rank
        \<and> tail_outranked segs (epoch, seq) covered_to ?fin)" by blast
  then show ?case
  proof cases
    case inside
    then show ?thesis using 2(1) [OF refl inside sorted] by (auto simp: Let_def span)
  next
    case outranked
    then have "{covered_to ..< ?fin} \<subseteq> spans segs" by (intro tail_outranked_covers) blast
    then show ?thesis
      using 2(2) [OF refl outranked sorted] outranked by (auto simp: Let_def span)
  next
    case served
    have "(\<Union>f \<in> set (fence ?fin (epoch, seq) segs). served f) = spans segs \<inter> {?fin ..}"
      using 2(3) [OF refl served sorted] .
    then show ?thesis
      using served above by (auto simp: Let_def span PrefixIndex.served_def fenced_end_def)
  qed
qed (simp add: spans_def)

lemma fence_disjoint:
  "sorted_wrt (\<lambda>f g. fenced_end f \<le> fs_served_from g) (fence covered_to rank segs) \<and>
   (\<forall>f \<in> set (fence covered_to rank segs). covered_to \<le> fs_served_from f \<and> covered_to < fenced_end f)"
proof (induction covered_to rank segs rule: fence.induct)
  case (2 covered_to rank epoch seq e segs)
  let ?fin = "se_base_offset e + se_record_count e"
  consider (inside) "?fin \<le> covered_to"
    | (outranked) "\<not> ?fin \<le> covered_to" "se_base_offset e < covered_to \<and> (epoch, seq) < rank
        \<and> tail_outranked segs (epoch, seq) covered_to ?fin"
    | (served) "\<not> ?fin \<le> covered_to" "\<not> (se_base_offset e < covered_to \<and> (epoch, seq) < rank
        \<and> tail_outranked segs (epoch, seq) covered_to ?fin)" by blast
  then show ?case
  proof cases
    case inside
    then show ?thesis using 2(1) [OF refl inside] by (simp add: Let_def)
  next
    case outranked
    then show ?thesis using 2(2) [OF refl outranked] by (simp add: Let_def)
  next
    case served
    let ?f = "\<lparr>fs_seq = seq, fs_served_from = (if se_base_offset e < covered_to then covered_to else se_base_offset e), fs_entry = e\<rparr>"
    let ?rest = "fence ?fin (epoch, seq) segs"
    have eq: "fence covered_to rank ((epoch, seq, e) # segs) = ?f # ?rest" using served by (auto simp: Let_def)
    have rest: "sorted_wrt (\<lambda>f g. fenced_end f \<le> fs_served_from g) ?rest"
      "\<forall>f \<in> set ?rest. ?fin \<le> fs_served_from f \<and> ?fin < fenced_end f"
      using 2(3) [OF refl served] by blast+
    have "fenced_end ?f = ?fin" by (simp add: fenced_end_def)
    then show ?thesis unfolding eq using rest served(1) by fastforce
  qed
qed simp

definition fence_sorted :: "prefix_index \<Rightarrow> substream \<Rightarrow> int \<Rightarrow> ranked_entry list" where
  "fence_sorted idx s p =
     sort_key fence_order (map (\<lambda>(seq, epoch, e). (epoch, seq, e)) (substream_entries idx s p))"

lemma fence_sorted_bases: "sorted_wrt (\<le>) (map ranked_base (fence_sorted idx s p))"
proof -
  have "sorted (map fence_order (fence_sorted idx s p))" by (simp add: fence_sorted_def)
  then have "sorted_wrt (\<lambda>x y. fence_order x \<le> fence_order y) (fence_sorted idx s p)"
    by (simp add: sorted_wrt_map)
  then have "sorted_wrt (\<lambda>x y. ranked_base x \<le> ranked_base y) (fence_sorted idx s p)"
    by (rule sorted_wrt_mono_rel [rotated]) (auto simp: fence_order_def less_eq_prod_def)
  then show ?thesis by (simp add: sorted_wrt_map)
qed

definition entry_spans :: "prefix_index \<Rightarrow> substream \<Rightarrow> int \<Rightarrow> int set" where
  "entry_spans idx s p = (\<Union>(_, _, e) \<in> set (substream_entries idx s p). span e)"

lemma spans_fence_sorted: "spans (fence_sorted idx s p) = entry_spans idx s p"
  by (force simp: spans_def entry_spans_def fence_sorted_def)

lemma fenced_view_covers:
  assumes "\<forall>(_, _, e) \<in> set (substream_entries idx s p). - (2 ^ 63) \<le> se_base_offset e"
  shows "(\<Union>f \<in> set (with_fenced_segments idx s p). served f) = entry_spans idx s p"
proof -
  have "(\<Union>f \<in> set (with_fenced_segments idx s p). served f)
      = spans (fence_sorted idx s p) \<inter> {- (2 ^ 63) ..}"
    unfolding with_fenced_segments_def fence_sorted_def [symmetric]
    by (rule fence_covers) (rule fence_sorted_bases)
  moreover have "entry_spans idx s p \<subseteq> {- (2 ^ 63) ..}"
    using assms by (fastforce simp: entry_spans_def span_def)
  ultimately show ?thesis unfolding spans_fence_sorted by auto
qed

lemma fenced_view_disjoint:
  "sorted_wrt (\<lambda>f g. fenced_end f \<le> fs_served_from g) (with_fenced_segments idx s p)"
  unfolding with_fenced_segments_def using fence_disjoint by blast

lemma fence_members: "f \<in> set (fence covered_to rank segs) \<Longrightarrow> \<exists>epoch. (epoch, fs_seq f, fs_entry f) \<in> set segs"
  by (induction covered_to rank segs rule: fence.induct) (auto simp: Let_def split: if_splits)

lemma fenced_view_members:
  "f \<in> set (with_fenced_segments idx s p) \<Longrightarrow> \<exists>epoch. (fs_seq f, epoch, fs_entry f) \<in> set (substream_entries idx s p)"
  unfolding with_fenced_segments_def by (drule fence_members) auto

lemma fenced_view_served_nonempty:
  "f \<in> set (with_fenced_segments idx s p) \<Longrightarrow> se_base_offset (fs_entry f) < fenced_end f \<Longrightarrow> served f \<noteq> {}"
proof -
  have "f \<in> set (fence c r segs) \<Longrightarrow> se_base_offset (fs_entry f) < fenced_end f \<Longrightarrow> fs_served_from f < fenced_end f" for c r segs
    by (induction c r segs rule: fence.induct) (auto simp: Let_def fenced_end_def split: if_splits)
  then show "f \<in> set (with_fenced_segments idx s p) \<Longrightarrow> se_base_offset (fs_entry f) < fenced_end f \<Longrightarrow> served f \<noteq> {}"
    unfolding with_fenced_segments_def by (fastforce simp: served_def)
qed

lemma fenced_view_served_le:
  assumes pos: "\<forall>(_, _, e) \<in> set (substream_entries idx s p). - (2 ^ 63) \<le> se_base_offset e \<and> 0 < se_record_count e"
    and f: "f \<in> set (with_fenced_segments idx s p)"
  shows "fs_served_from f \<le> fenced_end f"
proof -
  obtain epoch where "(fs_seq f, epoch, fs_entry f) \<in> set (substream_entries idx s p)"
    using fenced_view_members [OF f] by blast
  then have "se_base_offset (fs_entry f) < fenced_end f" using pos by (auto simp: fenced_end_def)
  then show ?thesis using fenced_view_served_nonempty [OF f] by (simp add: served_def)
qed

lemma fenced_view_tail:
  assumes pos: "\<forall>(_, _, e) \<in> set (substream_entries idx s p). - (2 ^ 63) \<le> se_base_offset e \<and> 0 < se_record_count e"
  shows "substream_tail idx s p = map_option fenced_end (next_back (with_fenced_segments idx s p))"
proof (cases "substream_entries idx s p = []")
  case True
  then show ?thesis by (simp add: substream_tail_def with_fenced_segments_def next_back_def)
next
  case False
  let ?view = "with_fenced_segments idx s p"
  let ?ends = "(\<lambda>(_, _, e). se_base_offset e + se_record_count e) ` set (substream_entries idx s p)"
  have cov: "(\<Union>f \<in> set ?view. served f) = entry_spans idx s p"
    using pos by (intro fenced_view_covers) auto
  have fin: "finite ?ends" "?ends \<noteq> {}" using False by auto
  obtain seq epoch e where e: "(seq, epoch, e) \<in> set (substream_entries idx s p)"
    and m: "Max ?ends = se_base_offset e + se_record_count e"
    using Max_in [OF fin] by auto
  have "Max ?ends - 1 \<in> span e" using m e pos by (auto simp: span_def entry_end_def)
  then have "Max ?ends - 1 \<in> entry_spans idx s p" using e by (auto simp: entry_spans_def)
  then obtain f where f: "f \<in> set ?view" "Max ?ends - 1 < fenced_end f"
    unfolding cov [symmetric] by (auto simp: served_def)
  have le: "fenced_end g \<le> Max ?ends" if g: "g \<in> set ?view" for g
  proof -
    obtain epoch where "(fs_seq g, epoch, fs_entry g) \<in> set (substream_entries idx s p)"
      using fenced_view_members [OF g] by blast
    then have "fenced_end g \<in> ?ends" by (force simp: fenced_end_def)
    then show ?thesis using fin(1) by (rule Max_ge [rotated])
  qed
  obtain xs l where view: "?view = xs @ [l]" using f(1) by (metis append_butlast_last_id empty_iff empty_set)
  have "fenced_end f \<le> fenced_end l"
  proof (cases "f = l")
    case False
    then have "f \<in> set xs" using f view by simp
    then have "fenced_end f \<le> fs_served_from l"
      using fenced_view_disjoint [of idx s p] by (auto simp: view sorted_wrt_append)
    also have "\<dots> \<le> fenced_end l" by (rule fenced_view_served_le [OF pos]) (simp add: view)
    finally show ?thesis .
  qed simp
  then have "fenced_end l = Max ?ends" using le [of l] f by (simp add: view)
  then show ?thesis using False by (simp add: substream_tail_def Let_def next_back_def view)
qed

section \<open>The states of an index\<close>

text \<open>
  The indexes a replica can hold: the empty one, and what inserting a decoded footer, invalidating,
  pruning retired sequences and reconciling with a listing make of it.
\<close>

inductive index_reach :: "prefix_index \<Rightarrow> bool" where
  empty: "index_reach PrefixIndex_default"
| inserted: "index_reach idx \<Longrightarrow> index_reach (index_insert now seq footer last_modified idx)"
| invalidated: "index_reach idx \<Longrightarrow> index_reach (index_invalidate idx)"
| pruned: "index_reach idx \<Longrightarrow> index_reach (index_prune seqs idx)"
| reconciled: "index_reach idx \<Longrightarrow> index_reach (reconcile live idx)"

lemma in_step_update [simp]:
  "in_step (idx\<lparr>pi_refreshed_at := t\<rparr>) = in_step idx"
  "in_step (idx\<lparr>pi_reconciled_at := t\<rparr>) = in_step idx"
  "in_step (idx\<lparr>pi_generation := g\<rparr>) = in_step idx"
  "in_step (idx\<lparr>pi_opaque := qs\<rparr>) = in_step idx"
  "in_step (idx\<lparr>pi_seq_floor := f\<rparr>) = in_step idx"
  by (simp_all add: in_step_def)

lemma in_step_default: "in_step PrefixIndex_default"
  unfolding in_step_def PrefixIndex_default_def
  by (simp add: bt_inv_def by_ok_def at_key_def held_def bt_get_def)

lemma index_reach_in_step: "index_reach idx \<Longrightarrow> in_step idx"
proof (induction rule: index_reach.induct)
  case empty
  show ?case by (rule in_step_default)
next
  case (inserted idx now seq footer last_modified)
  then show ?case by (simp add: index_insert_def insert_segment_in_step)
next
  case (invalidated idx)
  then show ?case by (simp add: index_invalidate_def)
next
  case (pruned idx seqs)
  then show ?case by (simp add: index_prune_def Let_def retain_segments_in_step)
next
  case (reconciled idx live)
  then show ?case by (cases "next_back live") (simp_all add: reconcile_def Let_def retain_segments_in_step)
qed

section \<open>Properties\<close>

definition sample_index :: prefix_index where
  "sample_index = index_insert 0 4 sample_footer 0 PrefixIndex_default"

lemma sample_index_reach: "index_reach sample_index"
  unfolding sample_index_def by (intro index_reach.intros)

lemma sample_index_entries:
  "substream_entries sample_index (SName ''orders'') 2
     = [(4, 3, retain_foldable_producers (hd (sf_entries sample_footer)))]"
  by (simp add: substream_entries_scan [OF index_reach_in_step [OF sample_index_reach]])
    (simp add: sample_index_def index_insert_def insert_segment_def unindex_segment_def PrefixIndex_default_def
      bt_get_def Let_def scan_entries_def cached_entries_def prune_cached_def sample_footer_def entry_key_def
      entry_substream_def retain_foldable_producers_def)

lemma sample_entry_sel:
  "se_base_offset (retain_foldable_producers (hd (sf_entries sample_footer))) = 10"
  "se_record_count (retain_foldable_producers (hd (sf_entries sample_footer))) = 4"
  by (simp_all add: sample_footer_def retain_foldable_producers_def)

text \<open>
  C12. In every state an index can reach, the lookup by sub-stream answers exactly what a walk over every
  cached footer answers: the same entries, in ascending sequence and footer order, none missing and
  none stale.
\<close>

theorem lookup_is_full_scan:
  assumes "index_reach idx"
  shows "substream_entries idx s p = scan_entries (pi_segments idx) (s, p)"
  using assms by (intro substream_entries_scan index_reach_in_step)

theorem lookup_is_full_scan_witness:
  "substream_entries sample_index (SName ''orders'') 2 = scan_entries (pi_segments sample_index) (SName ''orders'', 2)"
  by (rule lookup_is_full_scan [OF sample_index_reach])

text \<open>
  C6. The fenced view neither loses nor repeats a record: the ranges it serves are disjoint and
  ascending, and together they are exactly the offsets held by some entry of the sub-stream,
  whatever overlaps compaction and competing writers left in the index.
\<close>

theorem fenced_view_exact:
  assumes "\<forall>(_, _, e) \<in> set (substream_entries idx s p). - (2 ^ 63) \<le> se_base_offset e"
  shows "(\<Union>f \<in> set (with_fenced_segments idx s p). served f)
           = (\<Union>(_, _, e) \<in> set (substream_entries idx s p). span e) \<and>
         sorted_wrt (\<lambda>f g. fenced_end f \<le> fs_served_from g) (with_fenced_segments idx s p)"
  using fenced_view_covers [OF assms] fenced_view_disjoint by (simp add: entry_spans_def)

theorem fenced_view_exact_witness:
  "(\<Union>f \<in> set (with_fenced_segments sample_index (SName ''orders'') 2). served f) = {10 ..< 14}"
  using fenced_view_exact [of sample_index "SName ''orders''" 2]
  by (simp add: sample_index_entries sample_entry_sel span_def entry_end_def)

text \<open>
  The tail computed without the fenced view, the greatest end over the entries of the sub-stream, is
  the end of the last segment the fenced view serves.
\<close>

lemma substream_tail_is_fenced_tail:
  assumes "\<forall>(_, _, e) \<in> set (substream_entries idx s p). - (2 ^ 63) \<le> se_base_offset e \<and> 0 < se_record_count e"
  shows "substream_tail idx s p = map_option fenced_end (next_back (with_fenced_segments idx s p))"
  using assms by (rule fenced_view_tail)


definition spanning :: "int \<Rightarrow> int \<Rightarrow> substream_entry" where
  "spanning base count = (hd (sf_entries sample_footer))\<lparr>se_base_offset := base, se_record_count := count\<rparr>"


end
