(* ===== verification/Arbiter.thy ===== *)
theory Arbiter
  imports PrefixIndex
begin

text \<open>
  The segment arbiter (\<open>dynostore/segments.rs\<close> and the flush of \<open>dynostore/coalesce.rs\<close>): the footer
  read, the sequence floor, the choice of the next segment name, the resolution of a create-only PUT,
  the base offset of a flush, and two state machines over them. The object store is the set of named
  objects of the prefix; its answers to a request are arguments of the definitions.
\<close>

section \<open>Reading a footer from the tail of an object\<close>

definition SEGMENT_FOOTER_OVER_READ :: nat where "SEGMENT_FOOTER_OVER_READ = 64 * 1024"

text \<open>A \<open>GetRange::Suffix\<close> request: the last \<open>n\<close> bytes, or the whole object when it is shorter.\<close>

definition suffix_read :: "nat \<Rightarrow> bytes \<Rightarrow> bytes" where
  "suffix_read n obj = drop (length obj - n) obj"

definition read_segment_footer :: "bytes \<Rightarrow> seg_error + segment_footer option" where
  "read_segment_footer obj =
     (let buffer = suffix_read (max SEGMENT_FOOTER_OVER_READ SEGMENT_TRAILER_LEN) obj
      in if length buffer < SEGMENT_TRAILER_LEN then Inr None
         else
           let trailer = drop (length buffer - SEGMENT_TRAILER_LEN) buffer
           in if from_be_u (slice 14 18 trailer) \<noteq> SEGMENT_MAGIC then Inr None
              else
                let footer_len = nat (from_be_u (slice 0 8 trailer))
                in if SEGMENT_TRAILER_LEN + footer_len \<le> length buffer
                   then decode_segment_footer buffer
                   else decode_segment_footer (suffix_read (SEGMENT_TRAILER_LEN + footer_len) obj))"

section \<open>The sequence floor\<close>

definition cached_certified_seq_floor :: "prefix_index \<Rightarrow> nat option" where
  "cached_certified_seq_floor idx =
     (case pi_seq_floor idx of
        None \<Rightarrow> None
      | Some (floor, at) \<Rightarrow> if at = pi_generation idx then Some floor else None)"

text \<open>
  \<open>certified_seq_floor\<close>: the cached floor of the current generation, else the floor read from the
  store, which is cached under the generation seen before the read unless a prune moved it meanwhile
  (\<open>pruned\<close>).
\<close>

definition certified_seq_floor :: "nat \<Rightarrow> bool \<Rightarrow> prefix_index \<Rightarrow> nat \<times> prefix_index" where
  "certified_seq_floor stored pruned idx =
     (case cached_certified_seq_floor idx of
        Some floor \<Rightarrow> (floor, idx)
      | None \<Rightarrow>
          if pruned then (stored, idx\<lparr>pi_generation := pi_generation idx + 1\<rparr>)
          else (stored, idx\<lparr>pi_seq_floor := Some (stored, pi_generation idx)\<rparr>))"

definition probe_seq_floor :: "nat \<Rightarrow> prefix_index \<Rightarrow> nat \<times> prefix_index" where
  "probe_seq_floor stored idx = (stored, idx\<lparr>pi_seq_floor := Some (stored, pi_generation idx)\<rparr>)"

definition invalidate_certified_seq_floor :: "prefix_index \<Rightarrow> prefix_index" where
  "invalidate_certified_seq_floor idx = idx\<lparr>pi_seq_floor := None\<rparr>"

definition next_name :: "seqno option \<Rightarrow> nat \<Rightarrow> seqno" where
  "next_name resolved floor = max (case resolved of None \<Rightarrow> 0 | Some m \<Rightarrow> m + 1) floor"

definition tail_next_seq :: "seqno list \<Rightarrow> nat \<Rightarrow> seqno" where
  "tail_next_seq listed stored =
     next_name (fold (\<lambda>seq m. Some (case m of None \<Rightarrow> seq | Some m \<Rightarrow> max m seq)) listed None) stored"

definition tail_next_seq_folded :: "nat \<Rightarrow> bool \<Rightarrow> prefix_index \<Rightarrow> seqno \<times> prefix_index" where
  "tail_next_seq_folded stored pruned idx =
     (let listed_max = resolved_max idx;
          (floor, idx') = certified_seq_floor stored pruned idx
      in (next_name listed_max floor, idx'))"

text \<open>
  \<open>raise_seq_floor\<close>: at most sixteen rounds of read, compare and conditional write. Round \<open>i\<close> answers
  the read (\<open>None\<close> when it fails) and the conditional write.
\<close>

datatype cas_result = CasOk | CasLost | CasFailed
datatype raise_result = AlreadyCovered | Raised | RaiseFailed | RaiseExhausted

definition RAISE_ATTEMPTS :: nat where "RAISE_ATTEMPTS = 16"

primrec raise_loop :: "nat \<Rightarrow> nat \<Rightarrow> (nat \<Rightarrow> nat option \<times> cas_result) \<Rightarrow> nat \<Rightarrow> raise_result" where
  "raise_loop 0 i round floor = RaiseExhausted"
| "raise_loop (Suc n) i round floor =
     (case fst (round i) of
        None \<Rightarrow> RaiseFailed
      | Some current \<Rightarrow>
          if floor \<le> current then AlreadyCovered
          else (case snd (round i) of
                  CasOk \<Rightarrow> Raised
                | CasLost \<Rightarrow> raise_loop n (i + 1) round floor
                | CasFailed \<Rightarrow> RaiseFailed))"

definition raise_seq_floor :: "(nat \<Rightarrow> nat option \<times> cas_result) \<Rightarrow> nat \<Rightarrow> raise_result" where
  "raise_seq_floor round floor = raise_loop RAISE_ATTEMPTS 0 round floor"

text \<open>
  \<open>retire_segments\<close>: the floor first, then the deletes in chunks, then the prune of this process's
  index. \<open>deletes i\<close> answers the \<open>i\<close>-th bulk delete. The count returned (\<open>None\<close> on an error), the
  objects whose delete was requested, and the index.
\<close>

definition RETIRE_DELETE_CHUNK :: nat where "RETIRE_DELETE_CHUNK = 1000"

primrec chunk_up :: "nat \<Rightarrow> seqno list \<Rightarrow> seqno list \<Rightarrow> seqno list list" where
  "chunk_up n chunk [] = (if chunk = [] then [] else [chunk])"
| "chunk_up n chunk (seq # seqs) =
     (let chunk = chunk @ [seq]
      in if n \<le> length chunk then chunk # chunk_up n [] seqs else chunk_up n chunk seqs)"

primrec delete_chunks :: "(nat \<Rightarrow> bool) \<Rightarrow> nat \<Rightarrow> seqno list list \<Rightarrow> bool \<times> seqno list" where
  "delete_chunks deletes i [] = (True, [])"
| "delete_chunks deletes i (chunk # chunks) =
     (if deletes i then let (ok, rest) = delete_chunks deletes (i + 1) chunks in (ok, chunk @ rest)
      else (False, chunk))"

definition retire_segments ::
    "(nat \<Rightarrow> nat option \<times> cas_result) \<Rightarrow> (nat \<Rightarrow> bool) \<Rightarrow> seqno list \<Rightarrow> prefix_index
     \<Rightarrow> nat option \<times> seqno list \<times> prefix_index" where
  "retire_segments round deletes seqs idx =
     (if seqs = [] then (Some 0, [], idx)
      else
        let raised = raise_seq_floor round (Max (set seqs) + 1);
            idx = (if raised = Raised then invalidate_certified_seq_floor idx else idx)
        in if raised \<in> {AlreadyCovered, Raised} then
             let (ok, requested) = delete_chunks deletes 0 (chunk_up RETIRE_DELETE_CHUNK [] seqs)
             in if ok then (Some (length requested), requested, index_prune seqs idx)
                else (None, requested, idx)
           else (None, [], idx))"

section \<open>Resolving a create\<close>

datatype put_result = PutOk | PutAlreadyExists | PutFailed
datatype probe_result = ProbeFooter segment_footer | ProbeNoFooter | ProbeFailed
datatype segment_create = Won | Lost bool | Failed

definition resolve_segment_create :: "int \<Rightarrow> put_result \<Rightarrow> probe_result \<Rightarrow> segment_create" where
  "resolve_segment_create nonce result probe =
     (case result of
        PutOk \<Rightarrow> Won
      | PutAlreadyExists \<Rightarrow> Lost False
      | PutFailed \<Rightarrow>
          (case probe of
             ProbeFooter found \<Rightarrow> if sf_nonce found = nonce then Won else Lost True
           | ProbeNoFooter \<Rightarrow> Failed
           | ProbeFailed \<Rightarrow> Failed))"

text \<open>
  The loop of \<open>assign_and_create_segment\<close>: attempt \<open>i\<close> answers the PUT at the current candidate, the
  probe of its footer, and the candidate derived by the refresh after a loss (\<open>None\<close> when the refresh
  fails). It returns the sequence won, or the error that ended the loop.
\<close>

datatype create_error = CreateFailed | CreateExhausted | RefreshFailed

type_synonym attempt = "put_result \<times> probe_result \<times> seqno option"

definition MAX_ATTEMPTS :: nat where "MAX_ATTEMPTS = 64"

primrec assign_loop :: "nat \<Rightarrow> nat \<Rightarrow> seqno \<Rightarrow> int \<Rightarrow> (nat \<Rightarrow> attempt) \<Rightarrow> create_error + seqno" where
  "assign_loop 0 i candidate nonce env = Inl CreateExhausted"
| "assign_loop (Suc n) i candidate nonce env =
     (case env i of
        (put, probe, next_candidate) \<Rightarrow>
          (case resolve_segment_create nonce put probe of
             Won \<Rightarrow> Inr candidate
           | Lost _ \<Rightarrow>
               (case next_candidate of
                  None \<Rightarrow> Inl RefreshFailed
                | Some c \<Rightarrow> assign_loop n (i + 1) c nonce env)
           | Failed \<Rightarrow> Inl CreateFailed))"

definition first_candidate :: "seqno option \<Rightarrow> nat \<Rightarrow> seqno list \<Rightarrow> seqno" where
  "first_candidate cached_seq stored listed =
     (case cached_seq of Some seq \<Rightarrow> max seq stored | None \<Rightarrow> tail_next_seq listed stored)"

definition assign_and_create_segment ::
    "seqno option \<Rightarrow> nat \<Rightarrow> seqno list \<Rightarrow> int \<Rightarrow> (nat \<Rightarrow> attempt) \<Rightarrow> create_error + seqno" where
  "assign_and_create_segment cached_seq stored listed nonce env =
     assign_loop MAX_ATTEMPTS 0 (first_candidate cached_seq stored listed) nonce env"

definition set_seq :: "seqno \<Rightarrow> seqno option \<Rightarrow> seqno option" where
  "set_seq next cached = Some (max (case cached of None \<Rightarrow> 0 | Some n \<Rightarrow> n) next)"

section \<open>The era epoch\<close>

definition max_footer_epoch :: "prefix_index \<Rightarrow> int" where
  "max_footer_epoch idx =
     (let es = map (\<lambda>(_, c). sf_writer_epoch (cs_footer c)) (pi_segments idx)
      in if es = [] then 0 else Max (set es))"

text \<open>The era stored for the prefix, or the one this writer seeds; \<open>raced\<close> is a peer's seed that won.\<close>

definition seed_era_epoch :: "int option \<Rightarrow> int option \<Rightarrow> int \<Rightarrow> int option \<Rightarrow> prefix_index \<Rightarrow> int" where
  "seed_era_epoch cached stored lease_epoch raced idx =
     (case cached of
        Some era \<Rightarrow> era
      | None \<Rightarrow>
          (case stored of
             Some era \<Rightarrow> era
           | None \<Rightarrow>
               (case raced of
                  Some era \<Rightarrow> era
                | None \<Rightarrow> max lease_epoch (max_footer_epoch idx) + 1)))"

section \<open>The base offset of a flush\<close>

text \<open>
  \<open>leaseless_base\<close>. The persisted floor is a store read that may fail; the code takes
  \<open>unwrap_or(0)\<close> of it.
\<close>

definition leaseless_base :: "prefix_index \<Rightarrow> substream \<Rightarrow> int \<Rightarrow> int option \<Rightarrow> int option \<Rightarrow> int" where
  "leaseless_base idx s p cached_high persisted_high =
     (let segment_tail = (case substream_tail idx s p of None \<Rightarrow> 0 | Some t \<Rightarrow> t);
          cached = (case cached_high of None \<Rightarrow> 0 | Some c \<Rightarrow> c);
          floor = (case persisted_high of None \<Rightarrow> 0 | Some h \<Rightarrow> h)
      in max (max segment_tail cached) floor)"

definition set_high :: "int \<Rightarrow> int option \<Rightarrow> int option" where
  "set_high high hint = Some (max (case hint of None \<Rightarrow> 0 | Some h \<Rightarrow> h) high)"

section \<open>Lemmas\<close>

lemma decode_segment_footer_suffix:
  assumes "SEGMENT_TRAILER_LEN \<le> n" and "n \<le> length obj"
    and "SEGMENT_TRAILER_LEN + nat (from_be_u (slice 0 8 (drop (length obj - SEGMENT_TRAILER_LEN) obj))) \<le> n"
  shows "decode_segment_footer (suffix_read n obj) = decode_segment_footer obj"
proof -
  let ?b = "suffix_read n obj"
  have lb: "length ?b = n" using assms(2) by (simp add: suffix_read_def)
  have tr: "drop (length ?b - SEGMENT_TRAILER_LEN) ?b = drop (length obj - SEGMENT_TRAILER_LEN) obj"
    using assms by (simp add: lb) (simp add: suffix_read_def)
  let ?fl = "nat (from_be_u (slice 0 8 (drop (length obj - SEGMENT_TRAILER_LEN) obj)))"
  have sl: "slice (length ?b - SEGMENT_TRAILER_LEN - ?fl) (length ?b - SEGMENT_TRAILER_LEN) ?b
      = slice (length obj - SEGMENT_TRAILER_LEN - ?fl) (length obj - SEGMENT_TRAILER_LEN) obj"
    using assms unfolding lb by (simp add: slice_def suffix_read_def)
  have "length ?b - SEGMENT_TRAILER_LEN \<ge> ?fl" "length obj - SEGMENT_TRAILER_LEN \<ge> ?fl"
    using assms lb by linarith+
  moreover have "\<not> length ?b < SEGMENT_TRAILER_LEN" "\<not> length obj < SEGMENT_TRAILER_LEN"
    using assms lb by linarith+
  ultimately show ?thesis
    unfolding decode_segment_footer_def Let_def tr sl by (simp only: not_less [symmetric] if_False if_True simp_thms)
qed

lemma suffix_read_trailer:
  assumes "SEGMENT_TRAILER_LEN \<le> n" and "SEGMENT_TRAILER_LEN \<le> length obj"
  shows "drop (length (suffix_read n obj) - SEGMENT_TRAILER_LEN) (suffix_read n obj)
           = drop (length obj - SEGMENT_TRAILER_LEN) obj"
  using assms by (simp add: suffix_read_def)

lemma read_segment_footer_eq: "read_segment_footer obj = decode_segment_footer obj"
proof (cases "length obj < SEGMENT_TRAILER_LEN")
  case True
  then show ?thesis
    by (simp add: read_segment_footer_def decode_segment_footer_def Let_def suffix_read_def)
next
  case False
  let ?n = "max SEGMENT_FOOTER_OVER_READ SEGMENT_TRAILER_LEN"
  let ?b = "suffix_read ?n obj"
  let ?tr = "drop (length obj - SEGMENT_TRAILER_LEN) obj"
  let ?fl = "nat (from_be_u (slice 0 8 ?tr))"
  have lb: "length ?b = min ?n (length obj)" by (simp add: suffix_read_def)
  have nb: "\<not> length ?b < SEGMENT_TRAILER_LEN" using False lb by simp
  have tr: "drop (length ?b - SEGMENT_TRAILER_LEN) ?b = ?tr"
    using False by (intro suffix_read_trailer) simp_all
  have short: "suffix_read k obj = obj" if "length obj \<le> k" for k using that by (simp add: suffix_read_def)
  have fast: "decode_segment_footer ?b = decode_segment_footer obj" if "SEGMENT_TRAILER_LEN + ?fl \<le> length ?b"
  proof (cases "?n \<le> length obj")
    case True
    then show ?thesis using that lb by (intro decode_segment_footer_suffix) simp_all
  next
    case big: False
    then have "length obj \<le> ?n" by linarith
    then show ?thesis by (simp only: short)
  qed
  have slow: "decode_segment_footer (suffix_read (SEGMENT_TRAILER_LEN + ?fl) obj) = decode_segment_footer obj"
  proof (cases "SEGMENT_TRAILER_LEN + ?fl \<le> length obj")
    case True
    then show ?thesis by (intro decode_segment_footer_suffix) simp_all
  qed (simp add: short)
  show ?thesis
  proof (cases "from_be_u (slice 14 18 ?tr) = SEGMENT_MAGIC")
    case True
    then show ?thesis
      using nb fast slow by (simp add: read_segment_footer_def Let_def tr)
  next
    case magic: False
    then show ?thesis
      using nb False by (simp add: read_segment_footer_def decode_segment_footer_def Let_def tr)
  qed
qed

section \<open>Names: creation, the floor and retirement\<close>

text \<open>
  The namespace of one prefix. \<open>n_live\<close> are the objects present, \<open>n_created\<close> every name that was ever
  created, \<open>n_floor\<close> the stored floor; for each replica the highest name it has resolved and the floor
  it last read. A create is a create-only PUT at \<^const>\<open>next_name\<close> of what the replica knows; a
  retirement raises the floor before it deletes.
\<close>

record names =
  n_live :: "seqno set"
  n_created :: "seqno set"
  n_floor :: nat
  n_resolved :: "nat \<Rightarrow> seqno option"
  n_seen_floor :: "nat \<Rightarrow> nat"

definition names_init :: names where
  "names_init = \<lparr>n_live = {}, n_created = {}, n_floor = 0, n_resolved = (\<lambda>_. None), n_seen_floor = (\<lambda>_. 0)\<rparr>"

definition candidate_of :: "names \<Rightarrow> nat \<Rightarrow> seqno" where
  "candidate_of st w = next_name (n_resolved st w) (n_seen_floor st w)"

inductive names_step :: "names \<Rightarrow> names \<Rightarrow> bool" where
  resolve: "s \<in> n_live st \<Longrightarrow>
     names_step st (st\<lparr>n_resolved := (n_resolved st)(w := option_max (n_resolved st w) (Some s))\<rparr>)"
| forget: "r = None \<or> r \<in> Some ` n_created st \<Longrightarrow>
     names_step st (st\<lparr>n_resolved := (n_resolved st)(w := r)\<rparr>)"
| read_floor: "names_step st (st\<lparr>n_seen_floor := (n_seen_floor st)(w := n_floor st)\<rparr>)"
| create: "candidate_of st w \<notin> n_live st \<Longrightarrow>
     names_step st (st\<lparr>n_live := insert (candidate_of st w) (n_live st),
                       n_created := insert (candidate_of st w) (n_created st),
                       n_resolved := (n_resolved st)(w := Some (candidate_of st w))\<rparr>)"
| raise_floor: "n_floor st \<le> f \<Longrightarrow> names_step st (st\<lparr>n_floor := f\<rparr>)"
| delete: "s \<in> n_live st \<Longrightarrow> s < n_floor st \<Longrightarrow> names_step st (st\<lparr>n_live := n_live st - {s}\<rparr>)"

definition names_inv :: "names \<Rightarrow> bool" where
  "names_inv st \<longleftrightarrow>
     n_live st \<subseteq> n_created st \<and>
     (\<forall>s \<in> n_created st. s \<in> n_live st \<or> s < n_floor st) \<and>
     (\<forall>s \<in> n_created st. s = 0 \<or> s - 1 \<in> n_created st \<or> s \<le> n_floor st) \<and>
     (\<forall>w m. n_resolved st w = Some m \<longrightarrow> m \<in> n_created st) \<and>
     (\<forall>w. n_seen_floor st w \<le> n_floor st)"

lemma names_inv_init: "names_inv names_init"
  by (simp add: names_inv_def names_init_def)

lemma option_max_cases:
  "option_max a (Some s) = Some m \<Longrightarrow> m = s \<or> a = Some m"
  by (auto simp: option_max_def max_def split: option.splits if_splits)

lemma candidate_cases:
  assumes "names_inv st"
  shows "candidate_of st w = 0 \<or> candidate_of st w - 1 \<in> n_created st \<or> candidate_of st w \<le> n_floor st"
proof -
  have r: "\<And>m. n_resolved st w = Some m \<Longrightarrow> m \<in> n_created st"
    and f: "n_seen_floor st w \<le> n_floor st"
    using assms by (simp_all add: names_inv_def)
  then show ?thesis
    by (auto simp: candidate_of_def next_name_def max_def split: option.splits if_splits)
qed

lemma names_inv_step: "names_step st st' \<Longrightarrow> names_inv st \<Longrightarrow> names_inv st'"
proof (induction rule: names_step.induct)
  case (resolve s st w)
  then have "s \<in> n_created st" by (auto simp: names_inv_def)
  then have "\<And>m. option_max (n_resolved st w) (Some s) = Some m \<Longrightarrow> m \<in> n_created st"
    using resolve(2) by (auto simp: names_inv_def dest!: option_max_cases)
  with resolve show ?case by (simp add: names_inv_def)
next
  case (forget r st w)
  then show ?case by (auto simp: names_inv_def)
next
  case (read_floor st w)
  then show ?case by (simp add: names_inv_def)
next
  case (create st w)
  then show ?case using candidate_cases [of st w] by (auto simp: names_inv_def split: option.splits)
next
  case (raise_floor st f)
  then show ?case by (auto simp: names_inv_def) (meson less_le_trans le_trans)+
next
  case (delete s st)
  then show ?case by (auto simp: names_inv_def)
qed

lemma names_inv_reachable: "rtranclp names_step st st' \<Longrightarrow> names_inv st \<Longrightarrow> names_inv st'"
  by (induction rule: rtranclp_induct) (auto intro: names_inv_step)

lemma floor_mono_step: "names_step st st' \<Longrightarrow> n_floor st \<le> n_floor st'"
  by (induction rule: names_step.induct) auto

lemma floor_mono: "rtranclp names_step st st' \<Longrightarrow> n_floor st \<le> n_floor st'"
  by (induction rule: rtranclp_induct) (auto dest: floor_mono_step)

lemma live_down:
  assumes inv: "names_inv st" and s: "s \<in> n_live st" and c: "c < s" and f: "n_floor st \<le> c"
  shows "c \<in> n_live st"
proof -
  have "d \<le> s - c \<Longrightarrow> s - d \<in> n_live st" for d
  proof (induction d)
    case 0
    show ?case using s by simp
  next
    case (Suc d)
    then have live: "s - d \<in> n_live st" and gt: "c < s - d" by simp_all
    then have "s - d \<in> n_created st" "s - d \<noteq> 0" "\<not> s - d \<le> n_floor st"
      using inv f by (auto simp: names_inv_def)
    then have "s - d - 1 \<in> n_created st" using inv by (auto simp: names_inv_def)
    moreover have "\<not> s - d - 1 < n_floor st" using gt f by simp
    ultimately have "s - d - 1 \<in> n_live st" using inv by (auto simp: names_inv_def)
    then show ?case by simp
  qed
  from this [of "s - c"] c show ?thesis by simp
qed

lemma probe_sound:
  assumes "names_inv st" and "rtranclp names_step st st'"
    and absent: "cursor + 1 \<notin> n_live st" and floor: "n_floor st' \<le> cursor + 1"
  shows "\<forall>s \<in> n_live st. s \<le> cursor"
proof (rule ccontr)
  assume "\<not> (\<forall>s \<in> n_live st. s \<le> cursor)"
  then obtain s where s: "s \<in> n_live st" "cursor < s" by auto
  with absent have lt: "cursor + 1 < s" by (metis Suc_eq_plus1 Suc_lessI)
  have "n_floor st \<le> cursor + 1" using floor_mono [OF assms(2)] floor by simp
  from live_down [OF assms(1) s(1) lt this] absent show False by simp
qed

lemma fresh_name:
  assumes "names_inv st" and "c \<notin> n_live st" and "n_floor st \<le> c"
  shows "c \<notin> n_created st"
  using assms by (auto simp: names_inv_def)

section \<open>Retirement and creation\<close>

lemma concat_chunk_up: "concat (chunk_up n chunk seqs) = chunk @ seqs"
  by (induction seqs arbitrary: chunk) (simp_all add: Let_def)

lemma delete_chunks_requested:
  "\<exists>rest. concat cs = snd (delete_chunks deletes i cs) @ rest \<and> (fst (delete_chunks deletes i cs) \<longrightarrow> rest = [])"
  by (induction cs arbitrary: i) (auto simp: split_beta Let_def)

lemma raise_loop_covers:
  "raise_loop n i round floor = AlreadyCovered \<Longrightarrow> \<exists>j current. i \<le> j \<and> j < i + n \<and> fst (round j) = Some current \<and> floor \<le> current"
  "raise_loop n i round floor = Raised \<Longrightarrow> \<exists>j. i \<le> j \<and> j < i + n \<and> snd (round j) = CasOk"
  by (induction n arbitrary: i)
    (force split: option.splits if_splits cas_result.splits intro: less_imp_le_nat Suc_leD)+

lemma index_prune_drops: "seq \<in> set seqs \<Longrightarrow> bt_get (pi_segments (index_prune seqs idx)) seq = None"
  by (simp add: index_prune_def retain_segments_def Let_def bt_get_retain)

lemma index_prune_floor:
  "pi_seq_floor (index_prune seqs idx) = pi_seq_floor idx" "pi_generation (index_prune seqs idx) = pi_generation idx + 1"
  by (simp_all add: index_prune_def retain_segments_def Let_def)

text \<open>The candidate of attempt \<open>i\<close>: the first one, then what each refresh derived.\<close>

primrec candidate_at :: "seqno \<Rightarrow> (nat \<Rightarrow> attempt) \<Rightarrow> nat \<Rightarrow> seqno option" where
  "candidate_at c env 0 = Some c"
| "candidate_at c env (Suc i) = snd (snd (env i))"

definition attempt_won :: "int \<Rightarrow> attempt \<Rightarrow> bool" where
  "attempt_won nonce = (\<lambda>(put, probe, _).
     put = PutOk \<or> put = PutFailed \<and> (\<exists>found. probe = ProbeFooter found \<and> sf_nonce found = nonce))"

definition attempt_lost :: "int \<Rightarrow> attempt \<Rightarrow> bool" where
  "attempt_lost nonce = (\<lambda>(put, probe, _).
     put = PutAlreadyExists \<or> put = PutFailed \<and> (\<exists>found. probe = ProbeFooter found \<and> sf_nonce found \<noteq> nonce))"

lemma resolve_cases:
  "resolve_segment_create nonce put probe = Won \<longleftrightarrow> attempt_won nonce (put, probe, c)"
  "(\<exists>ambiguous. resolve_segment_create nonce put probe = Lost ambiguous) \<longleftrightarrow> attempt_lost nonce (put, probe, c)"
  by (auto simp: resolve_segment_create_def attempt_won_def attempt_lost_def
      split: put_result.splits probe_result.splits if_splits)

lemma assign_loop_won:
  "assign_loop n i c nonce env = Inr won \<Longrightarrow>
   \<exists>d < n. attempt_won nonce (env (i + d)) \<and>
           (won = c \<and> d = 0 \<or> 0 < d \<and> snd (snd (env (i + d - 1))) = Some won) \<and>
           (\<forall>j < d. attempt_lost nonce (env (i + j)))"
proof (induction n arbitrary: i c)
  case (Suc n)
  obtain put probe cand where e: "env i = (put, probe, cand)" by (metis prod_cases3)
  show ?case
  proof (cases "resolve_segment_create nonce put probe")
    case Won
    then show ?thesis
      using Suc.prems e resolve_cases(1) [of nonce put probe cand] by (intro exI [of _ 0]) simp
  next
    case (Lost ambiguous)
    then have lost: "attempt_lost nonce (env i)" using e resolve_cases(2) [of nonce put probe cand] by auto
    obtain c' where c': "cand = Some c'" "assign_loop n (i + 1) c' nonce env = Inr won"
      using Suc.prems e Lost by (auto split: option.splits)
    then obtain d where d: "d < n" "attempt_won nonce (env (i + 1 + d))"
      "won = c' \<and> d = 0 \<or> 0 < d \<and> snd (snd (env (i + 1 + d - 1))) = Some won"
      "\<forall>j < d. attempt_lost nonce (env (i + 1 + j))"
      using Suc.IH by blast
    have "\<forall>j < Suc d. attempt_lost nonce (env (i + j))"
      using lost d(4) by (auto simp: less_Suc_eq_0_disj)
    moreover have "snd (snd (env (i + Suc d - 1))) = Some won" using d(3) c'(1) e by auto
    ultimately show ?thesis using d(1,2) by (intro exI [of _ "Suc d"]) simp
  next
    case Failed
    then show ?thesis using Suc.prems e by simp
  qed
qed simp

section \<open>Properties\<close>

text \<open>
  Reading a footer by ranged requests from the end of an object, the 64 KiB over-read and the exact
  second request when the footer is larger, gives for every object what decoding the whole object
  gives.
\<close>

lemma ranged_footer_read_is_full_decode: "read_segment_footer obj = decode_segment_footer obj"
  by (rule read_segment_footer_eq)

text \<open>
  C9. A tail probe is sound: in every history of creates, floor raises and deletes, when the name after
  the cursor is absent and the floor read afterwards does not pass it, no segment above the cursor
  existed at the time of the probe.
\<close>

theorem tail_probe_sound:
  assumes "rtranclp names_step names_init st" and "rtranclp names_step st st'"
    and "cursor + 1 \<notin> n_live st" and "n_floor st' \<le> cursor + 1"
  shows "\<forall>s \<in> n_live st. s \<le> cursor"
  using probe_sound [OF names_inv_reachable [OF assms(1) names_inv_init] assms(2-4)] .

definition one_segment :: names where
  "one_segment = names_init\<lparr>n_live := {0}, n_created := {0}, n_resolved := (n_resolved names_init)(0 := Some 0)\<rparr>"

lemma candidate_init: "candidate_of names_init w = 0"
  by (simp add: candidate_of_def next_name_def names_init_def)

lemma one_segment_step: "names_step names_init one_segment"
  using names_step.create [of names_init 0]
  by (simp add: candidate_init one_segment_def) (simp add: names_init_def)

lemma one_segment_reach: "rtranclp names_step names_init one_segment"
  by (rule r_into_rtranclp) (rule one_segment_step)

theorem tail_probe_sound_witness: "n_live one_segment \<subseteq> {..0}"
  using tail_probe_sound [OF one_segment_reach, of one_segment 0]
  by (simp add: one_segment_def names_init_def)

text \<open>
  C10. A replica that has read the current floor never reuses the name of a retired segment: the name it
  derives, if the create-only PUT succeeds there, was never created before.
\<close>

theorem current_floor_gives_fresh_name:
  assumes "rtranclp names_step names_init st" and "n_seen_floor st w = n_floor st"
    and "candidate_of st w \<notin> n_live st"
  shows "candidate_of st w \<notin> n_created st"
  by (rule fresh_name [OF names_inv_reachable [OF assms(1) names_inv_init] assms(3)])
    (simp add: candidate_of_def next_name_def assms(2) [symmetric])

theorem current_floor_gives_fresh_name_witness: "candidate_of one_segment 0 \<notin> n_created one_segment"
  by (rule current_floor_gives_fresh_name [OF one_segment_reach])
    (simp_all add: one_segment_def names_init_def candidate_of_def next_name_def)


text \<open>
  C21. A create that reports a sequence won it: within the 64 attempts there is one whose PUT succeeded
  or, after an ambiguous failure, whose stored footer carries this writer's nonce; every earlier
  attempt was lost to another writer; and the sequence is the candidate of that attempt.
\<close>

theorem create_returns_own_segment:
  assumes "assign_and_create_segment cached stored listed nonce env = Inr won"
  shows "\<exists>d < 64. attempt_won nonce (env d) \<and> (\<forall>j < d. attempt_lost nonce (env j)) \<and>
           candidate_at (first_candidate cached stored listed) env d = Some won"
proof -
  obtain d where d: "d < 64" "attempt_won nonce (env d)" "\<forall>j < d. attempt_lost nonce (env j)"
    "won = first_candidate cached stored listed \<and> d = 0 \<or> 0 < d \<and> snd (snd (env (d - 1))) = Some won"
    using assign_loop_won [of 64 0 "first_candidate cached stored listed" nonce env won] assms
    by (auto simp: assign_and_create_segment_def MAX_ATTEMPTS_def)
  then show ?thesis by (intro exI [of _ d]) (cases d, auto)
qed

definition lose_then_win :: "nat \<Rightarrow> attempt" where
  "lose_then_win i = (if i = 0 then (PutAlreadyExists, ProbeFailed, Some 8) else (PutOk, ProbeFailed, None))"

theorem create_returns_own_segment_witness:
  "\<exists>d < 64. candidate_at 7 lose_then_win d = Some 8"
proof -
  have "assign_and_create_segment (Some 7) 3 [] 5 lose_then_win = Inr 8"
    by (simp add: assign_and_create_segment_def MAX_ATTEMPTS_def eval_nat_numeral lose_then_win_def
        resolve_segment_create_def)
  from create_returns_own_segment [OF this] show ?thesis by (auto simp: first_candidate_def)
qed

text \<open>
  C20. Nothing is deleted before the floor passes it: when a delete is requested, some round of the floor
  write had read a floor past every retired sequence or won the conditional write of one; only
  sequences to retire are deleted, and on success all of them, after which the index holds none of
  them and any certificate of the floor taken before is void.
\<close>

theorem retire_raises_floor_first:
  assumes "retire_segments round deletes seqs idx = (result, requested, idx')" and "seqs \<noteq> []"
    and "\<forall>floor at. pi_seq_floor idx = Some (floor, at) \<longrightarrow> at \<le> pi_generation idx"
  shows "(requested \<noteq> [] \<longrightarrow> (\<exists>j < 16. snd (round j) = CasOk \<or>
            (\<exists>current. fst (round j) = Some current \<and> Max (set seqs) + 1 \<le> current))) \<and>
         set requested \<subseteq> set seqs \<and>
         (\<forall>n. result = Some n \<longrightarrow> requested = seqs \<and> n = length seqs \<and>
            (\<forall>s \<in> set seqs. bt_get (pi_segments idx') s = None) \<and> cached_certified_seq_floor idx' = None)"
proof -
  let ?raised = "raise_seq_floor round (Max (set seqs) + 1)"
  let ?dc = "delete_chunks deletes 0 (chunk_up RETIRE_DELETE_CHUNK [] seqs)"
  obtain rest where rest: "seqs = snd ?dc @ rest" "fst ?dc \<longrightarrow> rest = []"
    using delete_chunks_requested [of "chunk_up RETIRE_DELETE_CHUNK [] seqs" deletes 0]
    by (auto simp: concat_chunk_up)
  have raised: "\<exists>j < 16. snd (round j) = CasOk \<or>
      (\<exists>current. fst (round j) = Some current \<and> Max (set seqs) + 1 \<le> current)"
    if "?raised \<in> {AlreadyCovered, Raised}"
    using that raise_loop_covers [of 16 0 round "Max (set seqs) + 1"]
    by (auto simp: raise_seq_floor_def RAISE_ATTEMPTS_def)
  let ?i = "if ?raised = Raised then invalidate_certified_seq_floor idx else idx"
  have floor: "cached_certified_seq_floor (index_prune seqs ?i) = None"
    using assms(3)
    by (auto simp: cached_certified_seq_floor_def index_prune_floor invalidate_certified_seq_floor_def split: option.split)
  show ?thesis
  proof (cases "?raised \<in> {AlreadyCovered, Raised}")
    case True
    then have req: "requested = snd ?dc" "result = (if fst ?dc then Some (length requested) else None)"
      "fst ?dc \<longrightarrow> idx' = index_prune seqs ?i"
      using assms(1,2) by (auto simp: retire_segments_def Let_def split_beta split: if_splits)
    have "set requested \<subseteq> set seqs" using rest(1) req(1) by (metis set_append sup_ge1)
    moreover have "\<forall>n. result = Some n \<longrightarrow> requested = seqs \<and> n = length seqs \<and>
        (\<forall>s \<in> set seqs. bt_get (pi_segments idx') s = None) \<and> cached_certified_seq_floor idx' = None"
      using rest req floor index_prune_drops by (cases "fst ?dc") simp_all
    ultimately show ?thesis using raised [OF True] by blast
  next
    case False
    then show ?thesis using assms(1,2) by (simp add: retire_segments_def Let_def split: if_splits)
  qed
qed

theorem retire_raises_floor_first_witness:
  "bt_get (pi_segments (snd (snd (retire_segments (\<lambda>_. (Some 0, CasOk)) (\<lambda>_. True) [4] sample_index)))) 4 = None"
proof -
  have "retire_segments (\<lambda>_. (Some 0, CasOk)) (\<lambda>_. True) [4] sample_index
      = (Some 1, [4], index_prune [4] (invalidate_certified_seq_floor sample_index))"
    by (simp add: retire_segments_def raise_seq_floor_def RAISE_ATTEMPTS_def eval_nat_numeral RETIRE_DELETE_CHUNK_def Let_def)
  moreover have "pi_seq_floor sample_index = None"
    by (simp add: sample_index_def index_insert_def insert_segment_def unindex_segment_def PrefixIndex_default_def
        bt_get_def Let_def)
  ultimately show ?thesis using retire_raises_floor_first [of "\<lambda>_. (Some 0, CasOk)" "\<lambda>_. True" "[4]" sample_index] by simp
qed


end
