(* ===== verification/CoalescedLog.thy ===== *)
theory CoalescedLog
  imports Arbiter "HOL-Library.Char_ord" "HOL-Library.List_Lexorder"
begin

text \<open>
  One attempt of the leaseless flush (\<open>flush_prefix_coalesced_leaseless\<close>, \<open>dynostore/coalesce.rs\<close>): the
  pending batches grouped by topition, the offsets and outcomes given to them, the segment encoded;
  and the log that replicas build together when each of them folds the segments in sequence order and
  appends at the next free name with a create-only PUT.
\<close>

section \<open>One flush attempt\<close>

record pending_batch =
  pd_topition :: topition
  pd_substream :: substream
  pd_batch :: batch

type_synonym topition_key = "string \<times> int"

definition topition_key :: "topition \<Rightarrow> topition_key" where
  "topition_key t = (tp_topic t, tp_partition t)"

definition group_step :: "nat \<times> pending_batch \<Rightarrow> (topition_key, nat list) btree \<Rightarrow> (topition_key, nat list) btree" where
  "group_step = (\<lambda>(index, p) grouped.
     let k = topition_key (pd_topition p)
     in bt_insert k ((case bt_get grouped k of None \<Rightarrow> [] | Some is \<Rightarrow> is) @ [index]) grouped)"

definition group_pending :: "pending_batch list \<Rightarrow> (topition_key, nat list) btree" where
  "group_pending pending = fold group_step (enumerate 0 pending) []"

record flush_plan =
  fp_substreams :: "substream_write list"
  fp_outcomes :: "produce_outcome list"
  fp_advances :: "(topition_key \<times> int) list"

definition plan_group ::
    "(substream \<Rightarrow> int \<Rightarrow> int \<Rightarrow> producer_tail) \<Rightarrow> (substream \<Rightarrow> int \<Rightarrow> int) \<Rightarrow> pending_batch list
     \<Rightarrow> topition_key \<times> nat list \<Rightarrow> flush_plan \<Rightarrow> flush_plan" where
  "plan_group folded base_of pending = (\<lambda>((topic, part), indices) fp.
     case indices of
       [] \<Rightarrow> fp
     | first # _ \<Rightarrow>
         let s = pd_substream (pending ! first);
             base = base_of s part;
             ps = plan_topition (folded s part) base (map (\<lambda>i. pd_batch (pending ! i)) indices);
             fp = fp\<lparr>fp_outcomes := fold (\<lambda>(i, out) outs. outs[i := out]) (zip indices (ps_outcomes ps)) (fp_outcomes fp)\<rparr>
         in if ps_batches ps = [] then fp
            else fp\<lparr>fp_advances := fp_advances fp @ [((topic, part), ps_running ps)],
                    fp_substreams := fp_substreams fp @
                      [\<lparr>sw_topition = \<lparr>tp_topic = topic, tp_partition = part\<rparr>, sw_substream = s,
                        sw_base_offset = base, sw_batches = ps_batches ps\<rparr>]\<rparr>)"

definition flush_attempt ::
    "(substream \<Rightarrow> int \<Rightarrow> int \<Rightarrow> producer_tail) \<Rightarrow> (substream \<Rightarrow> int \<Rightarrow> int) \<Rightarrow> pending_batch list \<Rightarrow> flush_plan" where
  "flush_attempt folded base_of pending =
     fold (plan_group folded base_of pending) (group_pending pending)
       \<lparr>fp_substreams = [], fp_outcomes = replicate (length pending) (Acked 0), fp_advances = []\<rparr>"

text \<open>What the folded index of a replica supplies to the attempt.\<close>

definition index_folded :: "prefix_index \<Rightarrow> substream \<Rightarrow> int \<Rightarrow> int \<Rightarrow> producer_tail" where
  "index_folded idx s p = producer_tail_folded (map fs_entry (with_fenced_segments idx s p))"

section \<open>The writes of an attempt\<close>

definition write_key :: "substream_write \<Rightarrow> substream_key" where
  "write_key w = (sw_substream w, tp_partition (sw_topition w))"

text \<open>The sub-stream of a pending batch is its topic's pin: by name, or by an id no other topic has.\<close>

definition routed :: "(string \<Rightarrow> substream) \<Rightarrow> pending_batch list \<Rightarrow> bool" where
  "routed route pending \<longleftrightarrow>
     inj route \<and> (\<forall>t n. route t = SName n \<longrightarrow> n = t) \<and>
     (\<forall>p \<in> set pending. pd_substream p = route (tp_topic (pd_topition p)))"

definition planned_write ::
    "(substream \<Rightarrow> int \<Rightarrow> int \<Rightarrow> producer_tail) \<Rightarrow> (substream \<Rightarrow> int \<Rightarrow> int) \<Rightarrow> (string \<Rightarrow> substream)
     \<Rightarrow> pending_batch list \<Rightarrow> substream_write \<Rightarrow> bool" where
  "planned_write folded base_of route pending w \<longleftrightarrow>
     sw_substream w = route (tp_topic (sw_topition w)) \<and>
     sw_base_offset w = base_of (sw_substream w) (tp_partition (sw_topition w)) \<and>
     sw_batches w \<noteq> [] \<and>
     (\<exists>bs. set bs \<subseteq> pd_batch ` set pending \<and>
        sw_batches w = ps_batches (plan_topition (folded (sw_substream w) (tp_partition (sw_topition w)))
                                     (sw_base_offset w) bs))"

definition indices_of :: "pending_batch list \<Rightarrow> topition_key \<Rightarrow> nat list" where
  "indices_of pending k = filter (\<lambda>i. topition_key (pd_topition (pending ! i)) = k) [0..<length pending]"

lemma indices_of_snoc:
  "indices_of (ps @ [p]) k = indices_of ps k @ (if topition_key (pd_topition p) = k then [length ps] else [])"
proof -
  have "filter (\<lambda>i. topition_key (pd_topition ((ps @ [p]) ! i)) = k) [0..<length ps] = indices_of ps k"
    unfolding indices_of_def by (rule filter_cong) (auto simp: nth_append)
  then show ?thesis by (simp add: indices_of_def [of "ps @ [p]"])
qed

lemma group_pending_get:
  "bt_inv (group_pending ps) \<and>
   bt_get (group_pending ps) k = (if indices_of ps k = [] then None else Some (indices_of ps k))"
proof (induction ps arbitrary: k rule: rev_induct)
  case Nil
  show ?case by (simp add: group_pending_def indices_of_def bt_inv_def bt_get_def)
next
  case (snoc p ps)
  have "group_pending (ps @ [p]) = group_step (length ps, p) (group_pending ps)"
    by (simp add: group_pending_def enumerate_append_eq)
  then show ?case
    using snoc by (simp add: group_step_def Let_def bt_get_insert indices_of_snoc bt.inv_ins)
qed

lemma group_pending_member:
  assumes "(k, is) \<in> set (group_pending ps)"
  shows "is = indices_of ps k" and "is \<noteq> []"
proof -
  have inv: "bt_inv (group_pending ps)" using group_pending_get by blast
  then have "bt_get (group_pending ps) k = Some is" using assms by (simp add: bt_get_in)
  then show "is = indices_of ps k" "is \<noteq> []"
    using group_pending_get [of ps k] by (auto split: if_splits)
qed

lemma plan_step_subset: "set (ps_batches (plan_step f b s)) \<subseteq> insert b (set (ps_batches s))"
  by (auto simp: plan_step_batches)

lemma plan_batches_subset: "set (ps_batches (plan_topition f base bs)) \<subseteq> set bs"
proof -
  have "set (ps_batches (fold (plan_step f) bs s)) \<subseteq> set bs \<union> set (ps_batches s)" for s
  proof (induction bs arbitrary: s)
    case (Cons b bs)
    have "set (ps_batches (fold (plan_step f) (b # bs) s)) \<subseteq> set bs \<union> set (ps_batches (plan_step f b s))"
      using Cons by simp
    then show ?case using plan_step_subset [of f b s] by auto
  qed simp
  from this [of "\<lparr>ps_tails = Map.empty, ps_running = base, ps_batches = [], ps_outcomes = []\<rparr>"]
  show ?thesis by (simp add: plan_topition_def)
qed

definition written_keys :: "flush_plan \<Rightarrow> topition_key list" where
  "written_keys fp = map (\<lambda>w. topition_key (sw_topition w)) (fp_substreams fp)"

lemma plan_group_writes:
  assumes k: "((topic, part), is) \<in> set (group_pending pending)" and r: "routed route pending"
    and old: "\<forall>w \<in> set (fp_substreams fp). planned_write folded base_of route pending w"
  shows "\<forall>w \<in> set (fp_substreams (plan_group folded base_of pending ((topic, part), is) fp)).
           planned_write folded base_of route pending w"
    and "written_keys (plan_group folded base_of pending ((topic, part), is) fp) = written_keys fp
         \<or> written_keys (plan_group folded base_of pending ((topic, part), is) fp) = written_keys fp @ [(topic, part)]"
proof -
  note m = group_pending_member [OF k]
  from m(2) obtain first rest where isd: "is = first # rest" by (cases "is") auto
  then have "first \<in> set (indices_of pending (topic, part))" using m(1) by simp
  then have f: "first < length pending" "topition_key (pd_topition (pending ! first)) = (topic, part)"
    by (auto simp: indices_of_def)
  then have sub: "pd_substream (pending ! first) = route topic"
    using r by (auto simp: routed_def topition_key_def)
  have idx: "\<forall>i \<in> set is. i < length pending" using m(1) by (auto simp: indices_of_def)
  let ?bs = "map (\<lambda>i. pd_batch (pending ! i)) is"
  have bs: "set ?bs \<subseteq> pd_batch ` set pending" using idx by auto
  show "\<forall>w \<in> set (fp_substreams (plan_group folded base_of pending ((topic, part), is) fp)).
           planned_write folded base_of route pending w"
  proof
    fix w assume "w \<in> set (fp_substreams (plan_group folded base_of pending ((topic, part), is) fp))"
    then have "w \<in> set (fp_substreams fp) \<or>
        (w = \<lparr>sw_topition = \<lparr>tp_topic = topic, tp_partition = part\<rparr>, sw_substream = route topic,
              sw_base_offset = base_of (route topic) part,
              sw_batches = ps_batches (plan_topition (folded (route topic) part) (base_of (route topic) part) ?bs)\<rparr>
         \<and> sw_batches w \<noteq> [])"
      by (auto simp: plan_group_def isd Let_def sub split: if_splits)
    then show "planned_write folded base_of route pending w"
    proof (elim disjE conjE)
      assume "w = \<lparr>sw_topition = \<lparr>tp_topic = topic, tp_partition = part\<rparr>, sw_substream = route topic,
              sw_base_offset = base_of (route topic) part,
              sw_batches = ps_batches (plan_topition (folded (route topic) part) (base_of (route topic) part) ?bs)\<rparr>"
        and "sw_batches w \<noteq> []"
      then show ?thesis unfolding planned_write_def by (intro conjI exI [of _ ?bs] bs) simp_all
    qed (use old in blast)
  qed
  show "written_keys (plan_group folded base_of pending ((topic, part), is) fp) = written_keys fp
         \<or> written_keys (plan_group folded base_of pending ((topic, part), is) fp) = written_keys fp @ [(topic, part)]"
    by (auto simp: written_keys_def plan_group_def isd Let_def topition_key_def)
qed

lemma flush_attempt_writes:
  assumes r: "routed route pending"
  shows "\<forall>w \<in> set (fp_substreams (flush_attempt folded base_of pending)). planned_write folded base_of route pending w"
    and "distinct (written_keys (flush_attempt folded base_of pending))"
proof -
  have *: "(\<forall>w \<in> set (fp_substreams (fold (plan_group folded base_of pending) gs fp)). planned_write folded base_of route pending w)
      \<and> distinct (written_keys (fold (plan_group folded base_of pending) gs fp))"
    if "set gs \<subseteq> set (group_pending pending)" "distinct (map fst gs)"
      "\<forall>w \<in> set (fp_substreams fp). planned_write folded base_of route pending w"
      "distinct (written_keys fp)" "set (written_keys fp) \<inter> fst ` set gs = {}" for gs fp
    using that
  proof (induction gs arbitrary: fp)
    case (Cons g gs)
    obtain topic part "is" where g: "g = ((topic, part), is)" by (metis surj_pair)
    have mem: "((topic, part), is) \<in> set (group_pending pending)" using Cons.prems(1) g by simp
    note step = plan_group_writes [OF mem r Cons.prems(3)]
    let ?fp = "plan_group folded base_of pending ((topic, part), is) fp"
    have dis: "distinct (written_keys ?fp) \<and> set (written_keys ?fp) \<inter> fst ` set gs = {}"
      using step(2)
    proof (elim disjE)
      assume "written_keys ?fp = written_keys fp @ [(topic, part)]"
      then show ?thesis using Cons.prems(2,4,5) g by (simp only: distinct_append set_append) auto
    qed (use Cons.prems(4,5) in auto)
    from dis show ?case using Cons.IH [of ?fp] step(1) Cons.prems(1,2) g by simp
  qed simp
  have "distinct (map fst (group_pending pending))"
    using group_pending_get bt_inv_distinct by blast
  from * [OF _ this, of "\<lparr>fp_substreams = [], fp_outcomes = replicate (length pending) (Acked 0), fp_advances = []\<rparr>"]
  show "\<forall>w \<in> set (fp_substreams (flush_attempt folded base_of pending)). planned_write folded base_of route pending w"
    and "distinct (written_keys (flush_attempt folded base_of pending))"
    by (simp_all add: flush_attempt_def written_keys_def)
qed

section \<open>The log the replicas build\<close>

text \<open>
  The objects of the prefix by sequence, and the index of every replica. A replica folds the segment
  after the last one it has resolved, or appends: it plans the pending batches over its own index,
  encodes the segment and creates it at the next name, which succeeds only when the name is free.
  No segment is retired in this machine, so the stored floor is 0.
\<close>

record log_state =
  l_store :: "seqno \<rightharpoonup> bytes"
  l_index :: "nat \<Rightarrow> prefix_index"

definition log_init :: log_state where
  "log_init = \<lparr>l_store = Map.empty, l_index = (\<lambda>_. PrefixIndex_default)\<rparr>"

definition tail_or_0 :: "prefix_index \<Rightarrow> substream \<Rightarrow> int \<Rightarrow> int" where
  "tail_or_0 idx s p = (case substream_tail idx s p of None \<Rightarrow> 0 | Some t \<Rightarrow> t)"

text \<open>
  A cached or persisted high watermark was set by some replica from a tail it knew; it may be ahead
  of the replica that reads it.
\<close>

definition hint_known :: "log_state \<Rightarrow> (substream \<Rightarrow> int \<Rightarrow> int option) \<Rightarrow> bool" where
  "hint_known st hint \<longleftrightarrow> (\<forall>s p h. hint s p = Some h \<longrightarrow> (\<exists>i. h \<le> tail_or_0 (l_index st i) s p))"

definition flush_over ::
    "prefix_index \<Rightarrow> (substream \<Rightarrow> int \<Rightarrow> int option) \<Rightarrow> (substream \<Rightarrow> int \<Rightarrow> int option)
     \<Rightarrow> pending_batch list \<Rightarrow> flush_plan" where
  "flush_over idx cached persisted pending =
     flush_attempt (index_folded idx) (\<lambda>s p. leaseless_base idx s p (cached s p) (persisted s p)) pending"

definition next_candidate :: "prefix_index \<Rightarrow> seqno" where
  "next_candidate idx = fst (tail_next_seq_folded 0 False idx)"

inductive log_step :: "(string \<Rightarrow> substream) \<Rightarrow> log_state \<Rightarrow> log_state \<Rightarrow> bool" for route where
  fold_next: "l_store st (next_candidate (l_index st r)) = Some obj \<Longrightarrow>
     read_segment_footer obj = Inr (Some footer) \<Longrightarrow>
     log_step route st (st\<lparr>l_index := (l_index st)(r := index_insert now (next_candidate (l_index st r)) footer t (l_index st r))\<rparr>)"
| append: "routed route pending \<Longrightarrow> \<forall>p \<in> set pending. sequenced (pd_batch p) \<Longrightarrow>
     hint_known st cached \<Longrightarrow> hint_known st persisted \<Longrightarrow>
     ws = fp_substreams (flush_over (l_index st r) cached persisted pending) \<Longrightarrow>
     \<forall>w \<in> set ws. wf_write w \<Longrightarrow> length ws < 2 ^ 32 \<Longrightarrow>
     v \<in> {3, 4} \<Longrightarrow> fits_s 8 era \<Longrightarrow> fits_u 8 nonce \<Longrightarrow>
     encode_segment_indexed ws era nonce v = Inr (payload, footer) \<Longrightarrow> length payload < 2 ^ 64 \<Longrightarrow>
     l_store st (next_candidate (l_index st r)) = None \<Longrightarrow>
     log_step route st
       (st\<lparr>l_store := (l_store st)(next_candidate (l_index st r) \<mapsto> payload),
           l_index := (l_index st)(r := index_insert now (next_candidate (l_index st r)) footer now (l_index st r))\<rparr>)"

section \<open>Every sub-stream is gapless from offset 0\<close>

definition entries_of :: "segment_footer \<Rightarrow> substream_key \<Rightarrow> substream_entry list" where
  "entries_of f k = filter (\<lambda>e. entry_key e = k) (sf_entries f)"

fun gapless :: "int \<Rightarrow> substream_entry list \<Rightarrow> bool" where
  "gapless b [] = True"
| "gapless b (e # es) = (se_base_offset e = b \<and> 0 < se_record_count e \<and> gapless (entry_end e) es)"

definition chain_end :: "int \<Rightarrow> substream_entry list \<Rightarrow> int" where
  "chain_end b es = (if es = [] then b else entry_end (last es))"

definition chain :: "(seqno \<Rightarrow> segment_footer) \<Rightarrow> nat \<Rightarrow> substream_key \<Rightarrow> substream_entry list" where
  "chain F n k = concat (map (\<lambda>s. entries_of (F s) k) [0..<n])"

lemma gapless_append: "gapless b (xs @ ys) \<longleftrightarrow> gapless b xs \<and> gapless (chain_end b xs) ys"
  by (induction b xs rule: gapless.induct) (auto simp: chain_end_def)

lemma chain_Suc: "chain F (Suc n) k = chain F n k @ entries_of (F n) k"
  by (simp add: chain_def)

lemma gapless_ge: "gapless b es \<Longrightarrow> e \<in> set es \<Longrightarrow> b \<le> entry_end e"
proof (induction b es rule: gapless.induct)
  case (2 b e' es)
  have "b < entry_end e'" using 2(2) by (simp add: entry_end_def)
  then show ?case using 2 by fastforce
qed simp

lemma gapless_le: "gapless b es \<Longrightarrow> e \<in> set es \<Longrightarrow> entry_end e \<le> chain_end b es"
proof (induction b es rule: gapless.induct)
  case (2 b e' es)
  have "x \<in> set es \<Longrightarrow> entry_end e' \<le> entry_end x" for x
    using 2(2) by (auto intro: gapless_ge)
  then have "entry_end e' \<le> chain_end (entry_end e') es" by (auto simp: chain_end_def)
  then show ?case using 2 by (auto simp: chain_end_def split: if_splits)
qed simp

lemma gapless_tail:
  assumes "gapless b es" and "es \<noteq> []"
  shows "Max (entry_end ` set es) = entry_end (last es)"
proof (rule Max_eqI)
  show "y \<le> entry_end (last es)" if "y \<in> entry_end ` set es" for y
    using that assms gapless_le [OF assms(1)] by (auto simp: chain_end_def)
qed (use assms in auto)

definition holds :: "(seqno \<Rightarrow> segment_footer) \<Rightarrow> nat \<Rightarrow> prefix_index \<Rightarrow> bool" where
  "holds F m idx \<longleftrightarrow>
     in_step idx \<and> pi_opaque idx = [] \<and> pi_seq_floor idx = None \<and>
     (\<exists>c. pi_segments idx = map (\<lambda>s. (s, c s)) [0..<m] \<and>
          (\<forall>s < m. cached_entries (c s) = map retain_foldable_producers (sf_entries (F s))))"

lemma holds_candidate: "holds F m idx \<Longrightarrow> next_candidate idx = m"
  by (cases m)
    (auto simp: holds_def next_candidate_def tail_next_seq_folded_def certified_seq_floor_def
      cached_certified_seq_floor_def resolved_max_def next_back_def bt_keys_def option_max_def next_name_def o_def)

lemma bt_insert_last: "\<forall>k' \<in> fst ` set m. k' < k \<Longrightarrow> bt_insert k v m = m @ [(k, v)]"
  by (induction k v m rule: bt_insert.induct) auto

lemma insert_segment_sel:
  "pi_segments (insert_segment seq c idx) = bt_insert seq (prune_cached c) (pi_segments idx)"
  "pi_opaque (insert_segment seq c idx) = pi_opaque idx"
  "pi_seq_floor (insert_segment seq c idx) = pi_seq_floor idx"
  by (simp_all add: insert_segment_def Let_def unindex_segment_def split: option.split)

lemma holds_insert:
  assumes "holds F m idx"
  shows "holds F (Suc m) (index_insert now m (F m) t idx)"
proof -
  obtain c where segs: "pi_segments idx = map (\<lambda>s. (s, c s)) [0..<m]"
    and c: "\<forall>s < m. cached_entries (c s) = map retain_foldable_producers (sf_entries (F s))"
    using assms by (auto simp: holds_def)
  let ?new = "prune_cached \<lparr>cs_footer = F m, cs_last_modified_ms = t\<rparr>"
  let ?c = "c(m := ?new)"
  have "pi_segments (index_insert now m (F m) t idx) = map (\<lambda>s. (s, ?c s)) [0..<Suc m]"
    by (simp add: index_insert_def insert_segment_sel segs bt_insert_last)
  moreover have "\<forall>s < Suc m. cached_entries (?c s) = map retain_foldable_producers (sf_entries (F s))"
    using c by (simp add: cached_entries_prune) (simp add: cached_entries_def)
  moreover have "in_step (index_insert now m (F m) t idx)"
    unfolding index_insert_def in_step_update
    using assms by (intro insert_segment_in_step) (simp add: holds_def)
  moreover have "pi_opaque (index_insert now m (F m) t idx) = []" "pi_seq_floor (index_insert now m (F m) t idx) = None"
    using assms by (simp_all add: holds_def index_insert_def insert_segment_sel)
  ultimately show ?thesis unfolding holds_def by blast
qed

lemma filter_retain_keys:
  "filter (\<lambda>e. entry_key e = k) (map retain_foldable_producers es)
     = map retain_foldable_producers (filter (\<lambda>e. entry_key e = k) es)"
  by (simp add: filter_map o_def)

lemma holds_entries:
  assumes "holds F m idx"
  shows "map (\<lambda>(_, _, e). e) (substream_entries idx s p) = map retain_foldable_producers (chain F m (s, p))"
proof -
  obtain c where segs: "pi_segments idx = map (\<lambda>s. (s, c s)) [0..<m]"
    and c: "\<And>s. s < m \<Longrightarrow> cached_entries (c s) = map retain_foldable_producers (sf_entries (F s))"
    using assms by (auto simp: holds_def)
  have "substream_entries idx s p = scan_entries (pi_segments idx) (s, p)"
    using assms by (intro substream_entries_scan) (simp add: holds_def)
  then have "map (\<lambda>(_, _, e). e) (substream_entries idx s p)
      = concat (map (\<lambda>x. filter (\<lambda>e. entry_key e = (s, p)) (cached_entries (c x))) [0..<m])"
    by (simp add: scan_entries_def segs map_concat o_def)
  also have "\<dots> = concat (map (\<lambda>x. map retain_foldable_producers (entries_of (F x) (s, p))) [0..<m])"
    by (rule arg_cong [of _ _ concat]) (simp add: c filter_retain_keys entries_of_def)
  finally show ?thesis by (simp add: chain_def map_concat o_def)
qed

lemma entry_end_retain [simp]: "entry_end (retain_foldable_producers e) = entry_end e"
  by (simp add: entry_end_def retain_foldable_producers_def)

lemma holds_tail:
  assumes h: "holds F m idx" and g: "gapless 0 (chain F m (s, p))"
  shows "tail_or_0 idx s p = chain_end 0 (chain F m (s, p))"
proof -
  let ?es = "substream_entries idx s p"
  have "map (\<lambda>(_, _, e). se_base_offset e + se_record_count e) ?es = map entry_end (map (\<lambda>(_, _, e). e) ?es)"
    by (simp add: entry_end_def split_beta)
  also have "\<dots> = map entry_end (chain F m (s, p))"
    unfolding holds_entries [OF h] by (simp add: o_def)
  finally have ends: "map (\<lambda>(_, _, e). se_base_offset e + se_record_count e) ?es = map entry_end (chain F m (s, p))" .
  show ?thesis
    using gapless_tail [OF g] unfolding tail_or_0_def substream_tail_def ends
    by (simp add: Let_def chain_end_def)
qed

lemma distinct_filter_one:
  "distinct (map f xs) \<Longrightarrow> filter (\<lambda>x. f x = k) xs = [] \<or> (\<exists>x \<in> set xs. f x = k \<and> filter (\<lambda>x. f x = k) xs = [x])"
  by (induction xs) (auto simp: filter_empty_conv image_iff)

lemma entry_key_written:
  assumes "entry_describes body w e" and "\<And>n. sw_substream w = SName n \<Longrightarrow> n = tp_topic (sw_topition w)"
  shows "entry_key e = write_key w"
  using assms
  by (cases "sw_substream w") (auto simp: entry_describes_def entry_key_def entry_substream_def write_key_def)

lemma offsets_positive:
  assumes "bs \<noteq> []" and "\<forall>b \<in> set bs. 0 \<le> b_last_offset_delta b"
  shows "0 < offsets_of bs"
proof -
  have "0 \<le> offsets_of bs" if "\<forall>b \<in> set bs. 0 \<le> b_last_offset_delta b" for bs
    using that by (induction bs) (auto simp: offsets_of_def)
  with assms show ?thesis by (cases bs) (force simp: offsets_of_def)+
qed

lemma segment_entries:
  assumes "encode_segment_indexed ws era nonce v = Inr (payload, footer)"
    and "\<forall>w \<in> set ws. sw_batches w \<noteq> []"
  shows "\<exists>body. list_all2 (entry_describes body) ws (sf_entries footer)"
proof -
  from assms(1) obtain body where body: "encode_substreams v ws [] [] = Inr (body, sf_entries footer)"
    by (auto simp: encode_segment_indexed_def Let_def rbind_Inr_iff)
  have "nonempty_writes ws = ws" using assms(2) by (simp add: nonempty_writes_def filter_id_conv)
  then have "list_all2 (\<lambda>w e. entry_describes body w e \<and> region_within body e) ws (sf_entries footer)"
    using encode_substreams_ok [OF body, of "[]"] by simp
  then have "list_all2 (entry_describes body) ws (sf_entries footer)" by (rule list_all2_mono) simp
  then show ?thesis by blast
qed

lemma planned_write_positive:
  assumes "planned_write folded base_of route pending w"
    and "\<forall>p \<in> set pending. 0 \<le> b_last_offset_delta (pd_batch p)"
  shows "0 < offsets_of (sw_batches w)"
proof -
  obtain bs where bs: "set bs \<subseteq> pd_batch ` set pending"
    and w: "sw_batches w = ps_batches (plan_topition (folded (sw_substream w) (tp_partition (sw_topition w))) (sw_base_offset w) bs)"
    and ne: "sw_batches w \<noteq> []"
    using assms(1) by (auto simp: planned_write_def)
  have "set (sw_batches w) \<subseteq> set bs" unfolding w by (rule plan_batches_subset)
  then show ?thesis using bs assms(2) by (intro offsets_positive [OF ne]) auto
qed

lemma written_entry_keys:
  assumes r: "routed route pending" and ws: "ws = fp_substreams (flush_attempt folded base_of pending)"
    and l: "list_all2 (entry_describes body) ws (sf_entries footer)"
  shows "list_all2 (\<lambda>w e. entry_describes body w e \<and> entry_key e = write_key w) ws (sf_entries footer)"
    and "distinct (map entry_key (sf_entries footer))"
proof -
  have pw: "\<forall>w \<in> set ws. planned_write folded base_of route pending w"
    and dk: "distinct (map (\<lambda>w. topition_key (sw_topition w)) ws)"
    using flush_attempt_writes [OF r, of folded base_of] by (simp_all add: ws written_keys_def)
  have sub: "\<forall>w \<in> set ws. sw_substream w = route (tp_topic (sw_topition w))"
    using pw by (simp add: planned_write_def)
  have inj: "inj route" and nm: "\<And>t n. route t = SName n \<Longrightarrow> n = t" using r by (auto simp: routed_def)
  have "entry_describes body w e \<and> entry_key e = write_key w" if "entry_describes body w e" "w \<in> set ws" for w e
    using that sub nm by (auto intro: entry_key_written)
  with l show keyed: "list_all2 (\<lambda>w e. entry_describes body w e \<and> entry_key e = write_key w) ws (sf_entries footer)"
    by (auto intro: list.rel_mono_strong)
  then have keys: "map entry_key (sf_entries footer) = map write_key ws"
    by (auto simp: list_all2_conv_all_nth intro: nth_equalityI)
  have d: "distinct ws" and inj_tp: "inj_on (\<lambda>w. topition_key (sw_topition w)) (set ws)"
    using dk by (simp_all add: distinct_map)
  have "inj_on write_key (set ws)"
  proof (rule inj_onI)
    fix w w' assume w: "w \<in> set ws" "w' \<in> set ws" and eq: "write_key w = write_key w'"
    then have "topition_key (sw_topition w) = topition_key (sw_topition w')"
      using sub inj by (simp add: write_key_def topition_key_def inj_eq)
    from inj_onD [OF inj_tp this w] show "w = w'" .
  qed
  then show "distinct (map entry_key (sf_entries footer))" unfolding keys using d by (simp add: distinct_map)
qed

lemma list_all2_pick: "list_all2 P xs ys \<Longrightarrow> y \<in> set ys \<Longrightarrow> \<exists>x \<in> set xs. P x y"
  by (induction rule: list_all2_induct) auto

lemma appended_entries:
  assumes r: "routed route pending" and pos: "\<forall>p \<in> set pending. 0 \<le> b_last_offset_delta (pd_batch p)"
    and ws: "ws = fp_substreams (flush_attempt folded base_of pending)"
    and enc: "encode_segment_indexed ws era nonce v = Inr (payload, footer)"
  shows "entries_of footer k = [] \<or>
     (\<exists>e w. entries_of footer k = [e] \<and> se_base_offset e = base_of (fst k) (snd k) \<and> 0 < se_record_count e \<and>
        se_producers e = region_coords 0 (sw_batches w) \<and> write_key w = k \<and> planned_write folded base_of route pending w)"
proof -
  have pw: "\<forall>w \<in> set ws. planned_write folded base_of route pending w"
    using flush_attempt_writes [OF r, of folded base_of] by (simp add: ws)
  obtain body where l: "list_all2 (entry_describes body) ws (sf_entries footer)"
    using segment_entries [OF enc] pw by (auto simp: planned_write_def)
  note keyed = written_entry_keys [OF r ws l]
  from distinct_filter_one [OF keyed(2), of k]
  show ?thesis
  proof
    assume "\<exists>e \<in> set (sf_entries footer). entry_key e = k \<and> filter (\<lambda>x. entry_key x = k) (sf_entries footer) = [e]"
    then obtain e where e: "e \<in> set (sf_entries footer)" "entry_key e = k" "entries_of footer k = [e]"
      by (auto simp: entries_of_def)
    obtain w where w: "w \<in> set ws" "entry_describes body w e" "entry_key e = write_key w"
      using list_all2_pick [OF keyed(1) e(1)] by blast
    then have "se_base_offset e = base_of (fst k) (snd k)"
      using e(2) pw by (auto simp: entry_describes_def planned_write_def write_key_def)
    moreover have "0 < se_record_count e"
      using w planned_write_positive [OF _ pos] pw by (auto simp: entry_describes_def)
    moreover have "se_producers e = region_coords 0 (sw_batches w)" using w(2) by (simp add: entry_describes_def)
    moreover have "write_key w = k" "planned_write folded base_of route pending w" using e(2) w(1,3) pw by auto
    ultimately show ?thesis using e(3) by blast
  qed (simp add: entries_of_def)
qed

definition log_inv :: "log_state \<Rightarrow> (seqno \<Rightarrow> segment_footer) \<Rightarrow> nat \<Rightarrow> bool" where
  "log_inv st F n \<longleftrightarrow>
     (\<forall>s. l_store st s \<noteq> None \<longleftrightarrow> s < n) \<and>
     (\<forall>s obj. l_store st s = Some obj \<longrightarrow> read_segment_footer obj = Inr (Some (F s))) \<and>
     (\<forall>r. \<exists>m \<le> n. holds F m (l_index st r)) \<and>
     (\<forall>k. gapless 0 (chain F n k))"

lemma log_invD:
  assumes "log_inv st F n"
  shows "l_store st s \<noteq> None \<longleftrightarrow> s < n"
    and "l_store st s = Some obj \<Longrightarrow> read_segment_footer obj = Inr (Some (F s))"
    and "\<exists>m \<le> n. holds F m (l_index st r)"
    and "gapless 0 (chain F n k)"
  using assms unfolding log_inv_def by blast+

lemma holds_cong: "\<forall>s < m. F s = G s \<Longrightarrow> holds F m idx \<Longrightarrow> holds G m idx"
  unfolding holds_def by auto

lemma chain_cong: "\<forall>s < n. F s = G s \<Longrightarrow> chain F n k = chain G n k"
  unfolding chain_def by (rule arg_cong [of _ _ concat]) simp

lemma log_inv_init: "log_inv log_init F 0"
proof -
  have "in_step PrefixIndex_default" by (rule in_step_default)
  then have "holds F 0 PrefixIndex_default"
    by (simp add: holds_def) (simp add: PrefixIndex_default_def)
  then show ?thesis by (auto simp: log_inv_def log_init_def chain_def)
qed

lemma gapless_extend:
  assumes "gapless 0 (chain F n k)"
    and "entries_of (F n) k = [] \<or> (\<exists>e. entries_of (F n) k = [e] \<and> se_base_offset e = chain_end 0 (chain F n k) \<and> 0 < se_record_count e)"
  shows "gapless 0 (chain F (Suc n) k)"
  using assms by (auto simp: chain_Suc gapless_append)

lemma leaseless_base_tail:
  assumes "\<And>h. cached = Some h \<Longrightarrow> h \<le> tail_or_0 idx s p" "\<And>h. persisted = Some h \<Longrightarrow> h \<le> tail_or_0 idx s p"
    and "0 \<le> tail_or_0 idx s p"
  shows "leaseless_base idx s p cached persisted = tail_or_0 idx s p"
  using assms unfolding leaseless_base_def tail_or_0_def [symmetric] Let_def
  by (auto split: option.split)

lemma chain_split: "m \<le> n \<Longrightarrow> \<exists>ys. chain F n k = chain F m k @ ys"
proof (induction n)
  case (Suc n)
  then show ?case by (cases "m = Suc n") (auto simp: chain_Suc)
qed (simp add: chain_def)

lemma chain_end_mono: "m \<le> n \<Longrightarrow> gapless 0 (chain F n k) \<Longrightarrow> chain_end 0 (chain F m k) \<le> chain_end 0 (chain F n k)"
proof -
  assume "m \<le> n" and g: "gapless 0 (chain F n k)"
  then obtain ys where ys: "chain F n k = chain F m k @ ys" using chain_split by blast
  then have "gapless (chain_end 0 (chain F m k)) ys" using g by (simp add: gapless_append)
  then have "ys \<noteq> [] \<Longrightarrow> chain_end 0 (chain F m k) \<le> entry_end (last ys)" by (intro gapless_ge) auto
  then show ?thesis by (cases "ys = []") (auto simp: ys chain_end_def)
qed

lemma hint_known_le:
  assumes inv: "log_inv st F n" and "hint_known st hint" and "hint s p = Some h"
  shows "h \<le> chain_end 0 (chain F n (s, p))"
proof -
  obtain i where "h \<le> tail_or_0 (l_index st i) s p"
    using assms(2,3) unfolding hint_known_def by blast
  moreover obtain m where m: "m \<le> n" "holds F m (l_index st i)" using log_invD(3) [OF inv] by blast
  moreover have "gapless 0 (chain F m (s, p))"
    using chain_split [OF m(1), of F "(s, p)"] log_invD(4) [OF inv, of "(s, p)"] by (auto simp: gapless_append)
  ultimately have "h \<le> chain_end 0 (chain F m (s, p))" using holds_tail [OF m(2)] by simp
  also have "\<dots> \<le> chain_end 0 (chain F n (s, p))" using m(1) log_invD(4) [OF inv] by (rule chain_end_mono)
  finally show ?thesis .
qed

lemma chain_end_nonneg: "gapless 0 es \<Longrightarrow> 0 \<le> chain_end 0 es"
  using gapless_ge [of 0 es "last es"] by (simp add: chain_end_def)

lemma log_inv_fold:
  assumes inv: "log_inv st F n" and obj: "l_store st (next_candidate (l_index st r)) = Some obj"
    and f: "read_segment_footer obj = Inr (Some footer)"
  shows "log_inv (st\<lparr>l_index := (l_index st)(r := index_insert now (next_candidate (l_index st r)) footer t (l_index st r))\<rparr>) F n"
proof -
  obtain m where m: "m \<le> n" "holds F m (l_index st r)" using log_invD(3) [OF inv] by blast
  have c: "next_candidate (l_index st r) = m" using m(2) by (rule holds_candidate)
  have "m < n" using log_invD(1) [OF inv, of m] obj unfolding c by simp
  moreover have "footer = F m" using log_invD(2) [OF inv, of m obj] obj f unfolding c by simp
  ultimately have "\<exists>m' \<le> n. holds F m' (index_insert now m footer t (l_index st r))"
    using holds_insert [OF m(2)] by (intro exI [of _ "Suc m"]) simp
  then have "\<forall>i. \<exists>m' \<le> n. holds F m' (((l_index st)(r := index_insert now m footer t (l_index st r))) i)"
    using log_invD(3) [OF inv] by simp
  then show ?thesis unfolding log_inv_def c using log_invD(1,2,4) [OF inv] by simp
qed

lemma log_inv_append:
  assumes inv: "log_inv st F n"
    and r: "routed route pending" and pos: "\<forall>p \<in> set pending. 0 \<le> b_last_offset_delta (pd_batch p)"
    and hints: "hint_known st cached" "hint_known st persisted"
    and ws: "ws = fp_substreams (flush_over (l_index st r) cached persisted pending)"
    and enc: "encode_segment_indexed ws era nonce v = Inr (payload, footer)"
    and read: "read_segment_footer payload = Inr (Some footer)"
    and free: "l_store st (next_candidate (l_index st r)) = None"
  shows "log_inv (st\<lparr>l_store := (l_store st)(next_candidate (l_index st r) \<mapsto> payload),
           l_index := (l_index st)(r := index_insert now (next_candidate (l_index st r)) footer now (l_index st r))\<rparr>)
         (F(n := footer)) (Suc n)"
proof -
  let ?idx = "l_index st r"
  let ?G = "F(n := footer)"
  obtain m where m: "m \<le> n" "holds F m ?idx" using log_invD(3) [OF inv] by blast
  have c: "next_candidate ?idx = m" using m(2) by (rule holds_candidate)
  have mn: "m = n" using log_invD(1) [OF inv, of m] free m(1) unfolding c by simp
  have hG: "holds ?G k i" if "k \<le> n" "holds F k i" for k i
    using that by (intro holds_cong [OF _ that(2)]) simp
  have idx: "holds ?G (Suc n) (index_insert now n footer now ?idx)"
    using holds_insert [OF hG [OF m(1)], of ?idx now now] m(2) mn by simp
  have chainG: "chain ?G n k = chain F n k" for k by (rule chain_cong) simp
  have g: "gapless 0 (chain F n k)" for k using inv by (rule log_invD)
  have "gapless 0 (chain ?G (Suc n) k)" for k
  proof (rule gapless_extend)
    show "gapless 0 (chain ?G n k)" unfolding chainG by (rule g)
    have tail: "tail_or_0 ?idx (fst k) (snd k) = chain_end 0 (chain F n k)"
      using holds_tail [OF m(2), of "fst k" "snd k"] g by (simp add: mn)
    have "leaseless_base ?idx (fst k) (snd k) (cached (fst k) (snd k)) (persisted (fst k) (snd k))
        = chain_end 0 (chain F n k)"
      unfolding tail [symmetric]
      by (rule leaseless_base_tail)
        (auto simp: tail chain_end_nonneg g dest: hint_known_le [OF inv hints(1)] hint_known_le [OF inv hints(2)])
    then show "entries_of (?G n) k = [] \<or> (\<exists>e. entries_of (?G n) k = [e] \<and>
        se_base_offset e = chain_end 0 (chain ?G n k) \<and> 0 < se_record_count e)"
      using appended_entries [OF r pos ws [unfolded flush_over_def] enc, of k] by (auto simp: chainG)
  qed
  moreover have "\<forall>i. \<exists>k \<le> Suc n. holds ?G k (((l_index st)(r := index_insert now n footer now ?idx)) i)"
  proof
    fix i
    obtain k where "k \<le> n" "holds F k (l_index st i)" using log_invD(3) [OF inv] by blast
    then have "k \<le> Suc n \<and> holds ?G k (l_index st i)" using hG by simp
    then show "\<exists>k \<le> Suc n. holds ?G k (((l_index st)(r := index_insert now n footer now ?idx)) i)"
      using idx by (cases "i = r") auto
  qed
  moreover have "\<forall>s. ((l_store st)(n \<mapsto> payload)) s \<noteq> None \<longleftrightarrow> s < Suc n"
    using log_invD(1) [OF inv] by (simp add: less_Suc_eq disj_commute)
  moreover have "\<forall>s obj. ((l_store st)(n \<mapsto> payload)) s = Some obj \<longrightarrow> read_segment_footer obj = Inr (Some (?G s))"
    using log_invD(2) [OF inv] read by simp
  ultimately show ?thesis unfolding c mn log_inv_def by simp
qed

lemma log_inv_step:
  "log_step route st st' \<Longrightarrow> log_inv st F n \<Longrightarrow> \<exists>F' n'. log_inv st' F' n'"
proof (induction rule: log_step.induct)
  case (fold_next st r obj footer now t)
  show ?case by (intro exI) (rule log_inv_fold [OF fold_next(3,1,2)])
next
  case (append pending st r cached persisted ws v era nonce payload footer now)
  have read: "read_segment_footer payload = Inr (Some footer)"
    unfolding read_segment_footer_eq
    by (rule segment_footer_roundtrip [OF append(11,6,8,9,10,12,7)])
  have pos: "\<forall>p \<in> set pending. 0 \<le> b_last_offset_delta (pd_batch p)" using append(2) by (simp add: sequenced_def)
  show ?case
    by (intro exI) (rule log_inv_append [OF append(14) append(1) pos append(3,4,5) append(11) read append(13)])
qed

lemma log_inv_reachable:
  assumes "rtranclp (log_step route) log_init st"
  shows "\<exists>F n. log_inv st F n"
  using assms
proof (induction rule: rtranclp_induct)
  case base
  show ?case using log_inv_init by (intro exI)
next
  case (step st st')
  then obtain F n where "log_inv st F n" by blast
  with step(2) show ?case by (rule log_inv_step)
qed

end
