(* ===== verification/ExactlyOnce.thy ===== *)
theory ExactlyOnce
  imports CoalescedLog
begin

text \<open>
  Exactly-once produce across replicas: in the log of \<^const>\<open>log_step\<close> the batches of every producer in
  every sub-stream are in Kafka's sequence, whichever replicas appended them.
\<close>

section \<open>Batches in sequence\<close>

text \<open>
  The coordinates of one producer, in log order, from the epoch and sequence expected: a batch
  continues the epoch at the sequence expected, or opens a higher epoch at sequence 0.
\<close>

fun in_sequence :: "int \<times> int \<Rightarrow> producer_coord list \<Rightarrow> bool" where
  "in_sequence pos [] = True"
| "in_sequence (epoch, next_seq) (c # cs) =
     ((pc_producer_epoch c = epoch \<and> pc_base_sequence c = next_seq
       \<or> epoch < pc_producer_epoch c \<and> pc_base_sequence c = 0)
      \<and> in_sequence (pc_producer_epoch c, seq_increment (pc_last_sequence c)) cs)"

definition log_coords :: "int \<Rightarrow> substream_entry list \<Rightarrow> producer_coord list" where
  "log_coords pid es = own_coords pid (concat (map se_producers es))"

definition seq_pos :: "producer_tail \<Rightarrow> int \<times> int" where
  "seq_pos t = (pt_epoch t, expected t)"

fun seq_advance :: "int \<times> int \<Rightarrow> producer_coord \<Rightarrow> int \<times> int" where
  "seq_advance (epoch, next_seq) c =
     (if pc_producer_epoch c < epoch then (epoch, next_seq)
      else (pc_producer_epoch c, seq_increment (pc_last_sequence c)))"

lemma seq_pos_fold: "seq_pos (pt_fold e bs ls off t) = (if e < pt_epoch t then seq_pos t else (e, seq_increment ls))"
  by (simp add: seq_pos_def pt_fold_def expected_def Let_def)

lemma classify_admit:
  "classify t epoch seq = Admit \<longleftrightarrow>
     epoch = fst (seq_pos t) \<and> seq = snd (seq_pos t) \<or> fst (seq_pos t) < epoch \<and> seq = 0"
  by (auto simp: classify_def seq_pos_def Let_def split: option.splits)

lemma seq_pos_fold_own: "seq_pos (fold_own base cs t) = foldl seq_advance (seq_pos t) cs"
  by (induction cs arbitrary: t) (simp_all add: fold_own_def seq_pos_fold, simp add: seq_pos_def)

lemma seq_pos_folded: "seq_pos (producer_tail_folded es pid) = foldl seq_advance (0, 0) (log_coords pid es)"
proof -
  have "seq_pos (fold (fold_entry pid) es t) = foldl seq_advance (seq_pos t) (log_coords pid es)" for t
    by (induction es arbitrary: t)
      (simp_all add: log_coords_def fold_entry_own seq_pos_fold_own own_coords_def)
  moreover have "seq_pos ProducerTail_default = (0, 0)"
    by (simp add: seq_pos_def ProducerTail_default_def expected_def)
  ultimately show ?thesis by (simp add: producer_tail_folded_def)
qed

lemma in_sequence_append:
  "in_sequence pos (xs @ ys) \<longleftrightarrow> in_sequence pos xs \<and> in_sequence (foldl seq_advance pos xs) ys"
  by (induction pos xs rule: in_sequence.induct) auto

section \<open>A plan continues the sequence\<close>

lemma own_coord_of:
  assumes "sequenced b"
  shows "own_coords pid (coord_of n b) =
     (if is_idempotent b \<and> b_producer_id b = pid
      then [\<lparr>pc_producer_id = b_producer_id b, pc_producer_epoch = b_producer_epoch b,
             pc_base_sequence = b_base_sequence b,
             pc_last_sequence = wrapping_add_i32 (b_base_sequence b) (b_last_offset_delta b),
             pc_offset_delta = n mod 2 ^ 32, pc_flags = coord_flags b\<rparr>]
      else [])"
  using assms
  by (auto simp: coord_of_def own_coords_def folds_def coord_flags_control sequenced_def is_idempotent_def)

definition plan_seq :: "(int \<Rightarrow> producer_tail) \<Rightarrow> int \<Rightarrow> plan_state \<Rightarrow> bool" where
  "plan_seq folded pid s \<longleftrightarrow>
     seq_pos (working_tail folded s pid)
       = foldl seq_advance (seq_pos (folded pid)) (own_coords pid (region_coords 0 (ps_batches s))) \<and>
     in_sequence (seq_pos (folded pid)) (own_coords pid (region_coords 0 (ps_batches s)))"

lemma own_coords_append: "own_coords pid (xs @ ys) = own_coords pid xs @ own_coords pid ys"
  by (simp add: own_coords_def)

lemma plan_step_seq:
  assumes "plan_seq folded pid s" and b: "sequenced b"
  shows "plan_seq folded pid (plan_step folded b s)"
proof (cases "admits folded s b \<and> is_idempotent b \<and> b_producer_id b = pid")
  case True
  then have c: "classify (working_tail folded s pid) (b_producer_epoch b) (b_base_sequence b) = Admit"
    unfolding admits_def by blast
  obtain epoch next_seq where pos: "seq_pos (working_tail folded s pid) = (epoch, next_seq)" by fastforce
  then have ep: "\<not> b_producer_epoch b < epoch" "pt_epoch (working_tail folded s pid) = epoch"
    using c by (auto simp: classify_admit seq_pos_def)
  let ?own = "own_coords pid (region_coords 0 (ps_batches s))"
  obtain cd where own: "own_coords pid (region_coords 0 (ps_batches (plan_step folded b s))) = ?own @ [cd]"
    and cd: "pc_producer_epoch cd = b_producer_epoch b" "pc_base_sequence cd = b_base_sequence b"
      "pc_last_sequence cd = wrapping_add_i32 (b_base_sequence b) (b_last_offset_delta b)"
    using True by (simp add: plan_step_batches region_coords_snoc own_coords_append own_coord_of [OF b])
  have old: "foldl seq_advance (seq_pos (folded pid)) ?own = (epoch, next_seq)" "in_sequence (seq_pos (folded pid)) ?own"
    using assms(1) pos by (simp_all add: plan_seq_def)
  have "seq_pos (working_tail folded (plan_step folded b s) pid) = seq_advance (epoch, next_seq) cd"
    using True ep by (simp add: plan_step_tails seq_pos_fold cd)
  moreover have "in_sequence (epoch, next_seq) [cd]" using c by (simp add: classify_admit pos cd)
  ultimately show ?thesis using old by (simp add: plan_seq_def own in_sequence_append)
next
  case False
  then have "own_coords pid (region_coords 0 (ps_batches (plan_step folded b s)))
      = own_coords pid (region_coords 0 (ps_batches s))"
    by (auto simp: plan_step_batches region_coords_snoc own_coords_append own_coord_of [OF b])
  moreover have "working_tail folded (plan_step folded b s) pid = working_tail folded s pid"
    using False by (auto simp: plan_step_tails)
  ultimately show ?thesis using assms(1) by (simp add: plan_seq_def)
qed

lemma plan_topition_seq:
  assumes "\<forall>b \<in> set bs. sequenced b"
  shows "in_sequence (seq_pos (folded pid)) (own_coords pid (region_coords 0 (ps_batches (plan_topition folded base bs))))"
proof -
  have "plan_seq folded pid s \<Longrightarrow> plan_seq folded pid (fold (plan_step folded) bs s)" for s
    using assms by (induction bs arbitrary: s) (simp_all add: plan_step_seq)
  moreover have "plan_seq folded pid \<lparr>ps_tails = Map.empty, ps_running = base, ps_batches = [], ps_outcomes = []\<rparr>"
    by (simp add: plan_seq_def working_tail_def own_coords_def)
  ultimately show ?thesis unfolding plan_topition_def by (fastforce simp: plan_seq_def)
qed

section \<open>A replica folds the log as it is\<close>

lemma gapless_retain: "gapless b (map retain_foldable_producers es) = gapless b es"
  by (induction b es rule: gapless.induct) (simp_all add: retain_foldable_producers_def entry_end_def)

lemma fence_gapless:
  assumes "gapless b (map (\<lambda>(_, _, e). e) segs)" and "covered \<le> b"
  shows "map fs_entry (fence covered rank segs) = map (\<lambda>(_, _, e). e) segs"
  using assms
proof (induction segs arbitrary: covered rank b)
  case (Cons x segs)
  obtain epoch seq e where x: "x = (epoch, seq, e)" by (metis prod_cases3)
  have "map fs_entry (fence (entry_end e) (epoch, seq) segs) = map (\<lambda>(_, _, e). e) segs"
    using Cons.prems(1) x by (intro Cons.IH [of "entry_end e"]) simp_all
  then show ?case using Cons.prems x by (simp add: Let_def entry_end_def)
qed simp

lemma gapless_bases: "gapless b es \<Longrightarrow> e \<in> set es \<Longrightarrow> b \<le> se_base_offset e"
  by (induction b es rule: gapless.induct) (fastforce simp: entry_end_def)+

lemma gapless_sorted: "gapless b (map (\<lambda>(_, _, e). e) segs) \<Longrightarrow> sort_key fence_order segs = segs"
proof -
  assume g: "gapless b (map (\<lambda>(_, _, e). e) segs)"
  have "sorted (map fence_order segs)"
    using g
  proof (induction segs arbitrary: b)
    case (Cons x segs)
    obtain epoch seq e where x: "x = (epoch, seq, e)" by (metis prod_cases3)
    have "fence_order x \<le> fence_order y" if "y \<in> set segs" for y
    proof -
      obtain epoch' seq' e' where y: "y = (epoch', seq', e')" by (metis prod_cases3)
      then have e': "e' \<in> set (map (\<lambda>(_, _, e). e) segs)" using that by force
      have "gapless (entry_end e) (map (\<lambda>(_, _, e). e) segs)" using Cons.prems x by simp
      from gapless_bases [OF this e'] have "entry_end e \<le> se_base_offset e'" .
      then show ?thesis using Cons.prems x y by (simp add: fence_order_def less_eq_prod_def entry_end_def)
    qed
    moreover have "sorted (map fence_order segs)"
      using Cons.prems x by (intro Cons.IH [of "entry_end e"]) simp
    ultimately show ?case by simp
  qed simp
  then show ?thesis by (rule sort_key_id_if_sorted)
qed

lemma index_folded_chain:
  assumes h: "holds F m idx" and g: "gapless 0 (chain F m (s, p))"
  shows "index_folded idx s p pid = producer_tail_folded (chain F m (s, p)) pid"
proof -
  let ?segs = "map (\<lambda>(seq, epoch, e). (epoch, seq, e)) (substream_entries idx s p)"
  have e: "map (\<lambda>(_, _, e). e) ?segs = map retain_foldable_producers (chain F m (s, p))"
    unfolding holds_entries [OF h, symmetric] by (simp add: split_beta)
  have gr: "gapless 0 (map (\<lambda>(_, _, e). e) ?segs)" using g by (simp only: e gapless_retain)
  have "map fs_entry (with_fenced_segments idx s p) = map retain_foldable_producers (chain F m (s, p))"
    unfolding with_fenced_segments_def gapless_sorted [OF gr] e [symmetric]
    by (rule fence_gapless [OF gr]) simp
  then show ?thesis by (simp add: index_folded_def producer_tail_folded_retain)
qed

section \<open>The invariant\<close>

definition seq_inv :: "(seqno \<Rightarrow> segment_footer) \<Rightarrow> nat \<Rightarrow> bool" where
  "seq_inv F n \<longleftrightarrow> (\<forall>k pid. in_sequence (0, 0) (log_coords pid (chain F n k)))"

lemma seq_invD: "seq_inv F n \<Longrightarrow> in_sequence (0, 0) (log_coords pid (chain F n k))"
  unfolding seq_inv_def by blast

lemma seq_inv_append:
  assumes inv: "log_inv st F n" and sq: "seq_inv F n"
    and r: "routed route pending" and pos: "\<forall>p \<in> set pending. sequenced (pd_batch p)"
    and ws: "ws = fp_substreams (flush_over (l_index st r) cached persisted pending)"
    and enc: "encode_segment_indexed ws era nonce v = Inr (payload, footer)"
    and free: "l_store st (next_candidate (l_index st r)) = None"
  shows "seq_inv (F(n := footer)) (Suc n)"
  unfolding seq_inv_def
proof (intro allI)
  fix k pid
  let ?idx = "l_index st r"
  let ?G = "F(n := footer)"
  have old: "in_sequence (0, 0) (log_coords pid (chain F n k))" using sq by (rule seq_invD)
  obtain m where m: "m \<le> n" "holds F m ?idx" using log_invD(3) [OF inv] by blast
  have mn: "m = n" using log_invD(1) [OF inv, of m] free m(1) holds_candidate [OF m(2)] by simp
  have chainG: "chain ?G (Suc n) k = chain F n k @ entries_of footer k"
    using chain_cong [of n ?G F k] by (simp add: chain_Suc)
  have nn: "\<forall>p \<in> set pending. 0 \<le> b_last_offset_delta (pd_batch p)" using pos by (simp add: sequenced_def)
  from appended_entries [OF r nn ws [unfolded flush_over_def] enc, of k]
  show "in_sequence (0, 0) (log_coords pid (chain ?G (Suc n) k))"
  proof (elim disjE exE conjE)
    assume "entries_of footer k = []"
    then show ?thesis using old by (simp add: chainG)
  next
    fix e w
    assume e: "entries_of footer k = [e]" "se_producers e = region_coords 0 (sw_batches w)" and k: "write_key w = k"
      and pw: "planned_write (index_folded ?idx) (\<lambda>s p. leaseless_base ?idx s p (cached s p) (persisted s p)) route pending w"
    obtain bs where bs: "set bs \<subseteq> pd_batch ` set pending"
      and w: "sw_batches w = ps_batches (plan_topition (index_folded ?idx (fst k) (snd k)) (sw_base_offset w) bs)"
      using pw k by (auto simp: planned_write_def write_key_def)
    have fold: "index_folded ?idx (fst k) (snd k) pid = producer_tail_folded (chain F n k) pid"
      using index_folded_chain [OF m(2), of "fst k" "snd k"] log_invD(4) [OF inv, of k] by (simp add: mn)
    have "in_sequence (seq_pos (index_folded ?idx (fst k) (snd k) pid)) (own_coords pid (region_coords 0 (sw_batches w)))"
      unfolding w by (rule plan_topition_seq) (use bs pos in auto)
    then show ?thesis
      using old by (simp add: chainG e log_coords_def own_coords_append in_sequence_append fold seq_pos_folded)
  qed
qed

lemma seq_inv_step:
  assumes "log_step route st st'" and "log_inv st F n" and "seq_inv F n"
  shows "\<exists>F' n'. log_inv st' F' n' \<and> seq_inv F' n'"
  using assms
proof (induction rule: log_step.induct)
  case (fold_next st r obj footer now t)
  then show ?case using log_inv_fold [OF fold_next(3,1,2)] by blast
next
  case (append pending st r cached persisted ws v era nonce payload footer now)
  have read: "read_segment_footer payload = Inr (Some footer)"
    unfolding read_segment_footer_eq
    by (rule segment_footer_roundtrip [OF append(11,6,8,9,10,12,7)])
  have pos: "\<forall>p \<in> set pending. 0 \<le> b_last_offset_delta (pd_batch p)" using append(2) by (simp add: sequenced_def)
  note l = log_inv_append [OF append(14) append(1) pos append(3,4,5) append(11) read append(13)]
  note s = seq_inv_append [OF append(14,15,1,2,5,11,13)]
  show ?case using l s by blast
qed

lemma log_reachable:
  assumes "rtranclp (log_step route) log_init st"
  shows "\<exists>F n. log_inv st F n \<and> seq_inv F n"
  using assms
proof (induction rule: rtranclp_induct)
  case base
  show ?case
    using log_inv_init [of undefined]
    by (intro exI [of _ undefined] exI [of _ 0]) (simp add: seq_inv_def chain_def log_coords_def own_coords_def)
next
  case (step st st')
  then show ?case using seq_inv_step by blast
qed

section \<open>Properties\<close>

text \<open>What the store holds: \<open>n\<close> segments, the \<open>s\<close>-th with footer \<open>F s\<close>.\<close>

definition stored_log :: "log_state \<Rightarrow> (seqno \<Rightarrow> segment_footer) \<Rightarrow> nat \<Rightarrow> bool" where
  "stored_log st F n \<longleftrightarrow>
     (\<forall>s. l_store st s \<noteq> None \<longleftrightarrow> s < n) \<and>
     (\<forall>s obj. l_store st s = Some obj \<longrightarrow> read_segment_footer obj = Inr (Some (F s)))"

lemma log_inv_stored: "log_inv st F n \<Longrightarrow> stored_log st F n"
  unfolding log_inv_def stored_log_def by blast

lemma stored_log_unique:
  assumes "stored_log st F n" and "stored_log st G m"
  shows "n = m \<and> (\<forall>s < n. F s = G s)"
proof -
  have D: "l_store st s \<noteq> None \<longleftrightarrow> s < n" "l_store st s \<noteq> None \<longleftrightarrow> s < m" for s
    using assms unfolding stored_log_def by blast+
  have R: "l_store st s = Some obj \<Longrightarrow> read_segment_footer obj = Inr (Some (F s))"
    "l_store st s = Some obj \<Longrightarrow> read_segment_footer obj = Inr (Some (G s))" for s obj
    using assms unfolding stored_log_def by blast+
  have "s < n \<longleftrightarrow> s < m" for s using D [of s] by blast
  then have "n = m" by (meson nat_neq_iff less_irrefl_nat)
  moreover have "F s = G s" if "s < n" for s
  proof -
    obtain obj where "l_store st s = Some obj" using D(1) [of s] \<open>s < n\<close> by auto
    from R(1) [OF this] R(2) [OF this] show ?thesis by simp
  qed
  ultimately show ?thesis by blast
qed

lemma stored_log_chain:
  assumes "rtranclp (log_step route) log_init st" and "stored_log st F n"
  shows "gapless 0 (chain F n k)" and "in_sequence (0, 0) (log_coords pid (chain F n k))"
proof -
  obtain G m where G: "log_inv st G m" "seq_inv G m" using log_reachable [OF assms(1)] by blast
  have "n = m \<and> (\<forall>s < n. F s = G s)" by (rule stored_log_unique [OF assms(2) log_inv_stored [OF G(1)]])
  then have "chain F n k = chain G m k" using chain_cong [of n F G k] by simp
  then show "gapless 0 (chain F n k)" "in_sequence (0, 0) (log_coords pid (chain F n k))"
    using log_invD(4) [OF G(1)] seq_invD [OF G(2)] by simp_all
qed

definition sample_pending :: pending_batch where
  "sample_pending = \<lparr>pd_topition = \<lparr>tp_topic = ''t'', tp_partition = 0\<rparr>, pd_substream = SName ''t'', pd_batch = sample_batch\<rparr>"

lemma sample_plan_empty:
  "ps_batches (plan_topition (index_folded PrefixIndex_default s p) base [sample_batch]) = [sample_batch]"
  by (simp add: plan_topition_def plan_step_batches admits_def working_tail_def index_folded_def with_fenced_segments_def
      substream_entries_def PrefixIndex_default_def List.map_filter_simps producer_tail_folded_def ProducerTail_default_def
      classify_def)
    (simp add: sample_batch_def expected_def)

lemma sample_flush:
  "fp_substreams (flush_over PrefixIndex_default (\<lambda>_ _. None) (\<lambda>_ _. None) [sample_pending])
     = [sample_write\<lparr>sw_base_offset := 0, sw_batches := [sample_batch]\<rparr>]"
proof -
  have "leaseless_base PrefixIndex_default s p None None = 0" for s p
    by (simp add: leaseless_base_def substream_tail_def substream_entries_def PrefixIndex_default_def List.map_filter_simps)
  moreover have "group_pending [sample_pending] = [((''t'', 0), [0])]"
    by (simp add: group_pending_def group_step_def sample_pending_def topition_key_def bt_get_def)
  ultimately show ?thesis
    by (simp add: flush_over_def flush_attempt_def plan_group_def Let_def sample_plan_empty)
      (simp add: sample_pending_def sample_plan_empty sample_write_def)
qed

lemma sample_flush_encodes:
  "\<exists>payload footer. encode_segment_indexed [sample_write\<lparr>sw_base_offset := 0, sw_batches := [sample_batch]\<rparr>] 1 77 3
     = Inr (payload, footer) \<and> length payload < 2 ^ 64"
  by (simp add: encode_segment_indexed_def sample_write_def version_defs sample_batch_ok Let_def
      region_acc0_def segment_tail_def encode_footer_def entry_written_def encode_entry_def encode_coord_def)
    (simp add: sample_batch_def Batch_to_bytes_def coord_of_def is_idempotent_def encode_coord_def version_defs)

lemma sample_log:
  "\<exists>st F. rtranclp (log_step SName) log_init st \<and> stored_log st F 1"
proof -
  let ?w = "sample_write\<lparr>sw_base_offset := 0, sw_batches := [sample_batch]\<rparr>"
  obtain payload footer where enc: "encode_segment_indexed [?w] 1 77 3 = Inr (payload, footer)" "length payload < 2 ^ 64"
    using sample_flush_encodes by blast
  have w: "\<forall>w \<in> set [?w]. wf_write w" using sample_write_wf by (simp add: wf_write_def sample_write_def fits_s_def)
  have c: "next_candidate (l_index log_init 0) = 0"
    using holds_candidate [of "\<lambda>_. footer" 0] log_inv_init [of "\<lambda>_. footer"] by (auto simp: log_inv_def log_init_def)
  let ?st = "log_init\<lparr>l_store := (l_store log_init)(next_candidate (l_index log_init 0) \<mapsto> payload),
      l_index := (l_index log_init)(0 := index_insert 0 (next_candidate (l_index log_init 0)) footer 0 (l_index log_init 0))\<rparr>"
  have step: "log_step SName log_init ?st"
  proof (rule log_step.append [OF _ _ _ _ _ w _ _ _ _ enc])
    show "routed SName [sample_pending]" by (simp add: routed_def sample_pending_def inj_def)
    show "\<forall>p \<in> set [sample_pending]. sequenced (pd_batch p)"
      using sample_batch_sequenced by (simp add: sample_pending_def)
    show "hint_known log_init (\<lambda>_ _. None)" "hint_known log_init (\<lambda>_ _. None)" by (simp_all add: hint_known_def)
    show "[?w] = fp_substreams (flush_over (l_index log_init 0) (\<lambda>_ _. None) (\<lambda>_ _. None) [sample_pending])"
      using sample_flush by (simp add: log_init_def)
    show "l_store log_init (next_candidate (l_index log_init 0)) = None" by (simp add: log_init_def)
  qed (simp_all add: fits_s_def fits_u_def)
  have st: "l_store ?st = [0 \<mapsto> payload]" by (simp add: c) (simp add: log_init_def)
  have "decode_segment_footer payload = Inr (Some footer)"
    by (rule segment_footer_roundtrip [OF enc(1) w _ _ _ enc(2)]) (simp_all add: fits_s_def fits_u_def)
  then have "stored_log ?st (\<lambda>_. footer) 1"
    unfolding stored_log_def st by (auto simp: read_segment_footer_eq split: if_splits)
  then show ?thesis using r_into_rtranclp [of "log_step SName", OF step] by blast
qed

text \<open>
  C2. Whatever the replicas do concurrently, the log has no gap and no overlap: in every reachable state
  of the store, the entries of each sub-stream, taken segment by segment in sequence order, cover
  the offsets from 0 on, each starting where the one before it ended.
\<close>

theorem log_is_gapless:
  assumes "rtranclp (log_step route) log_init st" and "stored_log st F n"
  shows "gapless 0 (chain F n k)"
  using assms by (rule stored_log_chain)

theorem log_is_gapless_witness:
  "\<exists>st F. rtranclp (log_step SName) log_init st \<and> stored_log st F 1 \<and> gapless 0 (chain F 1 (SName ''t'', 0))"
  using sample_log log_is_gapless by blast



end
