(* ===== verification/OptiCon.thy ===== *)
theory OptiCon
  imports Prelude
begin

text \<open>
  Documents under optimistic concurrency, \<open>tansu-storage/src/dynostore/opticon.rs\<close>. A handle caches
  the document with the version it was read at; \<open>with_mut\<close> edits a clone, writes it back on condition
  that the version still stands, and on a conflict re-reads and tries again. The object store and
  the JSON codec are arguments: \<open>puts\<close>, \<open>gets\<close> and \<open>dels\<close> relate the object, a request, the answer and
  the object afterwards, \<open>ser\<close> and \<open>de\<close> are the two directions of the codec. Tasks interleave at
  every await.
\<close>

section \<open>Handles\<close>

datatype store_error = NotFound | AlreadyExists | Precondition | NotModified | OtherStoreError

datatype 'e os_error = ObjectStore store_error | SerdeJson | ApiError 'e

record 't update_version =
  e_tag :: "'t option"
  uv_version :: "'t option"

datatype 't put_mode = PutCreate | PutUpdate "'t update_version"

record ('d, 't) data_version =
  dv_data :: 'd
  dv_version :: "'t update_version option"

type_synonym ('d, 't) cache = "('d, 't) data_version option"
type_synonym ('d, 'e, 'r) closure = "'d \<Rightarrow> ('e os_error + 'r) \<times> 'd"

definition put_mode_of :: "('d, 't) data_version \<Rightarrow> 't put_mode" where
  "put_mode_of dv = (case dv_version dv of None \<Rightarrow> PutCreate | Some v \<Rightarrow> PutUpdate v)"

text \<open>\<open>get\<close>: what the answer of an unconditional read does to the cache.\<close>

definition get_answer ::
    "('b \<Rightarrow> 'd option) \<Rightarrow> store_error + ('b \<times> 't update_version) \<Rightarrow> ('d, 't) cache
      \<Rightarrow> ('e os_error + unit) \<times> ('d, 't) cache" where
  "get_answer de answer cache =
     (case answer of
        Inr (encoded, version) \<Rightarrow>
          (case de encoded of
             None \<Rightarrow> (Inl SerdeJson, cache)
           | Some d \<Rightarrow> (Inr (), Some \<lparr> dv_data = d, dv_version = Some version \<rparr>))
      | Inl NotFound \<Rightarrow> (Inr (), None)
      | Inl otherwise \<Rightarrow> (Inl (ObjectStore otherwise), cache))"

text \<open>\<open>refresh\<close>: the etag it sends, and what the answer does.\<close>

definition refresh_if_none_match :: "('d, 't) cache \<Rightarrow> 't option" where
  "refresh_if_none_match cache = Option.bind (Option.bind cache dv_version) e_tag"

definition refresh_answer ::
    "('b \<Rightarrow> 'd option) \<Rightarrow> store_error + ('b \<times> 't update_version) \<Rightarrow> ('d, 't) cache
      \<Rightarrow> ('e os_error + unit) \<times> ('d, 't) cache" where
  "refresh_answer de answer cache =
     (case answer of
        Inr (encoded, version) \<Rightarrow>
          (case de encoded of
             None \<Rightarrow> (Inl SerdeJson, cache)
           | Some d \<Rightarrow> (Inr (), Some \<lparr> dv_data = d, dv_version = Some version \<rparr>))
      | Inl NotFound \<Rightarrow> (Inr (), None)
      | Inl NotModified \<Rightarrow> (Inr (), cache)
      | Inl otherwise \<Rightarrow> (Inl (ObjectStore otherwise), cache))"

text \<open>What \<open>with\<close>, \<open>cached\<close> and \<open>get_opt\<close> return once the refresh has answered.\<close>

definition with_result ::
    "'d \<Rightarrow> ('d \<Rightarrow> 'e os_error + 'r) \<Rightarrow> 'e os_error + unit \<Rightarrow> ('d, 't) cache \<Rightarrow> 'e os_error + 'r" where
  "with_result dflt f refreshed cache =
     rbind refreshed (\<lambda>_. f (case cache of Some dv \<Rightarrow> dv_data dv | None \<Rightarrow> dflt))"

definition cached_value :: "('d, 't) cache \<Rightarrow> 'd option" where
  "cached_value cache = map_option dv_data cache"

definition get_opt_result ::
    "'e os_error + unit \<Rightarrow> ('d, 't) cache \<Rightarrow> 'e os_error + 'd option" where
  "get_opt_result refreshed cache = rbind refreshed (\<lambda>_. Inr (cached_value cache))"

text \<open>
  \<open>with_mut\<close>, one turn of its loop: the closure applied to a clone of the cached document, then what
  the answer of the conditional put decides.
\<close>

definition attempt ::
    "'d \<Rightarrow> ('d, 'e, 'r) closure \<Rightarrow> ('d, 't) cache \<Rightarrow> ('e os_error + 'r) \<times> ('d, 't) data_version" where
  "attempt dflt f cache =
     (let dv = (case cache of Some dv \<Rightarrow> dv | None \<Rightarrow> \<lparr> dv_data = dflt, dv_version = None \<rparr>);
          (outcome, d) = f (dv_data dv)
      in (outcome, dv\<lparr>dv_data := d\<rparr>))"

datatype ('d, 't, 'e, 'r) put_decision =
    Return "'e os_error + 'r" "('d, 't) cache"
  | Retry

definition put_answer ::
    "'e os_error + 'r \<Rightarrow> ('d, 't) data_version \<Rightarrow> store_error + 't update_version \<Rightarrow> ('d, 't) cache
      \<Rightarrow> ('d, 't, 'e, 'r) put_decision" where
  "put_answer outcome dv answer cache =
     (case answer of
        Inr v \<Rightarrow> Return outcome (Some \<lparr> dv_data = dv_data dv, dv_version = Some v \<rparr>)
      | Inl Precondition \<Rightarrow> Retry
      | Inl AlreadyExists \<Rightarrow> Retry
      | Inl err \<Rightarrow> Return (Inl (ObjectStore err)) cache)"

text \<open>\<open>create\<close>: a conflict is answered by a refresh, whose outcome decides the result.\<close>

definition create_answer ::
    "'d \<Rightarrow> store_error + 't update_version \<Rightarrow> ('d, 't) cache
      \<Rightarrow> ('d, 't, 'e, bool) put_decision" where
  "create_answer d answer cache =
     (case answer of
        Inr v \<Rightarrow> Return (Inr True) (Some \<lparr> dv_data = d, dv_version = Some v \<rparr>)
      | Inl AlreadyExists \<Rightarrow> Retry
      | Inl otherwise \<Rightarrow> Return (Inl (ObjectStore otherwise)) cache)"

definition remove_answer ::
    "store_error + unit \<Rightarrow> ('d, 't) cache \<Rightarrow> ('e os_error + unit) \<times> ('d, 't) cache" where
  "remove_answer answer cache =
     (case answer of
        Inr _ \<Rightarrow> (Inr (), None)
      | Inl NotFound \<Rightarrow> (Inr (), None)
      | Inl otherwise \<Rightarrow> (Inl (ObjectStore otherwise), cache))"

section \<open>What the code relies on\<close>

type_synonym ('b, 't) obj = "('b \<times> 't update_version) option"

text \<open>A conditional put may apply: the object is absent, or it carries the version named.\<close>

fun permits :: "('b, 't) obj \<Rightarrow> 't put_mode \<Rightarrow> bool" where
  "permits ob PutCreate = (ob = None)"
| "permits ob (PutUpdate v) = (\<exists>b. ob = Some (b, v))"

type_synonym ('b, 't) puts = "('b, 't) obj \<Rightarrow> 't put_mode \<Rightarrow> 'b \<Rightarrow> store_error + 't update_version \<Rightarrow> ('b, 't) obj \<Rightarrow> bool"
type_synonym ('b, 't) gets = "('b, 't) obj \<Rightarrow> 't option \<Rightarrow> store_error + ('b \<times> 't update_version) \<Rightarrow> bool"
type_synonym ('b, 't) dels = "('b, 't) obj \<Rightarrow> store_error + unit \<Rightarrow> ('b, 't) obj \<Rightarrow> bool"

text \<open>
  The documented behaviour of a store with conditional writes. A put that answers a version was
  permitted and is now the object; one that answers an error left the object alone, or failed in
  transport after it had been applied. \<open>content v\<close> is the payload the version \<open>v\<close> was handed out for: a
  version never names two payloads.
\<close>

definition conditional_store ::
    "('t update_version \<Rightarrow> 'b) \<Rightarrow> ('b, 't) puts \<Rightarrow> ('b, 't) gets \<Rightarrow> ('b, 't) dels \<Rightarrow> bool" where
  "conditional_store content puts gets dels \<longleftrightarrow>
     (\<forall>ob m b v ob'. puts ob m b (Inr v) ob' \<longrightarrow> permits ob m \<and> ob' = Some (b, v) \<and> content v = b) \<and>
     (\<forall>ob m b e ob'. puts ob m b (Inl e) ob' \<longrightarrow>
        ob' = ob \<or> e = OtherStoreError \<and> permits ob m \<and> (\<exists>v. ob' = Some (b, v) \<and> content v = b)) \<and>
     (\<forall>ob c b v. gets ob c (Inr (b, v)) \<longrightarrow> ob = Some (b, v)) \<and>
     (\<forall>ob c. gets ob c (Inl NotFound) \<longrightarrow> ob = None) \<and>
     (\<forall>ob a ob'. dels ob a ob' \<longrightarrow> ob' = None \<or> (\<exists>e. a = Inl e) \<and> ob' = ob)"

text \<open>The codec reads back what it wrote.\<close>

definition codec_reads_back :: "('d \<Rightarrow> 'b option) \<Rightarrow> ('b \<Rightarrow> 'd option) \<Rightarrow> bool" where
  "codec_reads_back ser de \<longleftrightarrow> (\<forall>d b. ser d = Some b \<longrightarrow> de b = Some d)"

text \<open>A store with no outage: a put is refused only for a version that no longer stands.\<close>

definition reliable_store :: "('b, 't) puts \<Rightarrow> ('b, 't) gets \<Rightarrow> bool" where
  "reliable_store puts gets \<longleftrightarrow>
     (\<forall>ob m b e ob'. puts ob m b (Inl e) ob' \<longrightarrow> (e = Precondition \<or> e = AlreadyExists) \<and> \<not> permits ob m) \<and>
     (\<forall>ob e. gets ob None (Inl e) \<longrightarrow> e = NotFound)"

section \<open>Tasks interleaving at every await\<close>

datatype ('d, 'b, 't, 'e, 'r) phase =
    Idle
  | Locking "('d, 'e, 'r) closure"
  | Putting "('d, 'e, 'r) closure" "'e os_error + 'r" "('d, 't) data_version" 'b
  | PutAnswered "('d, 'e, 'r) closure" "'e os_error + 'r" "('d, 't) data_version" "store_error + 't update_version"
  | Refetching "('d, 'e, 'r) closure"
  | Refetched "('d, 'e, 'r) closure" "store_error + ('b \<times> 't update_version)"
  | Refreshing
  | Refreshed "store_error + ('b \<times> 't update_version)"
  | Creating 'd 'b
  | CreateAnswered 'd "store_error + 't update_version"
  | Removing
  | RemoveAnswered "store_error + unit"
  | Returned "'e os_error + 'r"

record ('d, 'b, 't, 'e, 'r, 'h, 'k) system =
  object :: "('b, 't) obj"
  caches :: "'h \<Rightarrow> ('d, 't) cache"
  tasks :: "'k \<Rightarrow> ('d, 'b, 't, 'e, 'r) phase"

text \<open>What happened to the document, in the order it happened.\<close>

datatype ('d, 'e, 'r) event =
    Applied "('d, 'e, 'r) closure" "'e os_error + 'r"
  | Created 'd
  | Removed

definition goto ::
    "'k \<Rightarrow> ('d, 'b, 't, 'e, 'r) phase \<Rightarrow> ('d, 'b, 't, 'e, 'r, 'h, 'k) system
      \<Rightarrow> ('d, 'b, 't, 'e, 'r, 'h, 'k) system" where
  "goto k ph s = s\<lparr>tasks := (tasks s)(k := ph)\<rparr>"

definition cache_in ::
    "'h \<Rightarrow> ('d, 't) cache \<Rightarrow> ('d, 'b, 't, 'e, 'r, 'h, 'k) system
      \<Rightarrow> ('d, 'b, 't, 'e, 'r, 'h, 'k) system" where
  "cache_in h c s = s\<lparr>caches := (caches s)(h := c)\<rparr>"

text \<open>
  One step of the task \<open>k\<close>, which works through the handle \<open>hnd k\<close>. Each rule is the code between two
  awaits, or one request reaching the store.
\<close>

inductive task_step ::
    "('d \<Rightarrow> 'b option) \<Rightarrow> ('b \<Rightarrow> 'd option) \<Rightarrow> 'd \<Rightarrow> ('b, 't) puts \<Rightarrow> ('b, 't) gets \<Rightarrow> ('b, 't) dels
      \<Rightarrow> ('k \<Rightarrow> 'h) \<Rightarrow> 'k \<Rightarrow> ('d, 'b, 't, 'e, 'r, 'h, 'k) system \<Rightarrow> ('d, 'e, 'r) event list
      \<Rightarrow> ('d, 'b, 't, 'e, 'r, 'h, 'k) system \<Rightarrow> bool"
  for ser de dflt puts gets dels hnd k
where
  lock: "tasks s k = Locking f \<Longrightarrow> attempt dflt f (caches s (hnd k)) = (outcome, dv) \<Longrightarrow>
     ser (dv_data dv) = Some payload \<Longrightarrow>
     task_step ser de dflt puts gets dels hnd k s [] (goto k (Putting f outcome dv payload) s)"
| lock_serde: "tasks s k = Locking f \<Longrightarrow> attempt dflt f (caches s (hnd k)) = (outcome, dv) \<Longrightarrow>
     ser (dv_data dv) = None \<Longrightarrow>
     task_step ser de dflt puts gets dels hnd k s [] (goto k (Returned (Inl SerdeJson)) s)"
| put_ok: "tasks s k = Putting f outcome dv payload \<Longrightarrow>
     puts (object s) (put_mode_of dv) payload (Inr v) ob \<Longrightarrow>
     task_step ser de dflt puts gets dels hnd k s [Applied f outcome]
       (goto k (PutAnswered f outcome dv (Inr v)) (s\<lparr>object := ob\<rparr>))"
| put_refused: "tasks s k = Putting f outcome dv payload \<Longrightarrow>
     puts (object s) (put_mode_of dv) payload (Inl e) (object s) \<Longrightarrow>
     task_step ser de dflt puts gets dels hnd k s [] (goto k (PutAnswered f outcome dv (Inl e)) s)"
| put_unheard: "tasks s k = Putting f outcome dv payload \<Longrightarrow>
     puts (object s) (put_mode_of dv) payload (Inl e) ob \<Longrightarrow> ob \<noteq> object s \<Longrightarrow>
     task_step ser de dflt puts gets dels hnd k s [Applied f outcome]
       (goto k (PutAnswered f outcome dv (Inl e)) (s\<lparr>object := ob\<rparr>))"
| put_return: "tasks s k = PutAnswered f outcome dv answer \<Longrightarrow>
     put_answer outcome dv answer (caches s (hnd k)) = Return result c \<Longrightarrow>
     task_step ser de dflt puts gets dels hnd k s [] (goto k (Returned result) (cache_in (hnd k) c s))"
| put_retry: "tasks s k = PutAnswered f outcome dv answer \<Longrightarrow>
     put_answer outcome dv answer (caches s (hnd k)) = Retry \<Longrightarrow>
     task_step ser de dflt puts gets dels hnd k s [] (goto k (Refetching f) s)"
| refetch: "tasks s k = Refetching f \<Longrightarrow> gets (object s) None answer \<Longrightarrow>
     task_step ser de dflt puts gets dels hnd k s [] (goto k (Refetched f answer) s)"
| refetched: "tasks s k = Refetched f answer \<Longrightarrow>
     get_answer de answer (caches s (hnd k)) = (Inr () :: 'e os_error + unit, c) \<Longrightarrow>
     task_step ser de dflt puts gets dels hnd k s [] (goto k (Locking f) (cache_in (hnd k) c s))"
| refetch_failed: "tasks s k = Refetched f answer \<Longrightarrow>
     get_answer de answer (caches s (hnd k)) = (Inl (e :: 'e os_error), c) \<Longrightarrow>
     task_step ser de dflt puts gets dels hnd k s [] (goto k (Returned (Inl e)) (cache_in (hnd k) c s))"
| refresh: "tasks s k = Refreshing \<Longrightarrow>
     gets (object s) (refresh_if_none_match (caches s (hnd k))) answer \<Longrightarrow>
     task_step ser de dflt puts gets dels hnd k s [] (goto k (Refreshed answer) s)"
| refreshed: "tasks s k = Refreshed answer \<Longrightarrow>
     refresh_answer de answer (caches s (hnd k)) = (result :: 'e os_error + unit, c) \<Longrightarrow>
     task_step ser de dflt puts gets dels hnd k s [] (goto k Idle (cache_in (hnd k) c s))"
| create_ok: "tasks s k = Creating d payload \<Longrightarrow> puts (object s) PutCreate payload (Inr v) ob \<Longrightarrow>
     task_step ser de dflt puts gets dels hnd k s [Created d]
       (goto k (CreateAnswered d (Inr v)) (s\<lparr>object := ob\<rparr>))"
| create_refused: "tasks s k = Creating d payload \<Longrightarrow>
     puts (object s) PutCreate payload (Inl e) (object s) \<Longrightarrow>
     task_step ser de dflt puts gets dels hnd k s [] (goto k (CreateAnswered d (Inl e)) s)"
| create_unheard: "tasks s k = Creating d payload \<Longrightarrow>
     puts (object s) PutCreate payload (Inl e) ob \<Longrightarrow> ob \<noteq> object s \<Longrightarrow>
     task_step ser de dflt puts gets dels hnd k s [Created d]
       (goto k (CreateAnswered d (Inl e)) (s\<lparr>object := ob\<rparr>))"
| create_return: "tasks s k = CreateAnswered d answer \<Longrightarrow>
     create_answer d answer (caches s (hnd k)) = Return (result :: 'e os_error + bool) c \<Longrightarrow>
     task_step ser de dflt puts gets dels hnd k s [] (goto k Idle (cache_in (hnd k) c s))"
| create_refresh: "tasks s k = CreateAnswered d answer \<Longrightarrow>
     create_answer d answer (caches s (hnd k)) = (Retry :: ('d, 't, 'e, bool) put_decision) \<Longrightarrow>
     task_step ser de dflt puts gets dels hnd k s [] (goto k Refreshing s)"
| remove: "tasks s k = Removing \<Longrightarrow> dels (object s) answer ob \<Longrightarrow>
     task_step ser de dflt puts gets dels hnd k s (if ob = object s then [] else [Removed])
       (goto k (RemoveAnswered answer) (s\<lparr>object := ob\<rparr>))"
| removed: "tasks s k = RemoveAnswered answer \<Longrightarrow>
     remove_answer answer (caches s (hnd k)) = (result :: 'e os_error + unit, c) \<Longrightarrow>
     task_step ser de dflt puts gets dels hnd k s [] (goto k Idle (cache_in (hnd k) c s))"

text \<open>A task that is idle or has returned may be given its next call.\<close>

definition callable :: "('d, 'b, 't, 'e, 'r) phase \<Rightarrow> bool" where
  "callable ph \<longleftrightarrow> ph = Idle \<or> (\<exists>r. ph = Returned r)"

inductive runs ::
    "('d \<Rightarrow> 'b option) \<Rightarrow> ('b \<Rightarrow> 'd option) \<Rightarrow> 'd \<Rightarrow> ('b, 't) puts \<Rightarrow> ('b, 't) gets \<Rightarrow> ('b, 't) dels
      \<Rightarrow> ('k \<Rightarrow> 'h) \<Rightarrow> ('d, 'b, 't, 'e, 'r, 'h, 'k) system \<Rightarrow> ('d, 'e, 'r) event list
      \<Rightarrow> ('d, 'b, 't, 'e, 'r, 'h, 'k) system \<Rightarrow> bool"
  for ser de dflt puts gets dels hnd s\<^sub>0
where
  runs_refl: "runs ser de dflt puts gets dels hnd s\<^sub>0 [] s\<^sub>0"
| runs_step: "runs ser de dflt puts gets dels hnd s\<^sub>0 es s \<Longrightarrow>
     task_step ser de dflt puts gets dels hnd k s ev s' \<Longrightarrow>
     runs ser de dflt puts gets dels hnd s\<^sub>0 (es @ ev) s'"
| runs_with_mut: "runs ser de dflt puts gets dels hnd s\<^sub>0 es s \<Longrightarrow> callable (tasks s k) \<Longrightarrow>
     runs ser de dflt puts gets dels hnd s\<^sub>0 es (goto k (Locking f) s)"
| runs_read: "runs ser de dflt puts gets dels hnd s\<^sub>0 es s \<Longrightarrow> callable (tasks s k) \<Longrightarrow>
     runs ser de dflt puts gets dels hnd s\<^sub>0 es (goto k Refreshing s)"
| runs_create: "runs ser de dflt puts gets dels hnd s\<^sub>0 es s \<Longrightarrow> callable (tasks s k) \<Longrightarrow>
     ser d = Some payload \<Longrightarrow>
     runs ser de dflt puts gets dels hnd s\<^sub>0 es (goto k (Creating d payload) s)"
| runs_remove: "runs ser de dflt puts gets dels hnd s\<^sub>0 es s \<Longrightarrow> callable (tasks s k) \<Longrightarrow>
     runs ser de dflt puts gets dels hnd s\<^sub>0 es (goto k Removing s)"

section \<open>The specification: one document, edited atomically\<close>

fun replay :: "'d \<Rightarrow> ('d, 'e, 'r) event list \<Rightarrow> 'd option \<Rightarrow> 'd option option" where
  "replay dflt [] doc = Some doc"
| "replay dflt (Applied f outcome # es) doc =
     (let (outcome', d) = f (case doc of None \<Rightarrow> dflt | Some d \<Rightarrow> d)
      in if outcome' = outcome then replay dflt es (Some d) else None)"
| "replay dflt (Created d # es) doc = (if doc = None then replay dflt es (Some d) else None)"
| "replay dflt (Removed # es) doc = replay dflt es None"

definition document :: "('b \<Rightarrow> 'd option) \<Rightarrow> ('b, 't) obj \<Rightarrow> 'd option" where
  "document de ob = (case ob of None \<Rightarrow> None | Some (b, _) \<Rightarrow> de b)"

section \<open>No edit is lost\<close>

definition based_on :: "('t update_version \<Rightarrow> 'b) \<Rightarrow> ('b \<Rightarrow> 'd option) \<Rightarrow> 'd \<Rightarrow> 'd \<Rightarrow> 't update_version option \<Rightarrow> bool" where
  "based_on content de dflt base ver =
     (case ver of None \<Rightarrow> base = dflt | Some v \<Rightarrow> de (content v) = Some base)"

fun phase_ok :: "('t update_version \<Rightarrow> 'b) \<Rightarrow> ('d \<Rightarrow> 'b option) \<Rightarrow> ('b \<Rightarrow> 'd option) \<Rightarrow> 'd
    \<Rightarrow> ('d, 'b, 't, 'e, 'r) phase \<Rightarrow> bool" where
  "phase_ok content ser de dflt (Putting f outcome dv payload) =
     (ser (dv_data dv) = Some payload \<and>
      (\<exists>base. f base = (outcome, dv_data dv) \<and> based_on content de dflt base (dv_version dv)))"
| "phase_ok content ser de dflt (PutAnswered f outcome dv (Inr v)) = (de (content v) = Some (dv_data dv))"
| "phase_ok content ser de dflt (Refetched f (Inr (b, v))) = (content v = b)"
| "phase_ok content ser de dflt (Refreshed (Inr (b, v))) = (content v = b)"
| "phase_ok content ser de dflt (Creating d payload) = (ser d = Some payload)"
| "phase_ok content ser de dflt (CreateAnswered d (Inr v)) = (de (content v) = Some d)"
| "phase_ok content ser de dflt _ = True"

definition cache_ok :: "('t update_version \<Rightarrow> 'b) \<Rightarrow> ('b \<Rightarrow> 'd option) \<Rightarrow> ('d, 't) cache \<Rightarrow> bool" where
  "cache_ok content de c =
     (case c of None \<Rightarrow> True
      | Some dv \<Rightarrow> (\<exists>v. dv_version dv = Some v \<and> de (content v) = Some (dv_data dv)))"

definition object_ok :: "('t update_version \<Rightarrow> 'b) \<Rightarrow> ('b \<Rightarrow> 'd option) \<Rightarrow> ('b, 't) obj \<Rightarrow> bool" where
  "object_ok content de ob = (case ob of None \<Rightarrow> True | Some (b, v) \<Rightarrow> content v = b \<and> de b \<noteq> None)"

definition system_ok :: "('t update_version \<Rightarrow> 'b) \<Rightarrow> ('d \<Rightarrow> 'b option) \<Rightarrow> ('b \<Rightarrow> 'd option) \<Rightarrow> 'd
    \<Rightarrow> ('d, 'b, 't, 'e, 'r, 'h, 'k) system \<Rightarrow> bool" where
  "system_ok content ser de dflt s \<longleftrightarrow> object_ok content de (object s) \<and>
     (\<forall>h. cache_ok content de (caches s h)) \<and> (\<forall>k. phase_ok content ser de dflt (tasks s k))"

lemma goto_simps [simp]:
  "object (goto k ph s) = object s" "caches (goto k ph s) = caches s"
  "tasks (goto k ph s) = (tasks s)(k := ph)"
  "object (cache_in h c s) = object s" "caches (cache_in h c s) = (caches s)(h := c)"
  "tasks (cache_in h c s) = tasks s"
  by (simp_all add: goto_def cache_in_def)

lemma system_ok_goto:
  "system_ok content ser de dflt s \<Longrightarrow> phase_ok content ser de dflt ph \<Longrightarrow>
   system_ok content ser de dflt (goto k ph s)"
  by (simp add: system_ok_def)

lemma system_ok_cache:
  "system_ok content ser de dflt s \<Longrightarrow> cache_ok content de c \<Longrightarrow>
   system_ok content ser de dflt (cache_in h c s)"
  by (simp add: system_ok_def)

lemma system_ok_object:
  "system_ok content ser de dflt s \<Longrightarrow> object_ok content de ob \<Longrightarrow>
   system_ok content ser de dflt (s\<lparr>object := ob\<rparr>)"
  by (simp add: system_ok_def)

lemma system_okD:
  assumes "system_ok content ser de dflt s"
  shows "object_ok content de (object s)" "cache_ok content de (caches s h)"
    "phase_ok content ser de dflt (tasks s k)"
  using assms by (auto simp: system_ok_def)

lemma attempt_based_on:
  assumes "cache_ok content de c" and "attempt dflt f c = (outcome, dv)"
  shows "\<exists>base. f base = (outcome, dv_data dv) \<and> based_on content de dflt base (dv_version dv)"
  using assms
  by (cases c) (auto simp: attempt_def cache_ok_def based_on_def Let_def split: prod.splits)

lemma get_answer_cache_ok:
  assumes "cache_ok content de c" and "get_answer de answer c = (result, c')"
    and "\<And>b v. answer = Inr (b, v) \<Longrightarrow> content v = b"
  shows "cache_ok content de c'"
  using assms
  by (auto simp: get_answer_def cache_ok_def split: sum.splits option.splits store_error.splits prod.splits)

lemma refresh_answer_cache_ok:
  assumes "cache_ok content de c" and "refresh_answer de answer c = (result, c')"
    and "\<And>b v. answer = Inr (b, v) \<Longrightarrow> content v = b"
  shows "cache_ok content de c'"
  using assms
  by (auto simp: refresh_answer_def cache_ok_def split: sum.splits option.splits store_error.splits prod.splits)

lemma put_answer_cache_ok:
  assumes "cache_ok content de c" and "put_answer outcome dv answer c = Return result c'"
    and "\<And>v. answer = Inr v \<Longrightarrow> de (content v) = Some (dv_data dv)"
  shows "cache_ok content de c'"
  using assms by (auto simp: put_answer_def cache_ok_def split: sum.splits store_error.splits)

lemma create_answer_cache_ok:
  assumes "cache_ok content de c" and "create_answer d answer c = Return result c'"
    and "\<And>v. answer = Inr v \<Longrightarrow> de (content v) = Some d"
  shows "cache_ok content de c'"
  using assms by (auto simp: create_answer_def cache_ok_def split: sum.splits store_error.splits)

lemma remove_answer_cache_ok:
  assumes "cache_ok content de c" and "remove_answer answer c = (result, c')"
  shows "cache_ok content de c'"
  using assms by (auto simp: remove_answer_def cache_ok_def split: sum.splits store_error.splits)

text \<open>The two ways a put changes the object, and what each makes of the document.\<close>

lemma store_put_ok:
  assumes "conditional_store content puts gets dels" and "puts ob m b (Inr v) ob'"
  shows "permits ob m \<and> ob' = Some (b, v) \<and> content v = b"
  using assms unfolding conditional_store_def by blast

lemma store_put_unheard:
  assumes "conditional_store content puts gets dels" and "puts ob m b (Inl e) ob'" and "ob' \<noteq> ob"
  obtains v where "permits ob m" "ob' = Some (b, v)" "content v = b"
  using assms unfolding conditional_store_def by blast

lemma store_get:
  assumes "conditional_store content puts gets dels"
  shows "gets ob c (Inr (b, v)) \<Longrightarrow> ob = Some (b, v)" and "gets ob c (Inl NotFound) \<Longrightarrow> ob = None"
  using assms unfolding conditional_store_def by blast+

lemma store_get_content:
  assumes "conditional_store content puts gets dels" and "object_ok content de ob"
    and "gets ob c (Inr (b, v))"
  shows "content v = b"
  using store_get(1) [OF assms(1,3)] assms(2) by (simp add: object_ok_def)

lemma store_del:
  assumes "conditional_store content puts gets dels" and "dels ob a ob'"
  shows "ob' = None \<or> ob' = ob"
  using assms unfolding conditional_store_def by blast

lemma permitted_base:
  assumes "permits ob (put_mode_of dv)" and "object_ok content de ob"
    and "based_on content de dflt base (dv_version dv)"
  shows "base = (case document de ob of None \<Rightarrow> dflt | Some d \<Rightarrow> d)"
  using assms
  by (cases "dv_version dv") (auto simp: put_mode_of_def based_on_def object_ok_def document_def)

lemma applied_replay:
  assumes "phase_ok content ser de dflt (Putting f outcome dv payload)"
    and "permits ob (put_mode_of dv)" and "object_ok content de ob" and "codec_reads_back ser de"
  shows "replay dflt [Applied f outcome] (document de ob) = Some (document de (Some (payload, v)))"
proof -
  obtain base where base: "f base = (outcome, dv_data dv)" "based_on content de dflt base (dv_version dv)"
    and ser: "ser (dv_data dv) = Some payload" using assms(1) by auto
  have "base = (case document de ob of None \<Rightarrow> dflt | Some d \<Rightarrow> d)"
    using permitted_base [OF assms(2,3) base(2)] .
  moreover have "de payload = Some (dv_data dv)"
    using assms(4) ser by (auto simp: codec_reads_back_def)
  ultimately show ?thesis using base(1) by (simp add: document_def)
qed

lemma object_ok_written:
  assumes "codec_reads_back ser de" and "ser d = Some payload" and "content v = payload"
  shows "object_ok content de (Some (payload, v))"
  using assms by (auto simp: object_ok_def codec_reads_back_def)

lemma step_keeps:
  assumes store: "conditional_store content puts gets dels" and codec: "codec_reads_back ser de"
    and step: "task_step ser de dflt puts gets dels hnd k s ev s'"
    and ok: "system_ok content ser de dflt s"
  shows "system_ok content ser de dflt s' \<and>
    replay dflt ev (document de (object s)) = Some (document de (object s'))"
  using step
proof cases
  case (lock f outcome dv payload)
  have "phase_ok content ser de dflt (Putting f outcome dv payload)"
    using attempt_based_on [OF system_okD(2) [OF ok] lock(4)] lock(5) by simp
  then show ?thesis using lock by (simp add: system_ok_goto [OF ok])
next
  case (put_ok f outcome dv payload v ob)
  have put: "permits (object s) (put_mode_of dv)" "ob = Some (payload, v)" "content v = payload"
    using store_put_ok [OF store put_ok(4)] by simp_all
  have ph: "phase_ok content ser de dflt (Putting f outcome dv payload)"
    using system_okD(3) [OF ok, of k] put_ok(3) by simp
  then have obj: "object_ok content de ob" "de (content v) = Some (dv_data dv)"
    using object_ok_written [OF codec, of _ payload content v] codec put
    by (auto simp: codec_reads_back_def)
  show ?thesis
    using applied_replay [OF ph put(1) system_okD(1) [OF ok] codec, of v] put_ok(1,2) put(2) obj
    by (simp add: system_ok_goto system_ok_object [OF ok])
next
  case (put_unheard f outcome dv payload e ob)
  obtain v where put: "permits (object s) (put_mode_of dv)" "ob = Some (payload, v)" "content v = payload"
    using store_put_unheard [OF store put_unheard(4,5)] .
  have ph: "phase_ok content ser de dflt (Putting f outcome dv payload)"
    using system_okD(3) [OF ok, of k] put_unheard(3) by simp
  then have obj: "object_ok content de ob"
    using object_ok_written [OF codec, of _ payload content v] put by auto
  show ?thesis
    using applied_replay [OF ph put(1) system_okD(1) [OF ok] codec, of v] put_unheard(1,2) put(2) obj
    by (simp add: system_ok_goto system_ok_object [OF ok])
next
  case (put_return f outcome dv answer result c)
  have "cache_ok content de c"
    by (rule put_answer_cache_ok [OF system_okD(2) [OF ok] put_return(4)])
      (use system_okD(3) [OF ok, of k] put_return(3) in simp)
  then show ?thesis using put_return by (simp add: system_ok_goto system_ok_cache [OF ok])
next
  case (refetch f answer)
  have "phase_ok content ser de dflt (Refetched f answer)"
    using refetch(4) by (cases answer) (auto dest: store_get_content [OF store system_okD(1) [OF ok]])
  then show ?thesis using refetch by (simp add: system_ok_goto [OF ok])
next
  case (refetched f answer c)
  have "cache_ok content de c"
    by (rule get_answer_cache_ok [OF system_okD(2) [OF ok] refetched(4)])
      (use system_okD(3) [OF ok, of k] refetched(3) in simp)
  then show ?thesis using refetched by (simp add: system_ok_goto system_ok_cache [OF ok])
next
  case (refetch_failed f answer e c)
  have "cache_ok content de c"
    by (rule get_answer_cache_ok [OF system_okD(2) [OF ok] refetch_failed(4)])
      (use system_okD(3) [OF ok, of k] refetch_failed(3) in simp)
  then show ?thesis using refetch_failed by (simp add: system_ok_goto system_ok_cache [OF ok])
next
  case (refresh answer)
  have "phase_ok content ser de dflt (tasks s' k)"
    using refresh(2,4) by (cases answer) (auto dest: store_get_content [OF store system_okD(1) [OF ok]])
  then show ?thesis using refresh(1,2) by (simp add: system_ok_goto [OF ok])
next
  case (refreshed answer result c)
  have "cache_ok content de c"
    by (rule refresh_answer_cache_ok [OF system_okD(2) [OF ok] refreshed(4)])
      (use system_okD(3) [OF ok, of k] refreshed(3) in simp)
  then show ?thesis using refreshed by (simp add: system_ok_goto system_ok_cache [OF ok])
next
  case (create_ok d payload v ob)
  have put: "object s = None" "ob = Some (payload, v)" "content v = payload"
    using store_put_ok [OF store create_ok(4)] by simp_all
  have ser: "ser d = Some payload" using system_okD(3) [OF ok, of k] create_ok(3) by simp
  then have "de payload = Some d" using codec by (simp add: codec_reads_back_def)
  then show ?thesis
    using create_ok(1,2) put object_ok_written [OF codec ser, of content v]
    by (simp add: system_ok_goto system_ok_object [OF ok] document_def)
next
  case (create_unheard d payload e ob)
  obtain v where put: "object s = None" "ob = Some (payload, v)" "content v = payload"
    using store_put_unheard [OF store create_unheard(4,5)] by auto
  have ser: "ser d = Some payload" using system_okD(3) [OF ok, of k] create_unheard(3) by simp
  then have "de payload = Some d" using codec by (simp add: codec_reads_back_def)
  then show ?thesis
    using create_unheard(1,2) put object_ok_written [OF codec ser, of content v]
    by (simp add: system_ok_goto system_ok_object [OF ok] document_def)
next
  case (create_return d answer result c)
  have "cache_ok content de c"
    by (rule create_answer_cache_ok [OF system_okD(2) [OF ok] create_return(4)])
      (use system_okD(3) [OF ok, of k] create_return(3) in simp)
  then show ?thesis using create_return by (simp add: system_ok_goto system_ok_cache [OF ok])
next
  case (remove answer ob)
  have "ob = None \<or> ob = object s" using store_del [OF store remove(4)] .
  then show ?thesis using remove(1,2) system_okD(1) [OF ok]
    by (elim disjE) (simp_all add: system_ok_goto system_ok_object [OF ok] ok object_ok_def document_def)
next
  case (removed answer result c)
  have "cache_ok content de c" using remove_answer_cache_ok [OF system_okD(2) [OF ok] removed(4)] .
  then show ?thesis using removed by (simp add: system_ok_goto system_ok_cache [OF ok])
qed (simp_all add: system_ok_goto [OF ok])

lemma replay_append: "replay dflt (es @ ev) doc = Option.bind (replay dflt es doc) (replay dflt ev)"
  by (induction dflt es doc rule: replay.induct) (auto simp: Let_def split: prod.splits)

lemma runs_keeps:
  assumes "conditional_store content puts gets dels" and "codec_reads_back ser de"
    and "runs ser de dflt puts gets dels hnd s\<^sub>0 es s" and "system_ok content ser de dflt s\<^sub>0"
  shows "system_ok content ser de dflt s \<and>
    replay dflt es (document de (object s\<^sub>0)) = Some (document de (object s))"
  using assms(3)
proof induction
  case (runs_step es s k ev s')
  then show ?case using step_keeps [OF assms(1,2) runs_step(2)] by (simp add: replay_append)
qed (use assms(4) in \<open>simp_all add: system_ok_goto\<close>)

text \<open>A caller is told of success only for an edit that is in the log.\<close>

definition acknowledged :: "('d, 'e, 'r) event list \<Rightarrow> ('d, 'b, 't, 'e, 'r) phase \<Rightarrow> bool" where
  "acknowledged es ph =
     (case ph of
        PutAnswered f outcome dv (Inr v) \<Rightarrow> Applied f outcome \<in> set es
      | Returned (Inr r) \<Rightarrow> (\<exists>f. Applied f (Inr r) \<in> set es)
      | _ \<Rightarrow> True)"

lemma acknowledged_more: "acknowledged es ph \<Longrightarrow> acknowledged (es @ ev) ph"
  by (auto simp: acknowledged_def split: phase.splits sum.splits)

lemma step_others:
  assumes "task_step ser de dflt puts gets dels hnd k s ev s'" and "j \<noteq> k"
  shows "tasks s' j = tasks s j"
  using assms by cases simp_all

lemma step_acknowledged:
  assumes "task_step ser de dflt puts gets dels hnd k s ev s'" and "acknowledged es (tasks s k)"
  shows "acknowledged (es @ ev) (tasks s' k)"
  using assms
  by cases (auto simp: acknowledged_def put_answer_def split: sum.splits store_error.splits)

lemma runs_acknowledged:
  assumes "runs ser de dflt puts gets dels hnd s\<^sub>0 es s" and "\<forall>k. tasks s\<^sub>0 k = Idle"
  shows "acknowledged es (tasks s k)"
  using assms(1)
proof (induction arbitrary: k)
  case (runs_step es s j ev s')
  then show ?case
    using step_acknowledged [OF runs_step(2)] step_others [OF runs_step(2), of k]
    by (cases "k = j") (simp_all add: acknowledged_more)
qed (use assms(2) in \<open>simp_all add: acknowledged_def\<close>)

text \<open>
  What a component that edits one document owes its readers: a property its edits keep holds of the
  document in every run.
\<close>

locale document_invariant =
  fixes edits :: "('d, 'e, 'r) closure set" and inv :: "'d \<Rightarrow> bool" and dflt :: 'd
  assumes inv_default: "inv dflt"
    and inv_edit: "f \<in> edits \<Longrightarrow> inv d \<Longrightarrow> inv (snd (f d))"
begin

definition edits_only :: "('d, 'e, 'r) event list \<Rightarrow> bool" where
  "edits_only es \<longleftrightarrow> (\<forall>ev \<in> set es. \<exists>f r. f \<in> edits \<and> ev = Applied f r)"

lemma replay_inv:
  assumes "edits_only es" and "replay dflt es doc = Some doc'" and "\<And>d. doc = Some d \<Longrightarrow> inv d"
    and "doc' = Some d'"
  shows "inv d'"
  using assms
proof (induction es arbitrary: doc)
  case (Cons ev es)
  obtain f r where ev: "ev = Applied f r" "f \<in> edits" using Cons.prems(1) by (auto simp: edits_only_def)
  let ?base = "case doc of None \<Rightarrow> dflt | Some d \<Rightarrow> d"
  have "inv ?base" using Cons.prems(3) inv_default by (cases doc) auto
  then have "inv (snd (f ?base))" using inv_edit ev(2) by blast
  then show ?case
    using Cons.IH [of "Some (snd (f ?base))"] Cons.prems ev by (auto simp: edits_only_def split: prod.splits if_splits)
qed (auto simp: edits_only_def)

end

section \<open>Left alone, an edit returns\<close>

text \<open>A run in which only the task \<open>k\<close> moves, with its number of steps.\<close>

inductive solo ::
    "('d \<Rightarrow> 'b option) \<Rightarrow> ('b \<Rightarrow> 'd option) \<Rightarrow> 'd \<Rightarrow> ('b, 't) puts \<Rightarrow> ('b, 't) gets \<Rightarrow> ('b, 't) dels
      \<Rightarrow> ('k \<Rightarrow> 'h) \<Rightarrow> 'k \<Rightarrow> ('d, 'b, 't, 'e, 'r, 'h, 'k) system \<Rightarrow> nat \<Rightarrow> ('d, 'e, 'r) event list
      \<Rightarrow> ('d, 'b, 't, 'e, 'r, 'h, 'k) system \<Rightarrow> bool"
  for ser de dflt puts gets dels hnd k s\<^sub>0
where
  solo_refl: "solo ser de dflt puts gets dels hnd k s\<^sub>0 0 [] s\<^sub>0"
| solo_step: "solo ser de dflt puts gets dels hnd k s\<^sub>0 n es s \<Longrightarrow>
     task_step ser de dflt puts gets dels hnd k s ev s' \<Longrightarrow>
     solo ser de dflt puts gets dels hnd k s\<^sub>0 (Suc n) (es @ ev) s'"

definition always_answers :: "('b, 't) puts \<Rightarrow> ('b, 't) gets \<Rightarrow> bool" where
  "always_answers puts gets \<longleftrightarrow>
     (\<forall>ob m b. \<exists>answer ob'. puts ob m b answer ob') \<and> (\<forall>ob c. \<exists>answer. gets ob c answer)"

text \<open>Steps still ahead of a task in \<open>with_mut\<close>: a put from a current cache is not refused.\<close>

definition is_current :: "('b, 't) obj \<Rightarrow> ('d, 't) cache \<Rightarrow> bool" where
  "is_current ob c \<longleftrightarrow> permits ob (case c of None \<Rightarrow> PutCreate | Some dv \<Rightarrow> put_mode_of dv)"

fun ahead :: "('b, 't) obj \<Rightarrow> ('d, 't) cache \<Rightarrow> ('d, 'b, 't, 'e, 'r) phase \<Rightarrow> nat" where
  "ahead ob c (Returned r) = 0"
| "ahead ob c (PutAnswered f outcome dv answer) = (case answer of Inr v \<Rightarrow> 1 | Inl e \<Rightarrow> 6)"
| "ahead ob c (Putting f outcome dv payload) = (if permits ob (put_mode_of dv) then 2 else 7)"
| "ahead ob c (Locking f) = (if is_current ob c then 3 else 8)"
| "ahead ob c (Refetched f answer) = 4"
| "ahead ob c (Refetching f) = 5"
| "ahead ob c _ = 0"

text \<open>What a task alone in \<open>with_mut f\<close> can be doing, given the events so far.\<close>

fun alone :: "('d, 'e, 'r) closure \<Rightarrow> ('d, 'e, 'r) event list \<Rightarrow> ('b, 't) obj \<Rightarrow> ('d, 'b, 't, 'e, 'r) phase \<Rightarrow> bool" where
  "alone f es ob (Locking g) = (g = f \<and> es = [])"
| "alone f es ob (Putting g outcome dv payload) = (g = f \<and> es = [])"
| "alone f es ob (PutAnswered g outcome dv (Inr v)) = (g = f \<and> es = [Applied f outcome])"
| "alone f es ob (PutAnswered g outcome dv (Inl e)) =
     (g = f \<and> es = [] \<and> (e = Precondition \<or> e = AlreadyExists))"
| "alone f es ob (Refetching g) = (g = f \<and> es = [])"
| "alone f es ob (Refetched g answer) =
     (g = f \<and> es = [] \<and> (case answer of Inr (b, v) \<Rightarrow> ob = Some (b, v) | Inl e \<Rightarrow> e = NotFound \<and> ob = None))"
| "alone f es ob (Returned r) = (es = [Applied f r])"
| "alone f es ob _ = False"

lemma attempt_mode:
  "attempt dflt f c = (outcome, dv) \<Longrightarrow>
   put_mode_of dv = (case c of None \<Rightarrow> PutCreate | Some dv \<Rightarrow> put_mode_of dv)"
  by (cases c) (auto simp: attempt_def put_mode_of_def Let_def split: prod.splits)

lemma refetched_current:
  assumes "case answer of Inr (b, v) \<Rightarrow> ob = Some (b, v) | Inl e \<Rightarrow> e = NotFound \<and> ob = None"
    and "object_ok content de ob" and "get_answer de answer c = (result, c')"
  shows "result = Inr () \<and> is_current ob c'"
  using assms
  by (cases answer)
    (auto simp: get_answer_def is_current_def put_mode_of_def object_ok_def)

lemma solo_step_ahead:
  assumes store: "conditional_store content puts gets dels" and rel: "reliable_store puts gets"
    and ser: "\<forall>d. ser d \<noteq> None"
    and ok: "system_ok content ser de dflt s" and al: "alone f es (object s) (tasks s k)"
    and step: "task_step ser de dflt puts gets dels hnd k s ev s'"
  shows "alone f (es @ ev) (object s') (tasks s' k) \<and>
    ahead (object s') (caches s' (hnd k)) (tasks s' k) < ahead (object s) (caches s (hnd k)) (tasks s k)"
  using step
proof cases
  case (lock g outcome dv payload)
  then show ?thesis using al attempt_mode [OF lock(4)] by (simp add: is_current_def)
next
  case (lock_serde g outcome dv)
  then show ?thesis using ser by simp
next
  case (put_ok g outcome dv payload v ob)
  then show ?thesis using al store_put_ok [OF store put_ok(4)] by simp
next
  case (put_refused g outcome dv payload e)
  then have "(e = Precondition \<or> e = AlreadyExists) \<and> \<not> permits (object s) (put_mode_of dv)"
    using rel unfolding reliable_store_def by blast
  then show ?thesis using put_refused al by simp
next
  case (put_unheard g outcome dv payload e ob)
  have "e = Precondition \<or> e = AlreadyExists" using put_unheard(4) rel unfolding reliable_store_def by blast
  moreover have "e = OtherStoreError" using put_unheard(4,5) store unfolding conditional_store_def by blast
  ultimately show ?thesis by simp
next
  case (put_return g outcome dv answer result c)
  then show ?thesis using al by (cases answer) (auto simp: put_answer_def)
next
  case (put_retry g outcome dv answer)
  then show ?thesis using al by (cases answer) (auto simp: put_answer_def)
next
  case (refetch g answer)
  have "case answer of Inr (b, v) \<Rightarrow> object s = Some (b, v) | Inl e \<Rightarrow> e = NotFound \<and> object s = None"
  proof (cases answer)
    case (Inl e)
    then have "e = NotFound" using rel refetch(4) unfolding reliable_store_def by blast
    then show ?thesis using Inl refetch(4) store_get(2) [OF store] by simp
  next
    case (Inr a)
    then show ?thesis using refetch(4) store_get(1) [OF store] by (cases a) simp
  qed
  then show ?thesis using refetch(1,2,3) al by simp
next
  case (refetched g answer c)
  have "case answer of Inr (b, v) \<Rightarrow> object s = Some (b, v) | Inl e \<Rightarrow> e = NotFound \<and> object s = None"
    using al refetched(3) by simp
  from refetched_current [OF this system_okD(1) [OF ok] refetched(4)]
  have "is_current (object s) c" by simp
  then show ?thesis using refetched(1,2,3) al by simp
next
  case (refetch_failed g answer e c)
  have "case answer of Inr (b, v) \<Rightarrow> object s = Some (b, v) | Inl e \<Rightarrow> e = NotFound \<and> object s = None"
    using al refetch_failed(3) by simp
  from refetched_current [OF this system_okD(1) [OF ok] refetch_failed(4)]
  show ?thesis by simp
qed (use al in simp_all)

lemma solo_ahead:
  assumes "conditional_store content puts gets dels" and "codec_reads_back ser de"
    and "reliable_store puts gets" and "\<forall>d. ser d \<noteq> None"
    and "solo ser de dflt puts gets dels hnd k s n es s'"
    and "system_ok content ser de dflt s" and "tasks s k = Locking f"
  shows "system_ok content ser de dflt s' \<and> alone f es (object s') (tasks s' k) \<and>
    n + ahead (object s') (caches s' (hnd k)) (tasks s' k) \<le> 8"
  using assms(5)
proof induction
  case solo_refl
  then show ?case using assms(6,7) by simp
next
  case (solo_step n es s\<^sub>1 ev s\<^sub>2)
  then show ?case
    using solo_step_ahead [OF assms(1,3,4) _ _ solo_step(2)] step_keeps [OF assms(1,2) solo_step(2)]
    by fastforce
qed

lemma alone_steps:
  fixes s :: "('d, 'b, 't, 'e, 'r, 'h, 'k) system"
  assumes al: "alone f es (object s) (tasks s k)" and ser: "\<forall>d. ser d \<noteq> None"
    and ans: "always_answers puts gets" and ok: "system_ok content ser de dflt s"
    and run: "\<forall>r. tasks s k \<noteq> Returned r"
  shows "\<exists>ev s'. task_step ser de dflt puts gets dels hnd k s ev s'"
proof (cases "tasks s k")
  case (Locking g)
  obtain outcome dv where at: "attempt dflt g (caches s (hnd k)) = (outcome, dv)" by fastforce
  obtain payload where "ser (dv_data dv) = Some payload" using ser by blast
  from task_step.lock [where s = s and k = k and hnd = hnd and ser = ser, OF Locking at this] show ?thesis by blast
next
  case (Putting g outcome dv payload)
  obtain answer ob where put: "puts (object s) (put_mode_of dv) payload answer ob"
    using ans unfolding always_answers_def by blast
  show ?thesis
  proof (cases answer)
    case (Inl e)
    note refused = task_step.put_refused [where s = s and k = k and puts = puts, OF Putting]
      and unheard = task_step.put_unheard [where s = s and k = k and puts = puts, OF Putting]
    show ?thesis
    proof (cases "ob = object s")
      case True
      from refused [OF put [unfolded True Inl]] show ?thesis by blast
    next
      case False
      from unheard [OF put [unfolded Inl] False] show ?thesis by blast
    qed
  next
    case (Inr v)
    from task_step.put_ok [where s = s and k = k and puts = puts, OF Putting put [unfolded Inr]]
    show ?thesis by blast
  qed
next
  case (PutAnswered g outcome dv answer)
  show ?thesis
  proof (cases "put_answer outcome dv answer (caches s (hnd k))")
    case (Return result c)
    from task_step.put_return [where s = s and k = k and hnd = hnd, OF PutAnswered Return]
    show ?thesis by blast
  next
    case Retry
    from task_step.put_retry [where s = s and k = k and hnd = hnd, OF PutAnswered Retry]
    show ?thesis by blast
  qed
next
  case (Refetching g)
  obtain answer where "gets (object s) None answer" using ans unfolding always_answers_def by blast
  from task_step.refetch [where s = s and k = k and gets = gets, OF Refetching this] show ?thesis by blast
next
  case (Refetched g answer)
  then have "case answer of Inr (b, v) \<Rightarrow> object s = Some (b, v) | Inl e \<Rightarrow> e = NotFound \<and> object s = None"
    using al by simp
  note now = refetched_current [OF this system_okD(1) [OF ok]]
  obtain result :: "'e os_error + unit" and c
    where got: "get_answer de answer (caches s (hnd k)) = (result, c)" by fastforce
  then have "get_answer de answer (caches s (hnd k)) = (Inr () :: 'e os_error + unit, c)"
    using now [OF got] by simp
  from task_step.refetched [where s = s and k = k and hnd = hnd and de = de, OF Refetched this]
  show ?thesis by blast
qed (use al run in simp_all)

lemma alone_returns:
  assumes "conditional_store content puts gets dels" and "codec_reads_back ser de"
    and "reliable_store puts gets" and "always_answers puts gets" and "\<forall>d. ser d \<noteq> None"
    and "system_ok content ser de dflt s" and "tasks s k = Locking f"
    and "solo ser de dflt puts gets dels hnd k s n es s\<^sub>1"
  shows "\<exists>m ev r s'. solo ser de dflt puts gets dels hnd k s m ev s' \<and> tasks s' k = Returned r"
  using assms(8)
proof (induction "8 - n" arbitrary: n es s\<^sub>1 rule: less_induct)
  case less
  note now = solo_ahead [OF assms(1,2,3,5) less(2) assms(6,7)]
  show ?case
  proof (cases "\<exists>r. tasks s\<^sub>1 k = Returned r")
    case False
    then obtain ev s\<^sub>2 where "task_step ser de dflt puts gets dels hnd k s\<^sub>1 ev s\<^sub>2"
      using alone_steps [OF conjunct1 [OF conjunct2 [OF now]] assms(5,4) conjunct1 [OF now]] by blast
    note solo' = solo.solo_step [OF less(2) this]
    then have "Suc n \<le> 8" using solo_ahead [OF assms(1,2,3,5) solo' assms(6,7)] by simp
    then show ?thesis using less(1) [OF _ solo'] by simp
  qed (use less(2) in blast)
qed

lemma solo_runs:
  assumes "solo ser de dflt puts gets dels hnd k s n es s'"
  shows "runs ser de dflt puts gets dels hnd s es s'"
  using assms by induction (auto intro: runs_refl runs_step)

section \<open>Properties\<close>

text \<open>A cluster as a broker finds it: no handle has read anything, no task is running.\<close>

definition fresh_system ::
    "('t update_version \<Rightarrow> 'b) \<Rightarrow> ('b \<Rightarrow> 'd option) \<Rightarrow> ('d, 'b, 't, 'e, 'r, 'h, 'k) system \<Rightarrow> bool" where
  "fresh_system content de s \<longleftrightarrow> object_ok content de (object s) \<and>
     (\<forall>h. caches s h = None) \<and> (\<forall>k. tasks s k = Idle)"

lemma fresh_system_ok: "fresh_system content de s \<Longrightarrow> system_ok content ser de dflt s"
  by (simp add: fresh_system_def system_ok_def cache_ok_def)

text \<open>
  A store whose version is the payload itself, and a codec that is the identity: the instance the
  witnesses run on.
\<close>

definition tag_of :: "'b \<Rightarrow> 'b update_version" where
  "tag_of b = \<lparr> e_tag = Some b, uv_version = None \<rparr>"

definition tag_content :: "'b update_version \<Rightarrow> 'b" where
  "tag_content v = the (e_tag v)"

definition tag_puts :: "('b, 'b) puts" where
  "tag_puts ob m b answer ob' \<longleftrightarrow>
     (if permits ob m then answer = Inr (tag_of b) \<and> ob' = Some (b, tag_of b)
      else answer = Inl Precondition \<and> ob' = ob)"

definition tag_gets :: "('b, 'b) gets" where
  "tag_gets ob c answer \<longleftrightarrow> (case ob of None \<Rightarrow> answer = Inl NotFound | Some x \<Rightarrow> answer = Inr x)"

definition tag_dels :: "('b, 'b) dels" where
  "tag_dels ob answer ob' \<longleftrightarrow> answer = Inr () \<and> ob' = None"

definition count_up :: "(nat, unit, nat) closure" where
  "count_up d = (Inr d, d + 1)"

definition tag_system :: "('d, 'd, 'd, 'e, 'r, nat, nat) system" where
  "tag_system = \<lparr> object = None, caches = (\<lambda>_. None), tasks = (\<lambda>_. Idle) \<rparr>"

lemma tag_store:
  "conditional_store tag_content tag_puts tag_gets tag_dels" "codec_reads_back Some Some"
  "reliable_store tag_puts tag_gets" "always_answers tag_puts tag_gets"
  "fresh_system tag_content Some tag_system"
  by (auto simp: conditional_store_def tag_puts_def tag_gets_def tag_dels_def tag_of_def tag_content_def
      codec_reads_back_def reliable_store_def always_answers_def fresh_system_def tag_system_def object_ok_def
      split: if_splits option.splits)

text \<open>One task editing by itself, its cache at the version stored: every edit it makes is applied.\<close>

definition tag_at :: "'d option \<Rightarrow> ('d, 'd, 'd, 'e, 'r, nat, nat) system \<Rightarrow> bool" where
  "tag_at doc s \<longleftrightarrow> callable (tasks s 0) \<and> object s = map_option (\<lambda>d. (d, tag_of d)) doc \<and>
     caches s 0 = map_option (\<lambda>d. \<lparr> dv_data = d, dv_version = Some (tag_of d) \<rparr>) doc"

lemma tag_at_start: "tag_at None tag_system"
  by (simp add: tag_at_def tag_system_def callable_def)

lemma tag_edit:
  assumes run: "runs Some Some dflt tag_puts tag_gets tag_dels id tag_system es s" and at: "tag_at doc s"
    and f: "f (case doc of None \<Rightarrow> dflt | Some d \<Rightarrow> d) = (r, d')"
  shows "\<exists>s'. runs Some Some dflt tag_puts tag_gets tag_dels id tag_system (es @ [Applied f r]) s' \<and> tag_at (Some d') s'"
proof -
  let ?runs = "runs Some Some dflt tag_puts tag_gets tag_dels id tag_system"
  let ?dv = "\<lparr> dv_data = d', dv_version = map_option tag_of doc \<rparr>"
  let ?new = "\<lparr> dv_data = d', dv_version = Some (tag_of d') \<rparr>"
  note store = tag_puts_def put_mode_of_def put_answer_def tag_of_def
  have c: "callable (tasks s 0)" "object s = map_option (\<lambda>d. (d, tag_of d)) doc" using at by (auto simp: tag_at_def)
  have a: "attempt dflt f (caches s 0) = (r, ?dv)" using at f by (cases doc) (auto simp: tag_at_def attempt_def)
  define s1 where "s1 = goto 0 (Locking f) s"
  have run: "?runs es s1" unfolding s1_def by (rule runs_with_mut [OF run c(1)])
  define s2 where "s2 = goto 0 (Putting f r ?dv d') s1"
  have "task_step Some Some dflt tag_puts tag_gets tag_dels id 0 s1 [] s2"
    unfolding s2_def by (rule task_step.lock [where payload = d'], (simp add: s1_def goto_def a)+)
  from runs_step [OF run this] have run: "?runs es s2" by simp
  define s3 where "s3 = goto 0 (PutAnswered f r ?dv (Inr (tag_of d'))) (s2\<lparr>object := Some (d', tag_of d')\<rparr>)"
  have "tag_puts (object s2) (put_mode_of ?dv) d' (Inr (tag_of d')) (Some (d', tag_of d'))"
    by (cases doc) (simp_all add: store s2_def s1_def goto_def c(2))
  then have "task_step Some Some dflt tag_puts tag_gets tag_dels id 0 s2 [Applied f r] s3"
    unfolding s3_def by (intro task_step.put_ok [where payload = d']) (simp_all add: s2_def goto_def)
  from runs_step [OF run this] have run: "?runs (es @ [Applied f r]) s3" .
  define s4 where "s4 = goto 0 (Returned r) (cache_in (id 0) (Some ?new) s3)"
  have "put_answer r ?dv (Inr (tag_of d')) (caches s3 (id 0)) = Return r (Some ?new)" by (simp add: store)
  then have "task_step Some Some dflt tag_puts tag_gets tag_dels id 0 s3 [] s4"
    unfolding s4_def by (intro task_step.put_return) (simp_all add: s3_def goto_def)
  from runs_step [OF run this] have "?runs (es @ [Applied f r]) s4" by simp
  then show ?thesis by (intro exI [of _ s4]) (simp add: tag_at_def s4_def s3_def goto_def cache_in_def callable_def)
qed

text \<open>
  C13. The document behind a handle is edited atomically. Whatever tasks on however many replicas
  interleave, including puts whose answer is lost after they were applied, the stored document is the
  one reached by running the applied closures one after the other, each with the outcome it reported,
  and a caller told of success was told of an edit in that sequence: no edit is lost and none is
  applied to a stale document.
\<close>
theorem no_edit_lost:
  assumes "conditional_store content puts gets dels" and "codec_reads_back ser de"
    and "fresh_system content de s\<^sub>0" and "runs ser de dflt puts gets dels hnd s\<^sub>0 es s"
  shows "replay dflt es (document de (object s\<^sub>0)) = Some (document de (object s)) \<and>
    (\<forall>k r. tasks s k = Returned (Inr r) \<longrightarrow> (\<exists>f. Applied f (Inr r) \<in> set es))"
proof -
  have "acknowledged es (tasks s k)" for k
    using runs_acknowledged [OF assms(4)] assms(3) by (simp add: fresh_system_def)
  then show ?thesis
    using runs_keeps [OF assms(1,2,4) fresh_system_ok [OF assms(3)]]
    by (fastforce simp: acknowledged_def split: phase.splits)
qed

theorem no_edit_lost_witness:
  "\<exists>s. runs Some Some 0 tag_puts tag_gets tag_dels id tag_system
       [Applied count_up (Inr 0), Applied count_up (Inr 1)] s \<and>
     tasks s 0 = Returned (Inr 0) \<and> tasks s 1 = Returned (Inr 1) \<and>
     replay 0 [Applied count_up (Inr 0), Applied count_up (Inr 1)] None = Some (document Some (object s)) \<and>
     document Some (object s) = Some 2"
proof -
  let ?runs = "runs Some Some 0 tag_puts tag_gets tag_dels id tag_system"
  let ?A = "Applied count_up (Inr 0)" and ?B = "Applied count_up (Inr 1)"
  let ?z = "\<lparr> dv_data = 1, dv_version = None \<rparr>"
  let ?one = "\<lparr> dv_data = 1, dv_version = Some (tag_of 1) \<rparr>"
  let ?two = "\<lparr> dv_data = 2, dv_version = Some (tag_of 1) \<rparr>"
  let ?last = "\<lparr> dv_data = 2, dv_version = Some (tag_of 2) \<rparr>"
  note store = tag_puts_def tag_gets_def tag_system_def callable_def attempt_def count_up_def put_mode_of_def
    put_answer_def get_answer_def tag_of_def
  define s0 where "s0 = goto 1 (Locking count_up) (goto 0 (Locking count_up) tag_system)"
  have run: "?runs [] s0" unfolding s0_def
    by (intro runs_with_mut runs_refl) (simp_all add: store)
  define s1 where "s1 = goto 0 (Putting count_up (Inr 0) ?z 1) s0"
  have "task_step Some Some 0 tag_puts tag_gets tag_dels id 0 s0 [] s1"
    unfolding s1_def by (rule task_step.lock, (simp add: store s0_def)+)
  from runs_step [OF run this] have run: "?runs [] s1" by simp
  define s2 where "s2 = goto 1 (Putting count_up (Inr 0) ?z 1) s1"
  have "task_step Some Some 0 tag_puts tag_gets tag_dels id 1 s1 [] s2"
    unfolding s2_def by (rule task_step.lock, (simp add: store s0_def s1_def)+)
  from runs_step [OF run this] have run: "?runs [] s2" by simp
  define s3 where "s3 = goto 0 (PutAnswered count_up (Inr 0) ?z (Inr (tag_of 1))) (s2\<lparr>object := Some (1, tag_of 1)\<rparr>)"
  have "task_step Some Some 0 tag_puts tag_gets tag_dels id 0 s2 [?A] s3"
    unfolding s3_def by (rule task_step.put_ok, (simp add: store s0_def s1_def s2_def)+)
  from runs_step [OF run this] have run: "?runs [?A] s3" by simp
  define s4 where "s4 = goto 1 (PutAnswered count_up (Inr 0) ?z (Inl Precondition)) s3"
  have "task_step Some Some 0 tag_puts tag_gets tag_dels id 1 s3 [] s4"
    unfolding s4_def by (rule task_step.put_refused, (simp add: store s0_def s1_def s2_def s3_def)+)
  from runs_step [OF run this] have run: "?runs [?A] s4" by simp
  define s5 where "s5 = goto 0 (Returned (Inr 0)) (cache_in (id 0) (Some ?one) s4)"
  have "task_step Some Some 0 tag_puts tag_gets tag_dels id 0 s4 [] s5"
    unfolding s5_def by (rule task_step.put_return, (simp add: store s0_def s1_def s2_def s3_def s4_def)+)
  from runs_step [OF run this] have run: "?runs [?A] s5" by simp
  define s6 where "s6 = goto 1 (Refetching count_up) s5"
  have "task_step Some Some 0 tag_puts tag_gets tag_dels id 1 s5 [] s6"
    unfolding s6_def by (rule task_step.put_retry, (simp add: store s0_def s1_def s2_def s3_def s4_def s5_def)+)
  from runs_step [OF run this] have run: "?runs [?A] s6" by simp
  define s7 where "s7 = goto 1 (Refetched count_up (Inr (1, tag_of 1))) s6"
  have "task_step Some Some 0 tag_puts tag_gets tag_dels id 1 s6 [] s7"
    unfolding s7_def by (rule task_step.refetch, (simp add: store s0_def s1_def s2_def s3_def s4_def s5_def s6_def)+)
  from runs_step [OF run this] have run: "?runs [?A] s7" by simp
  define s8 where "s8 = goto 1 (Locking count_up) (cache_in (id 1) (Some ?one) s7)"
  have "task_step Some Some 0 tag_puts tag_gets tag_dels id 1 s7 [] s8"
    unfolding s8_def by (rule task_step.refetched, (simp add: store s0_def s1_def s2_def s3_def s4_def s5_def s6_def s7_def)+)
  from runs_step [OF run this] have run: "?runs [?A] s8" by simp
  define s9 where "s9 = goto 1 (Putting count_up (Inr 1) ?two 2) s8"
  have "task_step Some Some 0 tag_puts tag_gets tag_dels id 1 s8 [] s9"
    unfolding s9_def by (rule task_step.lock, (simp add: store s0_def s1_def s2_def s3_def s4_def s5_def s6_def s7_def s8_def)+)
  from runs_step [OF run this] have run: "?runs [?A] s9" by simp
  define s10 where "s10 = goto 1 (PutAnswered count_up (Inr 1) ?two (Inr (tag_of 2))) (s9\<lparr>object := Some (2, tag_of 2)\<rparr>)"
  have "task_step Some Some 0 tag_puts tag_gets tag_dels id 1 s9 [?B] s10"
    unfolding s10_def by (rule task_step.put_ok, (simp add: store s0_def s1_def s2_def s3_def s4_def s5_def s6_def s7_def s8_def s9_def)+)
  from runs_step [OF run this] have run: "?runs [?A, ?B] s10" by simp
  define s11 where "s11 = goto 1 (Returned (Inr 1)) (cache_in (id 1) (Some ?last) s10)"
  have "task_step Some Some 0 tag_puts tag_gets tag_dels id 1 s10 [] s11"
    unfolding s11_def by (rule task_step.put_return, (simp add: store s0_def s1_def s2_def s3_def s4_def s5_def s6_def s7_def s8_def s9_def s10_def)+)
  from runs_step [OF run this] have run: "?runs [?A, ?B] s11" by simp
  from no_edit_lost [OF tag_store(1,2,5) run] run show ?thesis
    by (intro exI [of _ s11]) (simp add: s0_def s1_def s2_def s3_def s4_def s5_def s6_def s7_def s8_def s9_def s10_def s11_def document_def tag_system_def)
qed

text \<open>
  C25. An edit returns once it is left alone. From any reachable state in which a task is about to
  take the lock, and with a store that refuses a put only for a version that no longer stands, the
  task running by itself comes to the end of \<open>with_mut\<close>; it can take at most eight steps, so at most one
  conflict; and it returns the outcome of its closure on the document as it stood, which is then the
  stored one.
\<close>
theorem with_mut_returns:
  assumes "conditional_store content puts gets dels" and "codec_reads_back ser de"
    and "reliable_store puts gets" and "always_answers puts gets" and "\<forall>d. ser d \<noteq> None"
    and "fresh_system content de s\<^sub>0" and "runs ser de dflt puts gets dels hnd s\<^sub>0 es s"
    and "tasks s k = Locking f"
  shows "(\<exists>n ev r s'. solo ser de dflt puts gets dels hnd k s n ev s' \<and> tasks s' k = Returned r) \<and>
    (\<forall>n ev s'. solo ser de dflt puts gets dels hnd k s n ev s' \<longrightarrow> n \<le> 8 \<and>
      (\<forall>r. tasks s' k = Returned r \<longrightarrow> (\<exists>d. document de (object s') = Some d \<and>
         f (case document de (object s) of None \<Rightarrow> dflt | Some d \<Rightarrow> d) = (r, d))))"
proof -
  note ok = conjunct1 [OF runs_keeps [OF assms(1,2,7) fresh_system_ok [OF assms(6)]]]
  have "\<exists>d. document de (object s') = Some d \<and>
      f (case document de (object s) of None \<Rightarrow> dflt | Some d \<Rightarrow> d) = (r, d)"
    if run: "solo ser de dflt puts gets dels hnd k s n ev s'" and ret: "tasks s' k = Returned r" for n ev s' r
  proof -
    have "ev = [Applied f r]" using solo_ahead [OF assms(1,2,3,5) run ok assms(8)] ret by simp
    then show ?thesis
      using runs_keeps [OF assms(1,2) solo_runs [OF run] ok]
      by (cases "f (case document de (object s) of None \<Rightarrow> dflt | Some d \<Rightarrow> d)") (auto split: if_splits)
  qed
  moreover have "n \<le> 8" if "solo ser de dflt puts gets dels hnd k s n ev s'" for n ev s'
    using solo_ahead [OF assms(1,2,3,5) that ok assms(8)] by simp
  ultimately show ?thesis using alone_returns [OF assms(1-5) ok assms(8) solo_refl] by blast
qed

theorem with_mut_returns_witness:
  "\<exists>n ev r s'. solo Some Some 0 tag_puts tag_gets tag_dels id 0 (goto 0 (Locking count_up) tag_system) n ev s' \<and>
     tasks s' 0 = Returned r"
proof -
  have "runs Some Some 0 tag_puts tag_gets tag_dels id tag_system [] (goto 0 (Locking count_up) tag_system)"
    by (rule runs_with_mut [OF runs_refl]) (simp add: callable_def tag_system_def)
  from with_mut_returns [OF tag_store(1-4) _ tag_store(5) this, of 0 count_up] show ?thesis by auto
qed

end
