(* ===== verification/Document.thy ===== *)
theory Document
  imports OptiCon
begin

text \<open>
  Documents read and written without a cache: \<open>DynoStore::get\<close>, \<open>put\<close>, \<open>put_create\<close> and \<open>delete_batches\<close>
  of \<open>dynostore/object.rs\<close>, and the two bounded read-modify-write loops \<open>update_acls\<close> and
  \<open>update_quotas\<close> of \<open>dynostore/principals.rs\<close>. The answers of the store are arguments, one round of
  answers for each turn of a loop; a loop also reports the requests it made.
\<close>

section \<open>One object\<close>

definition put_create :: "store_error + 'v \<Rightarrow> 'e os_error + bool" where
  "put_create answer =
     (case answer of
        Inr _ \<Rightarrow> Inr True
      | Inl AlreadyExists \<Rightarrow> Inr False
      | Inl otherwise \<Rightarrow> Inl (ObjectStore otherwise))"

definition absent_is_none :: "'e os_error + 'a \<Rightarrow> 'e os_error + 'a option" where
  "absent_is_none result =
     (case result of
        Inr pair \<Rightarrow> Inr (Some pair)
      | Inl error \<Rightarrow> (if error = ObjectStore NotFound then Inr None else Inl error))"

definition get_doc ::
    "('b \<Rightarrow> 'd option) \<Rightarrow> store_error + ('b \<times> 't update_version) \<Rightarrow> 'e os_error + ('d \<times> 't update_version)" where
  "get_doc de answer =
     (case answer of
        Inl error \<Rightarrow> Inl (ObjectStore error)
      | Inr (encoded, version) \<Rightarrow>
          (case de encoded of None \<Rightarrow> Inl SerdeJson | Some d \<Rightarrow> Inr (d, version)))"

datatype ('d, 't, 'e) update_error =
    UpdateFailed "'e os_error"
  | MissingEtag
  | Outdated 'd "'t update_version"
  | Vanished

definition put_doc ::
    "('d \<Rightarrow> 'b option) \<Rightarrow> ('b \<Rightarrow> 'd option) \<Rightarrow> 'd \<Rightarrow> store_error + 't update_version
      \<Rightarrow> store_error + ('b \<times> 't update_version) \<Rightarrow> ('d, 't, 'e) update_error + 't update_version" where
  "put_doc ser de value put_result reread =
     (case ser value of
        None \<Rightarrow> Inl (UpdateFailed SerdeJson)
      | Some payload \<Rightarrow>
          (case put_result of
             Inr v \<Rightarrow> Inr v
           | Inl error \<Rightarrow>
               if error = Precondition \<or> error = AlreadyExists then
                 (case absent_is_none (get_doc de reread) of
                    Inl failed \<Rightarrow> Inl (UpdateFailed failed)
                  | Inr None \<Rightarrow> Inl Vanished
                  | Inr (Some (winner, version)) \<Rightarrow> Inl (Outdated winner version))
               else Inl (UpdateFailed (ObjectStore error))))"

section \<open>Read, modify, write if unchanged\<close>

text \<open>The answers one turn of the loop gets: to its read, to its put, to the re-read of a lost put.\<close>

record ('b, 't) round =
  r_read :: "store_error + ('b \<times> 't update_version)"
  r_put :: "store_error + 't update_version"
  r_reread :: "store_error + ('b \<times> 't update_version)"

text \<open>A conditional put the loop issued.\<close>

type_synonym ('d, 't) put_request = "'d \<times> 't put_mode"

definition read_doc ::
    "('b \<Rightarrow> 'd option) \<Rightarrow> 'd \<Rightarrow> store_error + ('b \<times> 't update_version)
      \<Rightarrow> 'e os_error + ('d \<times> 't update_version option)" where
  "read_doc de dflt answer =
     rbind (absent_is_none (get_doc de answer))
       (\<lambda>found. Inr (case found of Some (d, version) \<Rightarrow> (d, Some version) | None \<Rightarrow> (dflt, None)))"

definition mode_for :: "'t update_version option \<Rightarrow> 't put_mode" where
  "mode_for version = (case version of None \<Rightarrow> PutCreate | Some v \<Rightarrow> PutUpdate v)"

text \<open>
  \<open>attempts\<close> turns are left and \<open>answers n\<close> are the answers of turn \<open>n\<close>. \<open>edit\<close> returns what its caller
  keeps from the last application (\<open>deleted\<close> in \<open>delete_acls\<close>). \<open>None\<close> as the error is the message of an
  exhausted loop.
\<close>

fun update_loop ::
    "('d \<Rightarrow> 'b option) \<Rightarrow> ('b \<Rightarrow> 'd option) \<Rightarrow> 'd \<Rightarrow> ('d \<Rightarrow> 'r \<times> 'd) \<Rightarrow> nat \<Rightarrow> nat \<Rightarrow> (nat \<Rightarrow> ('b, 't) round)
      \<Rightarrow> ('e os_error option + 'r) \<times> ('d, 't) put_request list" where
  "update_loop ser de dflt edit 0 n answers = (Inl None, [])"
| "update_loop ser de dflt edit (Suc attempts) n answers =
     (case read_doc de dflt (r_read (answers n)) of
        Inl error \<Rightarrow> (Inl (Some error), [])
      | Inr (d, version) \<Rightarrow>
          (let (kept, d') = edit d in
           case (put_doc ser de d' (r_put (answers n)) (r_reread (answers n))
                   :: ('d, 't, 'e) update_error + 't update_version) of
             Inr _ \<Rightarrow> (Inr kept, [(d', mode_for version)])
           | Inl (UpdateFailed error) \<Rightarrow> (Inl (Some error), [(d', mode_for version)])
           | Inl MissingEtag \<Rightarrow> (Inl None, [(d', mode_for version)])
           | Inl _ \<Rightarrow>
               (let (result, puts) = update_loop ser de dflt edit attempts (Suc n) answers
                in (result, (d', mode_for version) # puts))))"

definition ATTEMPTS :: nat where "ATTEMPTS = 16"

text \<open>
  A loop that reports success issued, on its last turn, one put that was accepted: the edit of the
  document it had just read, on condition of the version it had just read; every earlier put was
  refused. It makes at most as many puts as it has turns.
\<close>

definition committed_turn ::
    "('b \<Rightarrow> 'd option) \<Rightarrow> 'd \<Rightarrow> ('d \<Rightarrow> 'r \<times> 'd) \<Rightarrow> (nat \<Rightarrow> ('b, 't) round) \<Rightarrow> 'r \<Rightarrow> ('d, 't) put_request list \<Rightarrow> nat \<Rightarrow> bool" where
  "committed_turn de dflt edit answers kept puts i \<longleftrightarrow>
     (\<exists>d version v. (read_doc de dflt (r_read (answers i)) :: unit os_error + _) = Inr (d, version) \<and>
        edit d = (kept, snd (edit d)) \<and> last puts = (snd (edit d), mode_for version) \<and>
        r_put (answers i) = Inr v)"

definition refused_turn :: "(nat \<Rightarrow> ('b, 't) round) \<Rightarrow> nat \<Rightarrow> bool" where
  "refused_turn answers i \<longleftrightarrow> r_put (answers i) = Inl Precondition \<or> r_put (answers i) = Inl AlreadyExists"

lemma read_doc_cast: "(read_doc de dflt a :: 'e os_error + _) = Inr x \<longleftrightarrow> (read_doc de dflt a :: unit os_error + _) = Inr x"
  by (auto simp: read_doc_def absent_is_none_def get_doc_def split: sum.splits option.splits if_splits)

lemma update_loop_ok:
  fixes edit :: "'d \<Rightarrow> 'r \<times> 'd" and answers :: "nat \<Rightarrow> ('b, 't) round"
  assumes "update_loop ser de dflt edit attempts n answers = (Inr kept :: 'e os_error option + _, puts)"
  shows "\<exists>i. n \<le> i \<and> i < n + attempts \<and> length puts = Suc (i - n) \<and>
    committed_turn de dflt edit answers kept puts i \<and> (\<forall>j. n \<le> j \<and> j < i \<longrightarrow> refused_turn answers j)"
  using assms
proof (induction attempts arbitrary: n puts)
  case 0
  then show ?case by simp
next
  case (Suc attempts)
  obtain d version where rd: "(read_doc de dflt (r_read (answers n)) :: 'e os_error + _) = Inr (d, version)"
    using Suc.prems by (auto split: sum.splits)
  obtain keep d' where ed: "edit d = (keep, d')" by fastforce
  show ?case
  proof (cases "put_doc ser de d' (r_put (answers n)) (r_reread (answers n)) :: ('d, 't, 'e) update_error + 't update_version")
    case (Inr v)
    then have "r_put (answers n) = Inr v"
      by (auto simp: put_doc_def split: option.splits sum.splits if_splits)
    then show ?thesis using Suc.prems rd ed Inr read_doc_cast [of de dflt "r_read (answers n)" "(d, version)"]
      by (intro exI [of _ n]) (auto simp: committed_turn_def)
  next
    case (Inl err)
    then obtain puts' where rec: "update_loop ser de dflt edit attempts (Suc n) answers = (Inr kept :: 'e os_error option + _, puts')"
      and puts: "puts = (d', mode_for version) # puts'" and err: "(\<exists>a b. err = Outdated a b) \<or> err = Vanished"
      using Suc.prems rd ed by (auto split: update_error.splits prod.splits)
    have ref: "refused_turn answers n"
      using Inl err by (auto simp: put_doc_def refused_turn_def split: option.splits sum.splits if_splits)
    obtain i where i: "Suc n \<le> i" "i < Suc n + attempts" "length puts' = Suc (i - Suc n)"
        "committed_turn de dflt edit answers kept puts' i" "\<forall>j. Suc n \<le> j \<and> j < i \<longrightarrow> refused_turn answers j"
      using Suc.IH [OF rec] by blast
    have "puts' \<noteq> []" using i(3) by auto
    then have "committed_turn de dflt edit answers kept puts i" using i(4) puts by (simp add: committed_turn_def)
    moreover have "\<forall>j. n \<le> j \<and> j < i \<longrightarrow> refused_turn answers j"
      using i(5) ref by (metis le_antisym not_less_eq_eq)
    ultimately show ?thesis using i(1,2,3) puts by (intro exI [of _ i]) auto
  qed
qed

section \<open>Bulk deletion\<close>

text \<open>
  \<open>delete_batches\<close>: \<open>bulk n\<close> is the answer to the \<open>n\<close>th bulk request, \<open>throttled\<close> is \<open>is_s3_throttle\<close>, and
  \<open>each\<close> is the answer to the deletion of one key. The second component counts the bulk requests.
\<close>

definition MAX_BULK_THROTTLE_RETRIES :: nat where "MAX_BULK_THROTTLE_RETRIES = 5"

fun delete_each :: "('p \<Rightarrow> store_error + unit) \<Rightarrow> 'p list \<Rightarrow> 'e os_error + unit" where
  "delete_each each [] = Inr ()"
| "delete_each each (location # rest) =
     (case each location of
        Inr _ \<Rightarrow> delete_each each rest
      | Inl NotFound \<Rightarrow> delete_each each rest
      | Inl err \<Rightarrow> Inl (ObjectStore err))"

function delete_batches_from ::
    "(store_error \<Rightarrow> bool) \<Rightarrow> (nat \<Rightarrow> store_error + unit) \<Rightarrow> ('p \<Rightarrow> store_error + unit) \<Rightarrow> 'p list \<Rightarrow> nat
      \<Rightarrow> ('e os_error + unit) \<times> nat" where
  "delete_batches_from throttled bulk each locations tried =
     (case bulk tried of
        Inr _ \<Rightarrow> (Inr (), Suc tried)
      | Inl err \<Rightarrow>
          if throttled err then
            if tried \<ge> MAX_BULK_THROTTLE_RETRIES then (delete_each each locations, Suc tried)
            else delete_batches_from throttled bulk each locations (Suc tried)
          else (Inl (ObjectStore err), Suc tried))"
  by pat_completeness auto
termination by (relation "measure (\<lambda>(_, _, _, _, tried). MAX_BULK_THROTTLE_RETRIES - tried)") auto

definition delete_batches ::
    "(store_error \<Rightarrow> bool) \<Rightarrow> (nat \<Rightarrow> store_error + unit) \<Rightarrow> ('p \<Rightarrow> store_error + unit) \<Rightarrow> 'p list
      \<Rightarrow> ('e os_error + unit) \<times> nat" where
  "delete_batches throttled bulk each locations =
     (if locations = [] then (Inr (), 0) else delete_batches_from throttled bulk each locations 0)"

declare delete_batches_from.simps [simp del]

lemma delete_batches_from_bound:
  assumes "tried \<le> MAX_BULK_THROTTLE_RETRIES"
  shows "snd (delete_batches_from throttled bulk each locations tried) \<le> Suc MAX_BULK_THROTTLE_RETRIES"
  using assms
proof (induction throttled bulk each locations tried rule: delete_batches_from.induct)
  case (1 throttled bulk each locations tried)
  then show ?case by (subst delete_batches_from.simps) (auto split: sum.splits)
qed

lemma delete_each_ok_iff:
  "delete_each each locations = Inr () \<longleftrightarrow> (\<forall>l \<in> set locations. each l = Inr () \<or> each l = Inl NotFound)"
  by (induction each locations rule: delete_each.induct) (auto split: sum.splits store_error.splits)

end
