(* ===== verification/Acl.thy ===== *)
theory Acl
  imports BTreeMap Document "HOL-Library.Char_ord" "HOL-Library.List_Lexorder" "HOL-Library.Product_Lexorder"
begin

text \<open>
  Access control: the wire enumerations of \<open>tansu-sans-io/src/acl.rs\<close> and \<open>resource.rs\<close>, the rules
  and their evaluation of \<open>tansu-storage/src/acl.rs\<close>, the caching authorizer of \<open>authorizer.rs\<close>, the
  edits \<open>create_acls\<close> and \<open>delete_acls\<close> make to the stored set (\<open>dynostore/storage.rs\<close>), and the three
  request handlers \<open>service/create_acls.rs\<close>, \<open>delete_acls.rs\<close> and \<open>describe_acls.rs\<close>. The set of rules
  is a \<open>BTreeSet\<close>, here an ascending list; what the object store answers and what the clock says
  are arguments.
\<close>

section \<open>Wire enumerations\<close>

datatype permission = PermissionUnknown | PermissionAny | Deny | Allow

datatype operation =
    OperationUnknown | OperationAny | All | Read | Write | Create | Delete | Alter | Describe
  | ClusterAction | DescribeConfigs | AlterConfigs | IdempotentWrite | CreateTokens
  | DescribeTokens | TwoPhaseCommit

datatype resource =
    ResourceUnknown | ResourceAny | Topic | Group | Cluster | TransactionalId | DelegationToken | User

datatype pattern = PatternUnknown | PatternAny | Match | Literal | Prefixed

primrec permission_i8 :: "permission \<Rightarrow> int" where
  "permission_i8 PermissionUnknown = 0"
| "permission_i8 PermissionAny = 1"
| "permission_i8 Deny = 2"
| "permission_i8 Allow = 3"

primrec operation_i8 :: "operation \<Rightarrow> int" where
  "operation_i8 OperationUnknown = 0"
| "operation_i8 OperationAny = 1"
| "operation_i8 All = 2"
| "operation_i8 Read = 3"
| "operation_i8 Write = 4"
| "operation_i8 Create = 5"
| "operation_i8 Delete = 6"
| "operation_i8 Alter = 7"
| "operation_i8 Describe = 8"
| "operation_i8 ClusterAction = 9"
| "operation_i8 DescribeConfigs = 10"
| "operation_i8 AlterConfigs = 11"
| "operation_i8 IdempotentWrite = 12"
| "operation_i8 CreateTokens = 13"
| "operation_i8 DescribeTokens = 14"
| "operation_i8 TwoPhaseCommit = 15"

primrec resource_i8 :: "resource \<Rightarrow> int" where
  "resource_i8 ResourceUnknown = 0"
| "resource_i8 ResourceAny = 1"
| "resource_i8 Topic = 2"
| "resource_i8 Group = 3"
| "resource_i8 Cluster = 4"
| "resource_i8 TransactionalId = 5"
| "resource_i8 DelegationToken = 6"
| "resource_i8 User = 7"

primrec pattern_i8 :: "pattern \<Rightarrow> int" where
  "pattern_i8 PatternUnknown = 0"
| "pattern_i8 PatternAny = 1"
| "pattern_i8 Match = 2"
| "pattern_i8 Literal = 3"
| "pattern_i8 Prefixed = 4"

definition permission_from :: "int \<Rightarrow> permission" where
  "permission_from value =
     (if value = permission_i8 Allow then Allow
      else if value = permission_i8 PermissionAny then PermissionAny
      else if value = permission_i8 Deny then Deny
      else PermissionUnknown)"

definition operation_from :: "int \<Rightarrow> operation" where
  "operation_from value =
     (if value = operation_i8 All then All
      else if value = operation_i8 Alter then Alter
      else if value = operation_i8 AlterConfigs then AlterConfigs
      else if value = operation_i8 OperationAny then OperationAny
      else if value = operation_i8 ClusterAction then ClusterAction
      else if value = operation_i8 Create then Create
      else if value = operation_i8 CreateTokens then CreateTokens
      else if value = operation_i8 Delete then Delete
      else if value = operation_i8 Describe then Describe
      else if value = operation_i8 DescribeConfigs then DescribeConfigs
      else if value = operation_i8 DescribeTokens then DescribeTokens
      else if value = operation_i8 IdempotentWrite then IdempotentWrite
      else if value = operation_i8 Read then Read
      else if value = operation_i8 TwoPhaseCommit then TwoPhaseCommit
      else if value = operation_i8 Write then Write
      else OperationUnknown)"

definition resource_from :: "int \<Rightarrow> resource" where
  "resource_from value =
     (if value = resource_i8 ResourceAny then ResourceAny
      else if value = resource_i8 Cluster then Cluster
      else if value = resource_i8 DelegationToken then DelegationToken
      else if value = resource_i8 Group then Group
      else if value = resource_i8 Topic then Topic
      else if value = resource_i8 TransactionalId then TransactionalId
      else if value = resource_i8 User then User
      else ResourceUnknown)"

definition pattern_from :: "int \<Rightarrow> pattern" where
  "pattern_from value =
     (if value = pattern_i8 PatternAny then PatternAny
      else if value = pattern_i8 Literal then Literal
      else if value = pattern_i8 Match then Match
      else if value = pattern_i8 Prefixed then Prefixed
      else PatternUnknown)"

lemma permission_roundtrip [simp]: "permission_from (permission_i8 p) = p"
  by (cases p) (simp_all add: permission_from_def)

lemma operation_roundtrip [simp]: "operation_from (operation_i8 p) = p"
  by (cases p) (simp_all add: operation_from_def)

lemma resource_roundtrip [simp]: "resource_from (resource_i8 p) = p"
  by (cases p) (simp_all add: resource_from_def)

lemma pattern_roundtrip [simp]: "pattern_from (pattern_i8 p) = p"
  by (cases p) (simp_all add: pattern_from_def)

section \<open>Rules\<close>

datatype acl_binding = AclBinding
  (resource_type: resource) (resource_name: string) (pattern: pattern)
  (principal: string) (host: string) (operation: operation) (permission: permission)

definition WILDCARD_PRINCIPAL :: string where "WILDCARD_PRINCIPAL = ''User:*''"
definition WILDCARD_HOST :: string where "WILDCARD_HOST = ''*''"
definition WILDCARD_RESOURCE :: string where "WILDCARD_RESOURCE = ''*''"
definition CLUSTER_RESOURCE :: string where "CLUSTER_RESOURCE = ''kafka-cluster''"

definition starts_with :: "string \<Rightarrow> string \<Rightarrow> bool" where
  "starts_with s p \<longleftrightarrow> take (length p) s = p"

definition selects :: "acl_binding \<Rightarrow> resource \<Rightarrow> string \<Rightarrow> bool" where
  "selects b rt name =
     (if resource_type b \<noteq> rt then False
      else case pattern b of
        Literal \<Rightarrow> resource_name b = name \<or> resource_name b = WILDCARD_RESOURCE
      | Prefixed \<Rightarrow> starts_with name (resource_name b)
      | Match \<Rightarrow> False
      | PatternAny \<Rightarrow> False
      | PatternUnknown \<Rightarrow> False)"

definition applies_to :: "acl_binding \<Rightarrow> string \<Rightarrow> bool" where
  "applies_to b p \<longleftrightarrow> principal b = p \<or> principal b = WILDCARD_PRINCIPAL"

definition applies_at :: "acl_binding \<Rightarrow> string \<Rightarrow> bool" where
  "applies_at b h \<longleftrightarrow> host b = h \<or> host b = WILDCARD_HOST"

definition covers :: "acl_binding \<Rightarrow> operation \<Rightarrow> bool" where
  "covers b op \<longleftrightarrow> operation b = All \<or> operation b = op"

fun implied_by :: "operation \<Rightarrow> operation list" where
  "implied_by Describe = [Read, Write, Delete, Alter]"
| "implied_by DescribeConfigs = [AlterConfigs]"
| "implied_by _ = []"

definition grants :: "acl_binding \<Rightarrow> operation \<Rightarrow> bool" where
  "grants b op \<longleftrightarrow> covers b op \<or> operation b \<in> set (implied_by op)"

text \<open>The derived order of \<open>AclBinding\<close>: the fields in turn, an enumeration by its discriminant.\<close>

definition binding_key :: "acl_binding \<Rightarrow> int \<times> string \<times> int \<times> string \<times> string \<times> int \<times> int" where
  "binding_key b = (resource_i8 (resource_type b), resource_name b, pattern_i8 (pattern b),
     principal b, host b, operation_i8 (operation b), permission_i8 (permission b))"

lemma i8_inj [simp]:
  "resource_i8 r = resource_i8 r' \<longleftrightarrow> r = r'" "pattern_i8 q = pattern_i8 q' \<longleftrightarrow> q = q'"
  "operation_i8 a = operation_i8 a' \<longleftrightarrow> a = a'" "permission_i8 p = permission_i8 p' \<longleftrightarrow> p = p'"
  by (metis resource_roundtrip, metis pattern_roundtrip, metis operation_roundtrip, metis permission_roundtrip)

lemma binding_key_inj: "binding_key a = binding_key b \<Longrightarrow> a = b"
  by (simp add: binding_key_def acl_binding.expand)

instantiation acl_binding :: linorder
begin

definition less_eq_acl_binding :: "acl_binding \<Rightarrow> acl_binding \<Rightarrow> bool" where
  "a \<le> b \<longleftrightarrow> binding_key a \<le> binding_key b"

definition less_acl_binding :: "acl_binding \<Rightarrow> acl_binding \<Rightarrow> bool" where
  "a < b \<longleftrightarrow> binding_key a < binding_key b"

instance
  by standard (auto simp: less_eq_acl_binding_def less_acl_binding_def intro: binding_key_inj)

end

section \<open>Filters\<close>

record acl_filter =
  f_resource_type :: resource
  f_resource_name :: "string option"
  f_pattern :: pattern
  f_principal :: "string option"
  f_host :: "string option"
  f_operation :: operation
  f_permission :: permission

definition filter_any :: acl_filter where
  "filter_any = \<lparr> f_resource_type = ResourceAny, f_resource_name = None, f_pattern = PatternAny,
     f_principal = None, f_host = None, f_operation = OperationAny, f_permission = PermissionAny \<rparr>"

definition name_matches_any :: "acl_filter \<Rightarrow> acl_binding \<Rightarrow> bool" where
  "name_matches_any f b = is_none_or (f_resource_name f) (\<lambda>name. name = resource_name b)"

definition filter_matches :: "acl_filter \<Rightarrow> acl_binding \<Rightarrow> bool" where
  "filter_matches f b =
     (if f_resource_type f \<noteq> ResourceAny \<and> f_resource_type f \<noteq> resource_type b then False
      else if f_operation f \<noteq> OperationAny \<and> f_operation f \<noteq> operation b then False
      else if f_permission f \<noteq> PermissionAny \<and> f_permission f \<noteq> permission b then False
      else if is_some_and (f_principal f) (\<lambda>p. p \<noteq> principal b) then False
      else if is_some_and (f_host f) (\<lambda>h. h \<noteq> host b) then False
      else if f_pattern f = PatternAny then name_matches_any f b
      else if f_pattern f = Match
        then is_none_or (f_resource_name f) (\<lambda>name. selects b (resource_type b) name)
      else if f_pattern f = pattern b then name_matches_any f b
      else False)"

section \<open>The rules of a cluster\<close>

type_synonym acls = "acl_binding list"

definition matching :: "acls \<Rightarrow> acl_filter \<Rightarrow> acl_binding list" where
  "matching acls f = filter (filter_matches f) acls"

definition applicable :: "acls \<Rightarrow> string \<Rightarrow> string \<Rightarrow> resource \<Rightarrow> string \<Rightarrow> acl_binding list" where
  "applicable acls p h rt name =
     filter (\<lambda>b. applies_to b p \<and> applies_at b h \<and> selects b rt name) acls"

definition allows :: "acls \<Rightarrow> string \<Rightarrow> string \<Rightarrow> resource \<Rightarrow> string \<Rightarrow> operation \<Rightarrow> bool" where
  "allows acls p h rt name op =
     (if \<exists>b \<in> set (applicable acls p h rt name). permission b = Deny \<and> covers b op then False
      else \<exists>b \<in> set (applicable acls p h rt name). permission b = Allow \<and> grants b op)"

section \<open>The edits of the stored set\<close>

text \<open>The closures \<open>create_acls\<close> and \<open>delete_acls\<close> hand to \<open>update_acls\<close>.\<close>

definition create_apply :: "acl_binding list \<Rightarrow> acls \<Rightarrow> acls" where
  "create_apply bindings acls = fold vec_insert bindings acls"

fun delete_apply :: "acl_filter list \<Rightarrow> acls \<Rightarrow> acl_binding list list \<times> acls" where
  "delete_apply [] acls = ([], acls)"
| "delete_apply (f # fs) acls =
     (let selected = matching acls f;
          remaining = filter (\<lambda>b. b \<notin> set selected) acls;
          (deleted, final) = delete_apply fs remaining
      in (selected # deleted, final))"

definition acls_inv :: "acls \<Rightarrow> bool" where
  "acls_inv acls \<longleftrightarrow> sorted_wrt (<) acls"

section \<open>The authorizer\<close>

record authorizer =
  super_users :: "string list"
  snapshot :: "(acls \<times> nat) option"
  ttl :: nat

record requester =
  r_principal :: "string option"
  r_host :: string

definition ACL_SNAPSHOT_TTL :: nat where "ACL_SNAPSHOT_TTL = 5000"

definition authorizer_new :: "string list \<Rightarrow> authorizer" where
  "authorizer_new users = \<lparr> super_users = users, snapshot = None, ttl = ACL_SNAPSHOT_TTL \<rparr>"

definition is_super_user :: "authorizer \<Rightarrow> string \<Rightarrow> bool" where
  "is_super_user a p \<longleftrightarrow> p \<in> set (super_users a)"

text \<open>\<open>now\<close> is the clock in milliseconds, \<open>read_at.elapsed()\<close> saturates at zero.\<close>

definition cached :: "bool \<Rightarrow> nat \<Rightarrow> authorizer \<Rightarrow> acls option" where
  "cached fresh_only now a =
     (case snapshot a of
        None \<Rightarrow> None
      | Some (acls, read_at) \<Rightarrow> if \<not> fresh_only \<or> now - read_at < ttl a then Some acls else None)"

text \<open>
  \<open>answer\<close> is what \<open>describe_acls\<close> returns (\<open>Inl\<close> when the store fails); collecting it into a
  \<open>BTreeSet\<close> is a fold of insertions.
\<close>

definition acls_of :: "nat \<Rightarrow> 'e + acl_binding list \<Rightarrow> authorizer \<Rightarrow> acls option \<times> authorizer" where
  "acls_of now answer a =
     (case cached True now a of
        Some fresh \<Rightarrow> (Some fresh, a)
      | None \<Rightarrow>
          (case answer of
             Inr bindings \<Rightarrow>
               (let acls = create_apply bindings [] in (Some acls, a\<lparr>snapshot := Some (acls, now)\<rparr>))
           | Inl _ \<Rightarrow> (cached False now a, a)))"

definition authorizer_allows ::
    "nat \<Rightarrow> 'e + acl_binding list \<Rightarrow> authorizer \<Rightarrow> string \<Rightarrow> string \<Rightarrow> resource \<Rightarrow> string \<Rightarrow> operation
      \<Rightarrow> bool \<times> authorizer" where
  "authorizer_allows now answer a p h rt name op =
     (if is_super_user a p then (True, a)
      else case acls_of now answer a of
        (None, a') \<Rightarrow> (False, a')
      | (Some acls, a') \<Rightarrow> (allows acls p h rt name op, a'))"

text \<open>The request context: the authorizer and the requester, each possibly absent.\<close>

record request_context =
  ctx_authorizer :: "authorizer option"
  ctx_requester :: "requester option"

definition enforcing :: "request_context \<Rightarrow> bool" where
  "enforcing ctx \<longleftrightarrow> ctx_authorizer ctx \<noteq> None"

definition authorized ::
    "nat \<Rightarrow> 'e + acl_binding list \<Rightarrow> request_context \<Rightarrow> resource \<Rightarrow> string \<Rightarrow> operation \<Rightarrow> bool \<times> request_context" where
  "authorized now answer ctx rt name op =
     (case ctx_authorizer ctx of
        None \<Rightarrow> (True, ctx)
      | Some a \<Rightarrow>
          (case ctx_requester ctx of
             None \<Rightarrow> (False, ctx)
           | Some r \<Rightarrow>
               (case r_principal r of
                  None \<Rightarrow> (False, ctx)
                | Some p \<Rightarrow>
                    (let (allowed, a') = authorizer_allows now answer a p (r_host r) rt name op
                     in (allowed, ctx\<lparr>ctx_authorizer := Some a'\<rparr>)))))"

definition authorized_cluster ::
    "nat \<Rightarrow> 'e + acl_binding list \<Rightarrow> request_context \<Rightarrow> operation \<Rightarrow> bool \<times> request_context" where
  "authorized_cluster now answer ctx op = authorized now answer ctx Cluster CLUSTER_RESOURCE op"

section \<open>Storage operations and handlers\<close>

datatype error_code =
    NoError | SecurityDisabled | ClusterAuthorizationFailed | UnknownServerError | InvalidConfig

definition create_acls ::
    "(acls \<Rightarrow> 'b option) \<Rightarrow> ('b \<Rightarrow> acls option) \<Rightarrow> acl_binding list \<Rightarrow> (nat \<Rightarrow> ('b, 't) round)
      \<Rightarrow> ('e os_error option + error_code list) \<times> (acls, 't) put_request list" where
  "create_acls ser de bindings answers =
     (let outcome = replicate (length bindings) NoError in
      if bindings = [] then (Inr outcome, [])
      else case update_loop ser de [] (\<lambda>acls. ((), create_apply bindings acls)) ATTEMPTS 0 answers of
             (Inr _, puts) \<Rightarrow> (Inr outcome, puts)
           | (Inl error, puts) \<Rightarrow> (Inl error, puts))"

definition describe_acls ::
    "('b \<Rightarrow> acls option) \<Rightarrow> store_error + ('b \<times> 't update_version) \<Rightarrow> acl_filter
      \<Rightarrow> 'e os_error + acl_binding list" where
  "describe_acls de answer f = rbind (read_doc de [] answer) (\<lambda>(acls, _). Inr (matching acls f))"

definition delete_acls ::
    "(acls \<Rightarrow> 'b option) \<Rightarrow> ('b \<Rightarrow> acls option) \<Rightarrow> acl_filter list \<Rightarrow> (nat \<Rightarrow> ('b, 't) round)
      \<Rightarrow> ('e os_error option + acl_binding list list) \<times> (acls, 't) put_request list" where
  "delete_acls ser de filters answers =
     (if filters = [] then (Inr [], [])
      else update_loop ser de [] (delete_apply filters) ATTEMPTS 0 answers)"

record acl_creation =
  c_resource_type :: int
  c_resource_name :: string
  c_resource_pattern_type :: "int option"
  c_principal :: string
  c_host :: string
  c_operation :: int
  c_permission_type :: int

definition binding_of :: "acl_creation \<Rightarrow> acl_binding" where
  "binding_of c = AclBinding (resource_from (c_resource_type c)) (c_resource_name c)
     (pattern_from (unwrap_or 3 (c_resource_pattern_type c))) (c_principal c) (c_host c)
     (operation_from (c_operation c)) (permission_from (c_permission_type c))"

definition NO_AUTHORIZER :: string where "NO_AUTHORIZER = ''No Authorizer is configured.''"
definition NO_AUTHORIZER_DESCRIBE :: string where
  "NO_AUTHORIZER_DESCRIBE = ''No Authorizer is configured on the broker''"

type_synonym acl_results = "(error_code \<times> string option) list"

definition create_refused :: "nat \<Rightarrow> error_code \<Rightarrow> string option \<Rightarrow> acl_results" where
  "create_refused creations error_code message = replicate creations (error_code, message)"

definition create_acls_serve ::
    "(acls \<Rightarrow> 'b option) \<Rightarrow> ('b \<Rightarrow> acls option) \<Rightarrow> nat \<Rightarrow> 'e os_error + acl_binding list
      \<Rightarrow> (nat \<Rightarrow> ('b, 't) round) \<Rightarrow> request_context \<Rightarrow> acl_creation list
      \<Rightarrow> acl_results \<times> request_context \<times> (acls, 't) put_request list" where
  "create_acls_serve ser de now described answers ctx creations =
     (if \<not> enforcing ctx then (create_refused (length creations) SecurityDisabled (Some NO_AUTHORIZER), ctx, [])
      else
        (let (allowed, ctx') = authorized_cluster now described ctx Alter in
         if \<not> allowed then (create_refused (length creations) ClusterAuthorizationFailed None, ctx', [])
         else
           (case (create_acls ser de (map binding_of creations) answers :: ('e os_error option + _) \<times> _) of
              (Inr outcomes, puts) \<Rightarrow> (map (\<lambda>code. (code, None)) outcomes, ctx', puts)
            | (Inl _, puts) \<Rightarrow>
                (create_refused (length creations) UnknownServerError (Some ''could not create acls''), ctx', puts))))"

record acl_filter_request =
  q_resource_type :: int
  q_resource_name :: "string option"
  q_pattern_type :: "int option"
  q_principal :: "string option"
  q_host :: "string option"
  q_operation :: int
  q_permission_type :: int

definition filter_of :: "acl_filter_request \<Rightarrow> acl_filter" where
  "filter_of q = \<lparr> f_resource_type = resource_from (q_resource_type q), f_resource_name = q_resource_name q,
     f_pattern = pattern_from (unwrap_or 3 (q_pattern_type q)), f_principal = q_principal q,
     f_host = q_host q, f_operation = operation_from (q_operation q),
     f_permission = permission_from (q_permission_type q) \<rparr>"

type_synonym delete_results = "(error_code \<times> string option \<times> acl_binding list) list"

definition delete_refused :: "nat \<Rightarrow> error_code \<Rightarrow> string option \<Rightarrow> delete_results" where
  "delete_refused filters error_code message = replicate filters (error_code, message, [])"

definition delete_acls_serve ::
    "(acls \<Rightarrow> 'b option) \<Rightarrow> ('b \<Rightarrow> acls option) \<Rightarrow> nat \<Rightarrow> 'e os_error + acl_binding list
      \<Rightarrow> (nat \<Rightarrow> ('b, 't) round) \<Rightarrow> request_context \<Rightarrow> acl_filter_request list
      \<Rightarrow> delete_results \<times> request_context \<times> (acls, 't) put_request list" where
  "delete_acls_serve ser de now described answers ctx requested =
     (if \<not> enforcing ctx then (delete_refused (length requested) SecurityDisabled (Some NO_AUTHORIZER), ctx, [])
      else
        (let (allowed, ctx') = authorized_cluster now described ctx Alter in
         if \<not> allowed then (delete_refused (length requested) ClusterAuthorizationFailed None, ctx', [])
         else
           (case (delete_acls ser de (map filter_of requested) answers :: ('e os_error option + _) \<times> _) of
              (Inr deleted, puts) \<Rightarrow> (map (\<lambda>bindings. (NoError, None, bindings)) deleted, ctx', puts)
            | (Inl _, puts) \<Rightarrow>
                (delete_refused (length requested) UnknownServerError (Some ''could not delete acls''), ctx', puts))))"

text \<open>\<open>resources\<close>: one entry per resource, in the order a resource is first met, its rules in order.\<close>

type_synonym description = "string \<times> string \<times> int \<times> int"

record described_resource =
  d_resource_type :: int
  d_resource_name :: string
  d_pattern_type :: int
  d_acls :: "description list"

definition description_of :: "acl_binding \<Rightarrow> description" where
  "description_of b = (principal b, host b, operation_i8 (operation b), permission_i8 (permission b))"

definition same_resource :: "acl_binding \<Rightarrow> described_resource \<Rightarrow> bool" where
  "same_resource b r \<longleftrightarrow> d_resource_type r = resource_i8 (resource_type b) \<and>
     d_resource_name r = resource_name b \<and> d_pattern_type r = pattern_i8 (pattern b)"

fun add_description :: "acl_binding \<Rightarrow> described_resource list \<Rightarrow> described_resource list" where
  "add_description b [] =
     [\<lparr> d_resource_type = resource_i8 (resource_type b), d_resource_name = resource_name b,
        d_pattern_type = pattern_i8 (pattern b), d_acls = [description_of b] \<rparr>]"
| "add_description b (r # rs) =
     (if same_resource b r then r\<lparr>d_acls := d_acls r @ [description_of b]\<rparr> # rs
      else r # add_description b rs)"

definition resources :: "acl_binding list \<Rightarrow> described_resource list" where
  "resources bindings = fold add_description bindings []"

definition describe_acls_serve ::
    "('b \<Rightarrow> acls option) \<Rightarrow> nat \<Rightarrow> 'e os_error + acl_binding list \<Rightarrow> store_error + ('b \<times> 't update_version)
      \<Rightarrow> request_context \<Rightarrow> acl_filter_request
      \<Rightarrow> (error_code \<times> string option \<times> described_resource list) \<times> request_context" where
  "describe_acls_serve de now described answer ctx req =
     (if \<not> enforcing ctx then ((SecurityDisabled, Some NO_AUTHORIZER_DESCRIBE, []), ctx)
      else
        (let (allowed, ctx') = authorized_cluster now described ctx Describe in
         if \<not> allowed then ((ClusterAuthorizationFailed, None, []), ctx')
         else
           (case (describe_acls de answer (filter_of req) :: 'e os_error + _) of
              Inr bindings \<Rightarrow> ((NoError, None, resources bindings), ctx')
            | Inl _ \<Rightarrow> ((UnknownServerError, Some ''could not describe acls'', []), ctx'))))"

section \<open>The rules as a set\<close>

lemma set_create_apply [simp]: "set (create_apply bindings acls) = set acls \<union> set bindings"
  unfolding create_apply_def by (induction bindings arbitrary: acls) (auto simp: set_vec_insert)

lemma create_apply_inv: "acls_inv acls \<Longrightarrow> acls_inv (create_apply bindings acls)"
  unfolding create_apply_def acls_inv_def
  by (induction bindings arbitrary: acls) (auto simp: sorted_vec_insert)

lemma sorted_wrt_filter_lt: "sorted_wrt (<) xs \<Longrightarrow> sorted_wrt (<) (filter P xs)"
  by (induction xs) auto

lemma delete_apply_inv: "acls_inv acls \<Longrightarrow> acls_inv (snd (delete_apply fs acls))"
  by (induction fs acls rule: delete_apply.induct)
    (auto simp: acls_inv_def Let_def sorted_wrt_filter_lt split: prod.splits)

lemma set_delete_apply:
  "set (snd (delete_apply fs acls)) = {b \<in> set acls. \<forall>f \<in> set fs. \<not> filter_matches f b}"
  by (induction fs acls rule: delete_apply.induct) (auto simp: Let_def matching_def split: prod.splits)

lemma deleted_apply:
  "\<Union> (set ` set (fst (delete_apply fs acls))) = {b \<in> set acls. \<exists>f \<in> set fs. filter_matches f b}"
proof (induction fs arbitrary: acls)
  case (Cons f fs)
  define remaining where "remaining = filter (\<lambda>b. b \<notin> set (matching acls f)) acls"
  obtain deleted final where "delete_apply fs remaining = (deleted, final)" by fastforce
  then show ?case
    using Cons.IH [of remaining] by (auto simp: remaining_def [symmetric]) (auto simp: remaining_def matching_def)
qed simp

lemma deleted_length: "length (fst (delete_apply fs acls)) = length fs"
  by (induction fs acls rule: delete_apply.induct) (auto simp: Let_def split: prod.splits)

lemma filter_any_matches [simp]: "filter_matches filter_any b"
  by (simp add: filter_matches_def filter_any_def is_some_and_def is_none_or_def name_matches_any_def)

lemma describe_any: "matching acls filter_any = acls"
  by (simp add: matching_def)

section \<open>Properties\<close>

text \<open>Some rule in force for the request denies, or grants, the operation.\<close>

definition denied :: "acl_binding set \<Rightarrow> string \<Rightarrow> string \<Rightarrow> resource \<Rightarrow> string \<Rightarrow> operation \<Rightarrow> bool" where
  "denied rules p h rt name op \<longleftrightarrow> (\<exists>b \<in> rules. applies_to b p \<and> applies_at b h \<and> selects b rt name \<and>
     permission b = Deny \<and> covers b op)"

definition granted :: "acl_binding set \<Rightarrow> string \<Rightarrow> string \<Rightarrow> resource \<Rightarrow> string \<Rightarrow> operation \<Rightarrow> bool" where
  "granted rules p h rt name op \<longleftrightarrow> (\<exists>b \<in> rules. applies_to b p \<and> applies_at b h \<and> selects b rt name \<and>
     permission b = Allow \<and> grants b op)"

lemma allows_iff: "allows acls p h rt name op \<longleftrightarrow>
    granted (set acls) p h rt name op \<and> \<not> denied (set acls) p h rt name op"
  by (auto simp: allows_def applicable_def denied_def granted_def)

lemma denied_Un [simp]: "denied (A \<union> B) p h rt name op \<longleftrightarrow> denied A p h rt name op \<or> denied B p h rt name op"
  by (auto simp: denied_def)

lemma granted_Un [simp]: "granted (A \<union> B) p h rt name op \<longleftrightarrow> granted A p h rt name op \<or> granted B p h rt name op"
  by (auto simp: granted_def)

text \<open>
  C24. What an edit of the rules does to every decision. After \<open>create_acls\<close> a request is allowed exactly
  when an old or a new rule grants it and no old or new rule denies it, so one \<open>DENY\<close> outweighs any
  number of grants and an added grant never revokes; after \<open>delete_acls\<close> the rules some filter selects
  have no say, they are exactly the rules reported, one list per filter, and the rest decide as before.
\<close>
theorem acl_edit_effect:
  "(allows (create_apply bindings acls) p h rt name op \<longleftrightarrow>
      (granted (set acls) p h rt name op \<or> granted (set bindings) p h rt name op) \<and>
      \<not> denied (set acls) p h rt name op \<and> \<not> denied (set bindings) p h rt name op) \<and>
   (let kept = {b. b \<in> set acls \<and> \<not> (\<exists>f. f \<in> set fs \<and> filter_matches f b)};
        (deleted, final) = delete_apply fs acls
    in (allows final p h rt name op \<longleftrightarrow> granted kept p h rt name op \<and> \<not> denied kept p h rt name op) \<and>
       \<Union> (set ` set deleted) = set acls - kept \<and> length deleted = length fs)"
proof -
  obtain deleted final where df: "delete_apply fs acls = (deleted, final)" by fastforce
  have "set final = {b. b \<in> set acls \<and> \<not> (\<exists>f. f \<in> set fs \<and> filter_matches f b)}"
    using set_delete_apply [of fs acls] df by auto
  moreover have "\<Union> (set ` set deleted) = {b \<in> set acls. \<exists>f \<in> set fs. filter_matches f b}" "length deleted = length fs"
    using deleted_apply [of fs acls] deleted_length [of fs acls] df by auto
  ultimately show ?thesis
    using df by (auto simp: allows_iff Let_def)
qed

text \<open>Every grant that reaches \<open>p\<close> is on names under the prefix \<open>tenant\<close>, and none is on the cluster.\<close>

definition confined :: "string \<Rightarrow> string \<Rightarrow> acl_binding list \<Rightarrow> bool" where
  "confined tenant p rules \<longleftrightarrow> (\<forall>b \<in> set rules. permission b = Allow \<and> applies_to b p \<longrightarrow>
     resource_type b \<noteq> Cluster \<and> pattern b = Prefixed \<and> starts_with (resource_name b) tenant)"

lemma starts_with_trans: "starts_with s p \<Longrightarrow> starts_with p q \<Longrightarrow> starts_with s q"
  unfolding starts_with_def by (metis append_take_drop_id append_assoc append_eq_conv_conj)

lemma confined_allows:
  assumes "confined tenant p acls" and "allows acls p h rt name op"
  shows "rt \<noteq> Cluster \<and> starts_with name tenant"
proof -
  obtain b where b: "b \<in> set acls" "applies_to b p" "permission b = Allow" "selects b rt name"
    using assms(2) by (auto simp: allows_iff granted_def)
  then have "resource_type b = rt" "starts_with name (resource_name b)" "starts_with (resource_name b) tenant"
    "resource_type b \<noteq> Cluster"
    using assms(1) by (auto simp: confined_def selects_def split: if_splits)
  then show ?thesis by (auto intro: starts_with_trans)
qed

text \<open>The rules the authorizer may decide on: the snapshot it holds and what the store would answer.\<close>

definition may_consult :: "authorizer \<Rightarrow> 'e + acl_binding list \<Rightarrow> acl_binding list \<Rightarrow> bool" where
  "may_consult a described rules \<longleftrightarrow>
     (\<exists>t. snapshot a = Some (rules, t)) \<or> (\<exists>bs. described = Inr bs \<and> rules = create_apply bs [])"

lemma authorizer_allows_consults:
  assumes "authorizer_allows now described a p h rt name op = (True, a')" and "\<not> is_super_user a p"
  shows "\<exists>rules. may_consult a described rules \<and> allows rules p h rt name op"
  using assms
  by (auto simp: authorizer_allows_def acls_of_def cached_def may_consult_def Let_def
      split: option.splits sum.splits prod.splits if_splits)

lemma authorized_consults:
  assumes "authorized now described ctx rt name op = (True, ctx')"
    and "ctx_authorizer ctx = Some a" and "ctx_requester ctx = Some r" and "r_principal r = Some p"
    and "\<not> is_super_user a p"
  shows "\<exists>rules. may_consult a described rules \<and> allows rules p (r_host r) rt name op"
  using assms authorizer_allows_consults [of now described a p "r_host r" rt name op]
  by (auto simp: authorized_def split: prod.splits)

text \<open>
  C18. A tenant stays inside its prefix. When every rule that grants anything to a principal is on
  names under one prefix, in the snapshot held and in what the store would answer, the principal is
  authorized for nothing outside the prefix and for nothing on the cluster; in particular \<open>CreateAcls\<close>
  and \<open>DeleteAcls\<close> refuse every item of its requests and send the store no write, so it cannot widen
  its own rules.
\<close>
theorem tenant_confined:
  assumes "ctx_authorizer ctx = Some a" and "ctx_requester ctx = Some r" and "r_principal r = Some p"
    and "\<not> is_super_user a p" and "\<forall>rules. may_consult a described rules \<longrightarrow> confined tenant p rules"
  shows "(fst (authorized now described ctx rt name op) \<longrightarrow> rt \<noteq> Cluster \<and> starts_with name tenant) \<and>
    create_acls_serve ser de now described answers ctx creations =
      (replicate (length creations) (ClusterAuthorizationFailed, None),
       snd (authorized_cluster now described ctx Alter), []) \<and>
    delete_acls_serve ser de now described answers ctx requested =
      (replicate (length requested) (ClusterAuthorizationFailed, None, []),
       snd (authorized_cluster now described ctx Alter), [])"
proof -
  have conf: "rt \<noteq> Cluster \<and> starts_with name tenant" if alw: "fst (authorized now described ctx rt name op)" for rt name op
  proof -
    obtain ctx' where "authorized now described ctx rt name op = (True, ctx')"
      using alw by (cases "authorized now described ctx rt name op") auto
    from authorized_consults [OF this assms(1-4)] assms(5) show ?thesis using confined_allows by blast
  qed
  moreover have "\<not> fst (authorized_cluster now described ctx Alter)"
    using conf unfolding authorized_cluster_def by blast
  ultimately show ?thesis
    using assms(1)
    by (auto simp: create_acls_serve_def delete_acls_serve_def enforcing_def create_refused_def
        delete_refused_def split: prod.splits)
qed

definition tenant_rule :: acl_binding where
  "tenant_rule = AclBinding Topic ''acme.'' Prefixed ''User:alice'' ''*'' Read Allow"

definition sample_round :: "(acls, nat) round" where
  "sample_round = \<lparr> r_read = Inl NotFound, r_put = Inl Precondition, r_reread = Inl NotFound \<rparr>"

definition tenant_context :: request_context where
  "tenant_context = \<lparr> ctx_authorizer = Some (authorizer_new [''User:admin'']),
     ctx_requester = Some \<lparr> r_principal = Some ''User:alice'', r_host = ''10.0.0.1'' \<rparr> \<rparr>"

theorem tenant_confined_witness:
  "fst (authorized 0 (Inr [tenant_rule] :: unit os_error + _) tenant_context Topic ''acme.orders'' Describe) \<and>
   \<not> fst (authorized 0 (Inr [tenant_rule] :: unit os_error + _) tenant_context Topic ''other.orders'' Describe) \<and>
   fst (create_acls_serve Some Some 0 (Inr [tenant_rule] :: unit os_error + _) (\<lambda>_. sample_round)
      tenant_context [\<lparr> c_resource_type = 2, c_resource_name = ''*'', c_resource_pattern_type = None,
        c_principal = ''User:alice'', c_host = ''*'', c_operation = 2, c_permission_type = 3 \<rparr>])
     = [(ClusterAuthorizationFailed, None)]"
proof -
  let ?a = "authorizer_new [''User:admin'']"
  have conf: "\<forall>rules. may_consult ?a (Inr [tenant_rule] :: unit os_error + _) rules \<longrightarrow> confined ''acme.'' ''User:alice'' rules"
    by (auto simp: may_consult_def authorizer_new_def confined_def tenant_rule_def create_apply_def starts_with_def)
  have su: "\<not> is_super_user ?a ''User:alice''" by (simp add: is_super_user_def authorizer_new_def)
  have ctx: "ctx_authorizer tenant_context = Some ?a"
    "ctx_requester tenant_context = Some \<lparr> r_principal = Some ''User:alice'', r_host = ''10.0.0.1'' \<rparr>"
    by (simp_all add: tenant_context_def)
  have out: "\<not> starts_with ''other.orders'' ''acme.''" by (simp add: starts_with_def)
  have inside: "fst (authorized 0 (Inr [tenant_rule] :: unit os_error + _) tenant_context Topic ''acme.orders'' Describe)"
    by (simp add: authorized_def tenant_context_def authorizer_allows_def acls_of_def cached_def authorizer_new_def
        is_super_user_def allows_def applicable_def tenant_rule_def create_apply_def applies_to_def applies_at_def
        selects_def starts_with_def covers_def grants_def WILDCARD_HOST_def Let_def)
  show ?thesis
    using tenant_confined [OF ctx _ su conf, where now = 0 and rt = Topic and name = "''other.orders''" and op = Describe
        and ser = Some and de = Some and answers = "\<lambda>_. sample_round"] out inside
    by simp
qed

text \<open>
  A sequence of requests through one authorizer: the clock and the store's answer at each, and what
  is asked.
\<close>

record 'e acl_request =
  rq_now :: nat
  rq_described :: "'e + acl_binding list"
  rq_principal :: string
  rq_host :: string
  rq_resource :: resource
  rq_name :: string
  rq_operation :: operation

definition decide :: "'e acl_request \<Rightarrow> authorizer \<Rightarrow> bool \<times> authorizer" where
  "decide q a = authorizer_allows (rq_now q) (rq_described q) a (rq_principal q) (rq_host q)
     (rq_resource q) (rq_name q) (rq_operation q)"

fun decisions :: "authorizer \<Rightarrow> 'e acl_request list \<Rightarrow> bool list" where
  "decisions a [] = []"
| "decisions a (q # qs) = (let (d, a') = decide q a in d # decisions a' qs)"

definition decided_on :: "'e acl_request \<Rightarrow> acl_binding list \<Rightarrow> bool" where
  "decided_on q bs = allows (create_apply bs []) (rq_principal q) (rq_host q) (rq_resource q) (rq_name q) (rq_operation q)"

text \<open>
  What a decision rests on: \<open>q\<close> was decided after the requests \<open>earlier\<close>. Either on the rules it read
  itself, or on rules one of them read, within the time to live unless the store failed \<open>q\<close>; or it was
  refused because the store failed \<open>q\<close> and every one of them.
\<close>

definition grounded :: "nat \<Rightarrow> 'e acl_request list \<Rightarrow> 'e acl_request \<Rightarrow> bool \<Rightarrow> bool" where
  "grounded age earlier q d \<longleftrightarrow>
     (\<exists>bs. rq_described q = Inr bs \<and> d = decided_on q bs) \<or>
     (\<exists>e bs. e \<in> set earlier \<and> rq_described e = Inr bs \<and> d = decided_on q bs \<and>
        (rq_now q - rq_now e < age \<or> (\<exists>err. rq_described q = Inl err))) \<or>
     d = False \<and> \<not> (\<exists>e bs. e \<in> set (q # earlier) \<and> rq_described e = Inr bs)"

definition snapshot_from :: "'e acl_request list \<Rightarrow> authorizer \<Rightarrow> bool" where
  "snapshot_from earlier a \<longleftrightarrow>
     (case snapshot a of
        None \<Rightarrow> \<not> (\<exists>q bs. q \<in> set earlier \<and> rq_described q = Inr bs)
      | Some (acls, t) \<Rightarrow> (\<exists>q bs. q \<in> set earlier \<and> rq_described q = Inr bs \<and> acls = create_apply bs [] \<and> t = rq_now q))"

definition ordinary :: "authorizer \<Rightarrow> 'e acl_request \<Rightarrow> bool" where
  "ordinary a q \<longleftrightarrow> \<not> is_super_user a (rq_principal q)"

lemma decide_super: "\<not> ordinary a q \<Longrightarrow> decide q a = (True, a)"
  by (simp add: ordinary_def decide_def authorizer_allows_def)

lemma decide_keeps: "decide q a = (d, a') \<Longrightarrow> super_users a' = super_users a \<and> ttl a' = ttl a"
  by (auto simp: decide_def authorizer_allows_def acls_of_def Let_def
      split: option.splits sum.splits prod.splits if_splits)

lemma decide_ordinary:
  assumes "snapshot_from earlier a" and "ordinary a q" and "decide q a = (d, a')"
  shows "grounded (ttl a) earlier q d \<and> snapshot_from (earlier @ [q]) a'"
proof (cases "cached True (rq_now q) a")
  case (Some fresh)
  then obtain t where sn: "snapshot a = Some (fresh, t)" "rq_now q - t < ttl a"
    by (auto simp: cached_def split: option.splits if_splits)
  then obtain e bs where e: "e \<in> set earlier" "rq_described e = Inr bs" "fresh = create_apply bs []" "t = rq_now e"
    using assms(1) by (auto simp: snapshot_from_def)
  have "d = decided_on q bs" "a' = a"
    using assms(2,3) Some e(3) by (auto simp: decide_def ordinary_def authorizer_allows_def acls_of_def decided_on_def)
  then show ?thesis using sn e unfolding grounded_def snapshot_from_def by auto
next
  case None
  show ?thesis
  proof (cases "rq_described q")
    case (Inr bs)
    then have "d = decided_on q bs" "snapshot a' = Some (create_apply bs [], rq_now q)"
      using assms(2,3) None
      by (auto simp: decide_def ordinary_def authorizer_allows_def acls_of_def decided_on_def Let_def)
    then show ?thesis using Inr by (auto simp: grounded_def snapshot_from_def)
  next
    case (Inl err)
    then have same: "a' = a" and d: "d = (case cached False (rq_now q) a of None \<Rightarrow> False
        | Some acls \<Rightarrow> allows acls (rq_principal q) (rq_host q) (rq_resource q) (rq_name q) (rq_operation q))"
      using assms(2,3) None
      by (auto simp: decide_def ordinary_def authorizer_allows_def acls_of_def split: option.splits)
    show ?thesis
    proof (cases "snapshot a")
      case None
      then have "d = False" using d by (simp add: cached_def)
      then show ?thesis using assms(1) None Inl same by (auto simp: snapshot_from_def grounded_def)
    next
      case (Some st)
      then obtain e bs where e: "e \<in> set earlier" "rq_described e = Inr bs" "fst st = create_apply bs []" "snd st = rq_now e"
        using assms(1) by (cases st) (auto simp: snapshot_from_def)
      then have "d = decided_on q bs" using d Some by (cases st) (simp add: cached_def decided_on_def)
      then show ?thesis using e Some Inl same by (cases st) (auto simp: grounded_def snapshot_from_def)
    qed
  qed
qed

lemma decisions_grounded:
  fixes qs :: "'e acl_request list"
  assumes "snapshot_from earlier a" and "i < length qs" and "ordinary a (qs ! i)"
  shows "grounded (ttl a) (earlier @ filter (ordinary a) (take i qs)) (qs ! i) (decisions a qs ! i)"
  using assms
proof (induction qs arbitrary: a earlier i)
  case (Cons q qs)
  obtain d a' where dec: "decide q a = (d, a')" by fastforce
  have kept: "(ordinary a' :: 'e acl_request \<Rightarrow> bool) = ordinary a" "ttl a' = ttl a"
    using decide_keeps [OF dec] by (auto simp: ordinary_def is_super_user_def fun_eq_iff)
  show ?case
  proof (cases i)
    case 0
    then show ?thesis using Cons.prems decide_ordinary [OF _ _ dec] dec by simp
  next
    case (Suc j)
    let ?earlier = "earlier @ (if ordinary a q then [q] else [])"
    have "snapshot_from ?earlier a'"
      using decide_ordinary [OF Cons.prems(1) _ dec] decide_super [of a q] dec Cons.prems(1) by auto
    from Cons.IH [OF this, of j] show ?thesis using Suc Cons.prems kept dec by auto
  qed
qed simp

text \<open>
  C27. Authorization decides on the rules as they recently were, and fails closed. In any sequence of
  requests through one authorizer, a request of a principal that is not a super user is decided by
  the rules it read itself or by rules an earlier request read less than the time to live before;
  only while the store fails does an older snapshot serve, and when nothing has ever been read the
  request is refused.
\<close>
theorem authorizer_recent_or_refused:
  assumes "snapshot a = None" and "i < length qs" and "\<not> is_super_user a (rq_principal (qs ! i))"
  shows "grounded (ttl a) (filter (ordinary a) (take i qs)) (qs ! i) (decisions a qs ! i)"
  using decisions_grounded [of "[]" a i qs] assms by (simp add: snapshot_from_def ordinary_def)

definition sample_request :: "nat \<Rightarrow> unit + acl_binding list \<Rightarrow> unit acl_request" where
  "sample_request now described = \<lparr> rq_now = now, rq_described = described, rq_principal = ''User:alice'',
     rq_host = ''10.0.0.1'', rq_resource = Topic, rq_name = ''acme.orders'', rq_operation = Read \<rparr>"

theorem authorizer_recent_or_refused_witness:
  "let qs = [sample_request 0 (Inl ()), sample_request 10 (Inr [tenant_rule]), sample_request 900000 (Inl ())];
       a = authorizer_new []
   in decisions a qs = [False, True, True] \<and>
      grounded (ttl a) (filter (ordinary a) (take 2 qs)) (qs ! 2) (decisions a qs ! 2)"
proof -
  let ?qs = "[sample_request 0 (Inl ()), sample_request 10 (Inr [tenant_rule]), sample_request 900000 (Inl ())]"
  have "decisions (authorizer_new []) ?qs = [False, True, True]"
    by (simp add: decide_def sample_request_def authorizer_new_def authorizer_allows_def acls_of_def cached_def
        is_super_user_def allows_def applicable_def tenant_rule_def create_apply_def applies_to_def applies_at_def
        selects_def starts_with_def covers_def grants_def WILDCARD_HOST_def ACL_SNAPSHOT_TTL_def Let_def)
  then show ?thesis
    using authorizer_recent_or_refused [of "authorizer_new []" 2 ?qs] by (simp add: authorizer_new_def is_super_user_def)
qed

end
