(* ===== verification/Quota.thy ===== *)
theory Quota
  imports BTreeMap Document Acl Complex_Main
begin

text \<open>
  Client quotas: the limits and the document of \<open>tansu-storage/src/quota.rs\<close>, the token buckets and the
  enforcer of \<open>enforcer.rs\<close>, and \<open>alter_client_quotas\<close> of \<open>dynostore/storage.rs\<close>. Rates, balances and
  durations are rationals: the rounding of \<open>f64\<close> and the nanosecond grain of \<open>Duration\<close> are not
  modelled. A clock value is seconds since the process clock's origin.
\<close>

section \<open>Limits\<close>

definition PRODUCER_BYTE_RATE :: string where "PRODUCER_BYTE_RATE = ''producer_byte_rate''"
definition CONSUMER_BYTE_RATE :: string where "CONSUMER_BYTE_RATE = ''consumer_byte_rate''"
definition REQUEST_RATE :: string where "REQUEST_RATE = ''request_rate''"
definition QUOTA_KEYS :: "string list" where
  "QUOTA_KEYS = [PRODUCER_BYTE_RATE, CONSUMER_BYTE_RATE, REQUEST_RATE]"
definition USER_ENTITY :: string where "USER_ENTITY = ''user''"

datatype f64 = Finite rat | Infinity | NegInfinity | NaN

datatype quota_entity = QuotaDefault | QuotaUser string

fun entity_name :: "quota_entity \<Rightarrow> string option" where
  "entity_name QuotaDefault = None"
| "entity_name (QuotaUser user) = Some user"

record quota_limits =
  producer_byte_rate :: "rat option"
  consumer_byte_rate :: "rat option"
  request_rate :: "rat option"

definition limits_default :: quota_limits where
  "limits_default = \<lparr> producer_byte_rate = None, consumer_byte_rate = None, request_rate = None \<rparr>"

definition limits_is_empty :: "quota_limits \<Rightarrow> bool" where
  "limits_is_empty l \<longleftrightarrow> producer_byte_rate l = None \<and> consumer_byte_rate l = None \<and> request_rate l = None"

definition limits_get :: "quota_limits \<Rightarrow> string \<Rightarrow> rat option" where
  "limits_get l key =
     (if key = PRODUCER_BYTE_RATE then producer_byte_rate l
      else if key = CONSUMER_BYTE_RATE then consumer_byte_rate l
      else if key = REQUEST_RATE then request_rate l
      else None)"

datatype quota_key_error = Unknown string | Value string f64

text \<open>\<open>!value.is_finite() || value < 0.0\<close>: the values \<open>set\<close> refuses; what it stores is the finite value.\<close>

fun refused_value :: "f64 \<Rightarrow> bool" where
  "refused_value (Finite v) = (v < 0)"
| "refused_value _ = True"

fun finite_value :: "f64 \<Rightarrow> rat" where
  "finite_value (Finite v) = v"
| "finite_value _ = 0"

definition limits_set :: "quota_limits \<Rightarrow> string \<Rightarrow> f64 option \<Rightarrow> quota_key_error + quota_limits" where
  "limits_set l key v =
     (if is_some_and v refused_value then Inl (Value key (the v))
      else
        (let field = map_option finite_value v in
         if key = PRODUCER_BYTE_RATE then Inr (l\<lparr>producer_byte_rate := field\<rparr>)
         else if key = CONSUMER_BYTE_RATE then Inr (l\<lparr>consumer_byte_rate := field\<rparr>)
         else if key = REQUEST_RATE then Inr (l\<lparr>request_rate := field\<rparr>)
         else Inl (Unknown key)))"

definition limits_configured :: "quota_limits \<Rightarrow> (string \<times> rat) list" where
  "limits_configured l = List.map_filter (\<lambda>key. map_option (\<lambda>v. (key, v)) (limits_get l key)) QUOTA_KEYS"

definition option_or :: "'a option \<Rightarrow> 'a option \<Rightarrow> 'a option" where
  "option_or x y = (case x of Some a \<Rightarrow> Some a | None \<Rightarrow> y)"

definition limits_or :: "quota_limits \<Rightarrow> quota_limits \<Rightarrow> quota_limits" where
  "limits_or l fallback =
     \<lparr> producer_byte_rate = option_or (producer_byte_rate l) (producer_byte_rate fallback),
       consumer_byte_rate = option_or (consumer_byte_rate l) (consumer_byte_rate fallback),
       request_rate = option_or (request_rate l) (request_rate fallback) \<rparr>"

definition divided_between :: "nat \<Rightarrow> quota_limits \<Rightarrow> quota_limits" where
  "divided_between replicas l =
     (let n = of_nat (max replicas 1) in
      \<lparr> producer_byte_rate = map_option (\<lambda>rate. rate / n) (producer_byte_rate l),
        consumer_byte_rate = map_option (\<lambda>rate. rate / n) (consumer_byte_rate l),
        request_rate = map_option (\<lambda>rate. rate / n) (request_rate l) \<rparr>)"

section \<open>The document\<close>

record quotas =
  q_default :: quota_limits
  q_users :: "(string, quota_limits) btree"

definition quotas_empty :: quotas where
  "quotas_empty = \<lparr> q_default = limits_default, q_users = [] \<rparr>"

definition user_of :: "string \<Rightarrow> string" where
  "user_of p = (if starts_with p ''User:'' then drop (length ''User:'') p else p)"

definition for_user :: "quotas \<Rightarrow> string \<Rightarrow> quota_limits" where
  "for_user q user = limits_or (unwrap_or limits_default (bt_get (q_users q) user)) (q_default q)"

definition for_principal :: "quotas \<Rightarrow> string \<Rightarrow> quota_limits" where
  "for_principal q p = for_user q (user_of p)"

fun quotas_get :: "quotas \<Rightarrow> quota_entity \<Rightarrow> quota_limits option" where
  "quotas_get q QuotaDefault = (if limits_is_empty (q_default q) then None else Some (q_default q))"
| "quotas_get q (QuotaUser user) = bt_get (q_users q) user"

record quota_op =
  op_key :: string
  op_value :: f64
  op_remove :: bool

record quota_alteration =
  al_entity :: quota_entity
  al_ops :: "quota_op list"

fun set_ops :: "quota_op list \<Rightarrow> quota_limits \<Rightarrow> quota_key_error + quota_limits" where
  "set_ops [] l = Inr l"
| "set_ops (op # ops) l =
     rbind (limits_set l (op_key op) (if op_remove op then None else Some (op_value op))) (set_ops ops)"

definition quotas_alter :: "quota_alteration \<Rightarrow> quotas \<Rightarrow> quota_key_error + quotas" where
  "quotas_alter al q =
     rbind (set_ops (al_ops al) (unwrap_or limits_default (quotas_get q (al_entity al))))
       (\<lambda>limits. Inr
          (case al_entity al of
             QuotaDefault \<Rightarrow> q\<lparr>q_default := limits\<rparr>
           | QuotaUser user \<Rightarrow>
               if limits_is_empty limits then q\<lparr>q_users := bt_remove user (q_users q)\<rparr>
               else q\<lparr>q_users := bt_insert user limits (q_users q)\<rparr>))"

datatype quota_match = Exact string | MatchDefault | MatchAny

record quota_filter_component =
  entity_type :: string
  matches :: quota_match

definition wants_named :: "quota_filter_component list \<Rightarrow> string \<Rightarrow> bool" where
  "wants_named components user \<longleftrightarrow> components = [] \<or>
     (\<exists>c \<in> set components. case matches c of Exact name \<Rightarrow> name = user | MatchAny \<Rightarrow> True | MatchDefault \<Rightarrow> False)"

definition quotas_matching :: "quotas \<Rightarrow> quota_filter_component list \<Rightarrow> bool \<Rightarrow> (quota_entity \<times> quota_limits) list" where
  "quotas_matching q components strict =
     (if strict \<and> \<not> (\<exists>c \<in> set components. entity_type c = USER_ENTITY) then []
      else if \<exists>c \<in> set components. entity_type c \<noteq> USER_ENTITY then []
      else
        (let wants_default = (components = [] \<or> (\<exists>c \<in> set components. matches c = MatchDefault)) in
         (if wants_default \<and> \<not> limits_is_empty (q_default q) then [(QuotaDefault, q_default q)] else []) @
         map (\<lambda>(user, limits). (QuotaUser user, limits)) (filter (\<lambda>(user, _). wants_named components user) (q_users q))))"

text \<open>
  \<open>alter_client_quotas\<close>: the alterations are tried in turn on the document read, and the same
  alterations are applied, refusals dropped, to whatever document the write replaces.
\<close>

fun try_alterations :: "quota_alteration list \<Rightarrow> quotas \<Rightarrow> error_code list \<times> quotas" where
  "try_alterations [] q = ([], q)"
| "try_alterations (al # als) q =
     (let (code, q') = (case quotas_alter al q of Inr q' \<Rightarrow> (NoError, q') | Inl _ \<Rightarrow> (InvalidConfig, q));
          (codes, final) = try_alterations als q'
      in (code # codes, final))"

definition alter_client_quotas ::
    "(quotas \<Rightarrow> 'b option) \<Rightarrow> ('b \<Rightarrow> quotas option) \<Rightarrow> store_error + ('b \<times> 't update_version)
      \<Rightarrow> (nat \<Rightarrow> ('b, 't) round) \<Rightarrow> quota_alteration list \<Rightarrow> bool
      \<Rightarrow> ('e os_error option + error_code list) \<times> (quotas, 't) put_request list" where
  "alter_client_quotas ser de read answers alterations validate_only =
     (case (read_doc de quotas_empty read :: 'e os_error + _) of
        Inl error \<Rightarrow> (Inl (Some error), [])
      | Inr (proposed, _) \<Rightarrow>
          (let outcomes = fst (try_alterations alterations proposed) in
           if \<not> validate_only \<and> NoError \<in> set outcomes then
             (case update_loop ser de quotas_empty (\<lambda>q. ((), snd (try_alterations alterations q))) ATTEMPTS 0 answers of
                (Inr _, puts) \<Rightarrow> (Inr outcomes, puts)
              | (Inl error, puts) \<Rightarrow> (Inl error, puts))
           else (Inr outcomes, [])))"

definition describe_client_quotas ::
    "('b \<Rightarrow> quotas option) \<Rightarrow> store_error + ('b \<times> 't update_version) \<Rightarrow> quota_filter_component list \<Rightarrow> bool
      \<Rightarrow> 'e os_error + (quota_entity \<times> quota_limits) list" where
  "describe_client_quotas de answer components strict =
     rbind (read_doc de quotas_empty answer) (\<lambda>(q, _). Inr (quotas_matching q components strict))"

section \<open>Token buckets\<close>

definition MAX_THROTTLE :: rat where "MAX_THROTTLE = 10"
definition BURST :: rat where "BURST = 1"
definition MAX_DEBT :: rat where "MAX_DEBT = 60"
definition PRUNE_INTERVAL :: rat where "PRUNE_INTERVAL = 60"
definition PRUNE_IDLE :: rat where "PRUNE_IDLE = 300"

record charge =
  produced_bytes :: nat
  fetched_bytes :: nat
  requests :: nat

definition charge_request :: charge where
  "charge_request = \<lparr> produced_bytes = 0, fetched_bytes = 0, requests = 1 \<rparr>"

definition charge_produced :: "nat \<Rightarrow> charge \<Rightarrow> charge" where
  "charge_produced n c = c\<lparr>produced_bytes := produced_bytes c + n\<rparr>"

definition charge_fetched :: "nat \<Rightarrow> charge \<Rightarrow> charge" where
  "charge_fetched n c = c\<lparr>fetched_bytes := fetched_bytes c + n\<rparr>"

record bucket =
  available :: rat
  charged_at :: rat

definition bucket_new :: "rat \<Rightarrow> bucket" where
  "bucket_new now = \<lparr> available = 0, charged_at = (if BURST \<le> now then now - BURST else now) \<rparr>"

definition bucket_charge :: "rat \<Rightarrow> rat \<Rightarrow> rat \<Rightarrow> bucket \<Rightarrow> rat \<times> bucket" where
  "bucket_charge now rate cost b =
     (if cost \<le> 0 then (0, b)
      else if rate \<le> 0 then (MAX_THROTTLE, b)
      else
        (let burst = rate * BURST;
             elapsed = max 0 (now - charged_at b);
             spent = min (available b + elapsed * rate) burst - cost;
             left = max spent (- rate * MAX_DEBT)
         in (if left \<ge> 0 then 0 else min (- left / rate) MAX_THROTTLE, \<lparr> available = left, charged_at = now \<rparr>)))"

definition bucket_settled :: "bucket \<Rightarrow> bool" where
  "bucket_settled b \<longleftrightarrow> available b \<ge> 0"

record buckets =
  bk_producer :: bucket
  bk_consumer :: bucket
  bk_request :: bucket
  bk_seen :: rat

definition buckets_new :: "rat \<Rightarrow> buckets" where
  "buckets_new now = \<lparr> bk_producer = bucket_new now, bk_consumer = bucket_new now,
     bk_request = bucket_new now, bk_seen = now \<rparr>"

text \<open>A dimension with no limit is not charged; the longest wait is the answer, none when no dimension has a limit.\<close>

definition charge_dimension :: "rat \<Rightarrow> rat option \<Rightarrow> rat \<Rightarrow> bucket \<Rightarrow> rat \<times> bucket" where
  "charge_dimension now rate cost b =
     (case rate of None \<Rightarrow> (0, b) | Some r \<Rightarrow> bucket_charge now r cost b)"

definition buckets_charge :: "rat \<Rightarrow> quota_limits \<Rightarrow> charge \<Rightarrow> buckets \<Rightarrow> rat \<times> buckets" where
  "buckets_charge now l c bs =
     (let (p, producer) = charge_dimension now (producer_byte_rate l) (of_nat (produced_bytes c)) (bk_producer bs);
          (f, consumer) = charge_dimension now (consumer_byte_rate l) (of_nat (fetched_bytes c)) (bk_consumer bs);
          (r, request) = charge_dimension now (request_rate l) (of_nat (requests c)) (bk_request bs)
      in (max p (max f r),
          \<lparr> bk_producer = producer, bk_consumer = consumer, bk_request = request, bk_seen = now \<rparr>))"

definition forgettable :: "rat \<Rightarrow> buckets \<Rightarrow> bool" where
  "forgettable now bs \<longleftrightarrow> bucket_settled (bk_producer bs) \<and> bucket_settled (bk_consumer bs) \<and>
     bucket_settled (bk_request bs) \<and> max 0 (now - bk_seen bs) > PRUNE_IDLE"

section \<open>The enforcer\<close>

record enforcer =
  en_defaults :: quota_limits
  en_replicas :: nat
  en_snapshot :: "(quotas \<times> rat) option"
  en_principals :: "string \<rightharpoonup> buckets"
  en_pruned :: rat
  en_ttl :: rat

definition QUOTA_SNAPSHOT_TTL :: rat where "QUOTA_SNAPSHOT_TTL = 5"

definition enforcer_new :: "rat \<Rightarrow> enforcer" where
  "enforcer_new now = \<lparr> en_defaults = limits_default, en_replicas = 1, en_snapshot = None,
     en_principals = Map.empty, en_pruned = now, en_ttl = QUOTA_SNAPSHOT_TTL \<rparr>"

definition en_cached :: "bool \<Rightarrow> rat \<Rightarrow> enforcer \<Rightarrow> quotas option" where
  "en_cached fresh_only now e =
     (case en_snapshot e of
        None \<Rightarrow> None
      | Some (q, t) \<Rightarrow> if \<not> fresh_only \<or> max 0 (now - t) < en_ttl e then Some q else None)"

definition en_quotas :: "rat \<Rightarrow> 'e + quotas \<Rightarrow> enforcer \<Rightarrow> quotas \<times> enforcer" where
  "en_quotas now answer e =
     (case en_cached True now e of
        Some fresh \<Rightarrow> (fresh, e)
      | None \<Rightarrow>
          (case answer of
             Inr q \<Rightarrow> (q, e\<lparr>en_snapshot := Some (q, now)\<rparr>)
           | Inl _ \<Rightarrow> (unwrap_or quotas_empty (en_cached False now e), e)))"

definition limits_for :: "rat \<Rightarrow> 'e + quotas \<Rightarrow> string \<Rightarrow> enforcer \<Rightarrow> quota_limits \<times> enforcer" where
  "limits_for now answer p e =
     (let (q, e') = en_quotas now answer e
      in (divided_between (en_replicas e) (limits_or (for_principal q p) (en_defaults e)), e'))"

definition prune :: "rat \<Rightarrow> (string \<rightharpoonup> buckets) \<Rightarrow> (string \<rightharpoonup> buckets)" where
  "prune now m = (\<lambda>p. case m p of None \<Rightarrow> None | Some bs \<Rightarrow> if forgettable now bs then None else Some bs)"

definition throttle :: "rat \<Rightarrow> 'e + quotas \<Rightarrow> string \<Rightarrow> charge \<Rightarrow> enforcer \<Rightarrow> rat \<times> enforcer" where
  "throttle now answer p c e =
     (let (limits, e') = limits_for now answer p e in
      if limits_is_empty limits then (0, e')
      else
        (let (wait, bs) = buckets_charge now limits c (unwrap_or (buckets_new now) (en_principals e' p));
             charged = (en_principals e')(p \<mapsto> bs)
         in if max 0 (now - en_pruned e') > PRUNE_INTERVAL
            then (wait, e'\<lparr>en_pruned := now, en_principals := prune now charged\<rparr>)
            else (wait, e'\<lparr>en_principals := charged\<rparr>)))"

section \<open>What an alteration does\<close>

definition wf_rate :: "rat option \<Rightarrow> bool" where
  "wf_rate r \<longleftrightarrow> is_none_or r (\<lambda>v. 0 \<le> v)"

definition wf_limits :: "quota_limits \<Rightarrow> bool" where
  "wf_limits l \<longleftrightarrow> wf_rate (producer_byte_rate l) \<and> wf_rate (consumer_byte_rate l) \<and> wf_rate (request_rate l)"

text \<open>Every limit is non-negative, the users are in order, and no user holds an empty row.\<close>

definition wf_quotas :: "quotas \<Rightarrow> bool" where
  "wf_quotas q \<longleftrightarrow> wf_limits (q_default q) \<and> bt_inv (q_users q) \<and>
     (\<forall>u l. bt_get (q_users q) u = Some l \<longrightarrow> wf_limits l \<and> \<not> limits_is_empty l)"

definition acceptable :: "quota_op \<Rightarrow> bool" where
  "acceptable op \<longleftrightarrow> op_key op \<in> set QUOTA_KEYS \<and> (op_remove op \<or> \<not> refused_value (op_value op))"

definition op_effect :: "quota_op \<Rightarrow> string \<Rightarrow> rat option \<Rightarrow> rat option" where
  "op_effect op key v =
     (if op_key op = key then if op_remove op then None else Some (finite_value (op_value op)) else v)"

definition row :: "quotas \<Rightarrow> quota_entity \<Rightarrow> quota_limits" where
  "row q e = unwrap_or limits_default (quotas_get q e)"

lemma keys_distinct [simp]:
  "PRODUCER_BYTE_RATE \<noteq> CONSUMER_BYTE_RATE" "PRODUCER_BYTE_RATE \<noteq> REQUEST_RATE"
  "CONSUMER_BYTE_RATE \<noteq> REQUEST_RATE" "CONSUMER_BYTE_RATE \<noteq> PRODUCER_BYTE_RATE"
  "REQUEST_RATE \<noteq> PRODUCER_BYTE_RATE" "REQUEST_RATE \<noteq> CONSUMER_BYTE_RATE"
  by (simp_all add: PRODUCER_BYTE_RATE_def CONSUMER_BYTE_RATE_def REQUEST_RATE_def)

lemma finite_value_nonneg: "\<not> refused_value v \<Longrightarrow> 0 \<le> finite_value v"
  by (cases v) auto

lemma wf_limits_default [simp]: "wf_limits limits_default"
  by (simp add: wf_limits_def limits_default_def wf_rate_def is_none_or_def)

definition limits_step :: "quota_limits \<Rightarrow> quota_op \<Rightarrow> quota_key_error + quota_limits" where
  "limits_step l op = limits_set l (op_key op) (if op_remove op then None else Some (op_value op))"

lemma limits_step_cases:
  "(acceptable op \<and> (\<exists>l'. limits_step l op = Inr l' \<and> (\<forall>key. limits_get l' key = op_effect op key (limits_get l key)) \<and>
      (wf_limits l \<longrightarrow> wf_limits l'))) \<or>
   (\<not> acceptable op \<and> (\<exists>err. limits_step l op = Inl err))"
  using finite_value_nonneg [of "op_value op"]
  by (auto simp: limits_step_def limits_set_def acceptable_def QUOTA_KEYS_def is_some_and_def limits_get_def
      op_effect_def wf_limits_def wf_rate_def is_none_or_def Let_def split: option.splits)

lemma set_ops_cases:
  "(\<forall>op \<in> set ops. acceptable op) \<and> (\<exists>l'. set_ops ops l = Inr l' \<and>
      (\<forall>key. limits_get l' key = fold (\<lambda>op. op_effect op key) ops (limits_get l key)) \<and>
      (wf_limits l \<longrightarrow> wf_limits l')) \<or>
   (\<exists>op \<in> set ops. \<not> acceptable op) \<and> (\<exists>err. set_ops ops l = Inl err)"
proof (induction ops arbitrary: l)
  case (Cons op ops)
  show ?case
  proof (cases "acceptable op")
    case True
    then obtain l' where l': "limits_step l op = Inr l'" "\<forall>key. limits_get l' key = op_effect op key (limits_get l key)"
        "wf_limits l \<longrightarrow> wf_limits l'"
      using limits_step_cases [of op l] by blast
    then show ?thesis using Cons.IH [of l'] True by (auto simp: limits_step_def)
  next
    case False
    then obtain err where "limits_step l op = Inl err" using limits_step_cases [of op l] by blast
    then show ?thesis using False by (auto simp: limits_step_def)
  qed
qed simp

lemma row_default [simp]: "limits_get (row q QuotaDefault) key = limits_get (q_default q) key"
  by (auto simp: row_def unwrap_or_def limits_is_empty_def limits_get_def limits_default_def)

lemma row_user: "row q (QuotaUser u) = unwrap_or limits_default (bt_get (q_users q) u)"
  by (simp add: row_def)

lemma wf_row: "wf_quotas q \<Longrightarrow> wf_limits (row q e)"
  by (cases e) (auto simp: wf_quotas_def row_def unwrap_or_def split: option.splits)

lemma empty_limits_get: "limits_is_empty l \<Longrightarrow> limits_get l key = None"
  by (simp add: limits_is_empty_def limits_get_def)

lemma empty_default_get: "limits_get limits_default key = None"
  by (simp add: limits_default_def limits_get_def)

definition put_row :: "quota_entity \<Rightarrow> quota_limits \<Rightarrow> quotas \<Rightarrow> quotas" where
  "put_row e limits q =
     (case e of
        QuotaDefault \<Rightarrow> q\<lparr>q_default := limits\<rparr>
      | QuotaUser user \<Rightarrow>
          if limits_is_empty limits then q\<lparr>q_users := bt_remove user (q_users q)\<rparr>
          else q\<lparr>q_users := bt_insert user limits (q_users q)\<rparr>)"

lemma put_row_get: "limits_get (row (put_row e limits q) e') key =
    (if e' = e then limits_get limits key else limits_get (row q e') key)"
  by (cases e; cases e')
    (auto simp: put_row_def row_user bt_get_insert unwrap_or_def empty_limits_get empty_default_get)

lemma put_row_wf: "wf_quotas q \<Longrightarrow> wf_limits limits \<Longrightarrow> wf_quotas (put_row e limits q)"
  by (cases e) (auto simp: wf_quotas_def put_row_def bt_inv_insert bt_remove_def bt_inv_retain bt_get_insert
      bt_get_retain split: if_splits)

lemma quotas_alter_put_row:
  "quotas_alter al q = rbind (set_ops (al_ops al) (row q (al_entity al))) (\<lambda>l. Inr (put_row (al_entity al) l q))"
  by (simp add: quotas_alter_def put_row_def row_def)

lemma quotas_alter_cases:
  "(\<forall>op \<in> set (al_ops al). acceptable op) \<and> (\<exists>q'. quotas_alter al q = Inr q' \<and> (wf_quotas q \<longrightarrow> wf_quotas q') \<and>
      (\<forall>e key. limits_get (row q' e) key = (if e = al_entity al
         then fold (\<lambda>op. op_effect op key) (al_ops al) (limits_get (row q e) key) else limits_get (row q e) key))) \<or>
   (\<exists>op \<in> set (al_ops al). \<not> acceptable op) \<and> (\<exists>err. quotas_alter al q = Inl err)"
  using set_ops_cases [of "al_ops al" "row q (al_entity al)"] wf_row [of q "al_entity al"]
  by (auto simp: quotas_alter_put_row put_row_get put_row_wf)

lemma try_alterations_wf: "wf_quotas q \<Longrightarrow> wf_quotas (snd (try_alterations als q))"
proof (induction als arbitrary: q)
  case (Cons al als)
  show ?case
  proof (cases "quotas_alter al q")
    case (Inl err)
    then show ?thesis using Cons.IH [OF Cons.prems] by (auto split: prod.splits)
  next
    case (Inr q')
    then have "wf_quotas q'" using quotas_alter_cases [of al q] Cons.prems by auto
    from Cons.IH [OF this] show ?thesis using Inr by (auto split: prod.splits)
  qed
qed simp

lemma wf_limits_or: "wf_limits l \<Longrightarrow> wf_limits l' \<Longrightarrow> wf_limits (limits_or l l')"
  by (auto simp: wf_limits_def limits_or_def wf_rate_def is_none_or_def option_or_def split: option.splits)

lemma wf_divided: "wf_limits l \<Longrightarrow> wf_limits (divided_between n l)"
  by (auto simp: wf_limits_def divided_between_def wf_rate_def is_none_or_def Let_def split: option.splits)

lemma wf_for_principal: "wf_quotas q \<Longrightarrow> wf_limits (for_principal q p)"
  by (auto simp: for_principal_def for_user_def wf_quotas_def unwrap_or_def intro!: wf_limits_or split: option.splits)

section \<open>What a bucket enforces\<close>

text \<open>A sequence of charges at one rate: when each request arrived and what it cost.\<close>

fun charge_all :: "rat \<Rightarrow> (rat \<times> rat) list \<Rightarrow> bucket \<Rightarrow> rat list \<times> bucket" where
  "charge_all rate [] b = ([], b)"
| "charge_all rate ((t, c) # rest) b =
     (let (w, b') = bucket_charge t rate c b; (ws, b'') = charge_all rate rest b' in (w # ws, b''))"

text \<open>Each request is read only after the wait the one before it was answered.\<close>

fun waits_out :: "rat \<Rightarrow> (rat \<times> rat) list \<Rightarrow> bucket \<Rightarrow> bool" where
  "waits_out rate [] b = True"
| "waits_out rate ((t, c) # rest) b =
     (let (w, b') = bucket_charge t rate c b
      in (case rest of [] \<Rightarrow> True | (t', _) # _ \<Rightarrow> t + w \<le> t') \<and> waits_out rate rest b')"

definition total_cost :: "(rat \<times> rat) list \<Rightarrow> rat" where
  "total_cost reqs = sum_list (map snd reqs)"

lemma bucket_charge_pos:
  assumes "0 < rate" and "0 < cost" and "charged_at b \<le> t"
  shows "\<exists>w b'. bucket_charge t rate cost b = (w, b') \<and> charged_at b' = t \<and>
    available b' = max (min (available b + (t - charged_at b) * rate) rate - cost) (- rate * 60) \<and>
    w = (if available b' \<ge> 0 then 0 else min (- available b' / rate) 10)"
  using assms by (simp add: bucket_charge_def BURST_def MAX_DEBT_def MAX_THROTTLE_def Let_def max_def)

lemma waits_out_total:
  assumes "0 < rate" and "waits_out rate reqs b" and "reqs \<noteq> []"
    and "\<And>t c. (t, c) \<in> set reqs \<Longrightarrow> 0 < c \<and> c \<le> 10 * rate"
    and "charged_at b \<le> fst (hd reqs)" and "0 \<le> available b + (fst (hd reqs) - charged_at b) * rate"
  shows "total_cost reqs \<le> available b + (fst (last reqs) - charged_at b) * rate + snd (last reqs)"
  using assms(2-)
proof (induction reqs arbitrary: b)
  case (Cons tc rest)
  obtain t c where tc: "tc = (t, c)" by fastforce
  have c: "0 < c" "c \<le> 10 * rate" and t: "charged_at b \<le> t" "0 \<le> available b + (t - charged_at b) * rate"
    using Cons.prems(3) [of t c] Cons.prems(4,5) tc by auto
  obtain w b' where ch: "bucket_charge t rate c b = (w, b')" "charged_at b' = t"
    and av: "available b' = max (min (available b + (t - charged_at b) * rate) rate - c) (- rate * 60)"
    and w: "w = (if available b' \<ge> 0 then 0 else min (- available b' / rate) 10)"
    using bucket_charge_pos [OF assms(1) c(1) t(1)] by blast
  have left: "available b' = min (available b + (t - charged_at b) * rate) rate - c" "- (10 * rate) \<le> available b'"
    using av c t assms(1) by (auto simp: max_def min_def)
  have upper: "c + available b' \<le> available b + (t - charged_at b) * rate" using left(1) by simp
  show ?case
  proof (cases rest)
    case Nil
    then show ?thesis using tc t c by (simp add: total_cost_def)
  next
    case (Cons tc' rest')
    then obtain t' c' where tc': "tc' = (t', c')" by fastforce
    have costs: "0 < y \<and> y \<le> 10 * rate" if "(x, y) \<in> set rest" for x y
      using Cons.prems(3) [of x y] that by simp
    have wait: "t + w \<le> t'" and wo: "waits_out rate rest b'" using Cons.prems(1) tc Cons tc' ch(1) by auto
    have "0 \<le> w" using w assms(1) by (auto simp: divide_nonpos_pos min_def)
    moreover have "- available b' \<le> w * rate"
    proof (cases "available b' \<ge> 0")
      case True
      then show ?thesis using w by simp
    next
      case False
      then have "w = - available b' / rate"
        using w left(2) assms(1) by (auto simp: min_def field_simps)
      then show ?thesis using assms(1) by simp
    qed
    moreover have "w * rate \<le> (t' - t) * rate"
      using wait assms(1) by (intro mult_right_mono) auto
    ultimately have "charged_at b' \<le> t'" "0 \<le> available b' + (t' - charged_at b') * rate"
      using wait ch(2) by auto
    then have "total_cost rest \<le> available b' + (fst (last rest) - charged_at b') * rate + snd (last rest)"
      using Cons.IH [OF wo _ costs] Cons tc' by simp
    then have "total_cost rest \<le> available b' + (fst (last rest) - t) * rate + snd (last rest)" using ch(2) by simp
    moreover have "total_cost (tc # rest) = c + total_cost rest" "last (tc # rest) = last rest"
      using tc Cons by (simp_all add: total_cost_def)
    ultimately show ?thesis using upper by (simp add: algebra_simps)
  qed
qed simp

lemma charge_all_snoc:
  "charge_all rate (xs @ [(t, c)]) b =
     (let (ws, b') = charge_all rate xs b; (w, b'') = bucket_charge t rate c b' in (ws @ [w], b''))"
  by (induction rate xs b rule: charge_all.induct) (auto split: prod.splits)

text \<open>The cost of the requests from the \<open>i\<close>th on.\<close>

definition window :: "(rat \<times> rat) list \<Rightarrow> nat \<Rightarrow> rat" where
  "window reqs i = total_cost (drop i reqs)"

text \<open>The balance is never below what some window leaves of one burst and the rate since it opened.\<close>

lemma charge_all_balance:
  assumes "0 < rate" and "reqs \<noteq> []" and "sorted (map fst reqs)" and "\<forall>c \<in> snd ` set reqs. 0 < c"
    and "charged_at b \<le> fst (hd reqs)" and "rate \<le> available b + (fst (hd reqs) - charged_at b) * rate"
  shows "\<exists>i < length reqs. charged_at (snd (charge_all rate reqs b)) = fst (last reqs) \<and>
    rate + (fst (last reqs) - fst (reqs ! i)) * rate - window reqs i \<le> available (snd (charge_all rate reqs b))"
  using assms(2-)
proof (induction reqs rule: rev_induct)
  case (snoc tc xs)
  obtain t c where tc: "tc = (t, c)" by fastforce
  have c: "0 < c" using snoc.prems(3) tc by simp
  obtain ws b\<^sub>1 where run: "charge_all rate xs b = (ws, b\<^sub>1)" by fastforce
  have rest: "charge_all rate (xs @ [tc]) b = (ws @ [fst (bucket_charge t rate c b\<^sub>1)], snd (bucket_charge t rate c b\<^sub>1))"
    by (simp add: tc charge_all_snoc run split: prod.splits)
  show ?case
  proof (cases "xs = []")
    case True
    then have "b\<^sub>1 = b" using run by simp
    then show ?thesis
      using snoc.prems(4,5) True tc c bucket_charge_pos [OF assms(1) c, of b t] rest
      by (auto simp: window_def total_cost_def min_def)
  next
    case False
    then obtain i where i: "i < length xs" "charged_at b\<^sub>1 = fst (last xs)"
        "rate + (fst (last xs) - fst (xs ! i)) * rate - window xs i \<le> available b\<^sub>1"
      using snoc.IH snoc.prems run by (auto simp: sorted_append)
    have t: "charged_at b\<^sub>1 \<le> t" using snoc.prems(2) i(2) False tc by (auto simp: sorted_append)
    obtain w b\<^sub>2 where ch: "bucket_charge t rate c b\<^sub>1 = (w, b\<^sub>2)" "charged_at b\<^sub>2 = t"
      and av: "available b\<^sub>2 = max (min (available b\<^sub>1 + (t - charged_at b\<^sub>1) * rate) rate - c) (- rate * 60)"
      using bucket_charge_pos [OF assms(1) c t] by blast
    have win: "window (xs @ [tc]) i = window xs i + c" "window (xs @ [tc]) (length xs) = c"
      using i(1) tc by (simp_all add: window_def total_cost_def)
    show ?thesis
    proof (cases "available b\<^sub>1 + (t - charged_at b\<^sub>1) * rate \<le> rate")
      case True
      then have "available b\<^sub>1 + (t - charged_at b\<^sub>1) * rate - c \<le> available b\<^sub>2" using av by simp
      then show ?thesis using rest ch i win tc
        by (intro exI [of _ i]) (auto simp: nth_append algebra_simps)
    next
      case False
      then have "rate - c \<le> available b\<^sub>2" using av by simp
      then show ?thesis using rest ch win tc by (intro exI [of _ "length xs"]) auto
    qed
  qed
qed simp



section \<open>Forgetting a principal is not observable\<close>

text \<open>A bucket with nothing owed, untouched for a burst, answers the next charge as a new one does.\<close>

definition rested :: "rat \<Rightarrow> bucket \<Rightarrow> bool" where
  "rested now b \<longleftrightarrow> 0 \<le> available b \<and> charged_at b + BURST \<le> now"

definition alike :: "rat \<Rightarrow> bucket \<Rightarrow> bucket \<Rightarrow> bool" where
  "alike now b b' \<longleftrightarrow> b = b' \<or> rested now b \<and> rested now b'"

lemma rested_full:
  assumes "rested now b" and "0 < rate"
  shows "min (available b + max 0 (now - charged_at b) * rate) (rate * BURST) = rate * BURST"
proof -
  have "1 * rate \<le> max 0 (now - charged_at b) * rate"
    using assms by (intro mult_right_mono) (auto simp: rested_def BURST_def)
  then have "rate * BURST \<le> available b + max 0 (now - charged_at b) * rate"
    using assms(1) unfolding rested_def BURST_def by linarith
  then show ?thesis by (rule min_absorb2)
qed

lemma alike_charge:
  assumes "alike now b b'"
  shows "fst (bucket_charge now rate cost b) = fst (bucket_charge now rate cost b') \<and>
    alike now (snd (bucket_charge now rate cost b)) (snd (bucket_charge now rate cost b'))"
proof (cases "b = b'")
  case False
  then have "rested now b" "rested now b'" using assms by (auto simp: alike_def)
  then show ?thesis
    using rested_full [of now b rate] rested_full [of now b' rate] by (auto simp: bucket_charge_def alike_def Let_def)
qed (simp add: alike_def)

definition buckets_alike :: "rat \<Rightarrow> buckets \<Rightarrow> buckets \<Rightarrow> bool" where
  "buckets_alike now bs bs' \<longleftrightarrow> alike now (bk_producer bs) (bk_producer bs') \<and>
     alike now (bk_consumer bs) (bk_consumer bs') \<and> alike now (bk_request bs) (bk_request bs')"

lemma alike_dimension:
  assumes "alike now b b'"
  shows "fst (charge_dimension now rate cost b) = fst (charge_dimension now rate cost b') \<and>
    alike now (snd (charge_dimension now rate cost b)) (snd (charge_dimension now rate cost b'))"
  using assms alike_charge by (cases rate) (auto simp: charge_dimension_def)

lemma buckets_alike_charge:
  assumes "buckets_alike now bs bs'"
  shows "fst (buckets_charge now l c bs) = fst (buckets_charge now l c bs') \<and>
    buckets_alike now (snd (buckets_charge now l c bs)) (snd (buckets_charge now l c bs'))"
  using assms alike_dimension [of now "bk_producer bs" "bk_producer bs'" "producer_byte_rate l" "of_nat (produced_bytes c)"]
    alike_dimension [of now "bk_consumer bs" "bk_consumer bs'" "consumer_byte_rate l" "of_nat (fetched_bytes c)"]
    alike_dimension [of now "bk_request bs" "bk_request bs'" "request_rate l" "of_nat (requests c)"]
  by (auto simp: buckets_alike_def buckets_charge_def Let_def split: prod.splits)

text \<open>Every bucket was charged when its principal was last seen, or before.\<close>

definition seen_last :: "buckets \<Rightarrow> bool" where
  "seen_last bs \<longleftrightarrow> 0 \<le> bk_seen bs \<and> charged_at (bk_producer bs) \<le> bk_seen bs \<and>
     charged_at (bk_consumer bs) \<le> bk_seen bs \<and> charged_at (bk_request bs) \<le> bk_seen bs"

lemma seen_last_new: "0 \<le> now \<Longrightarrow> seen_last (buckets_new now)"
  by (simp add: seen_last_def buckets_new_def bucket_new_def BURST_def)

lemma charged_at_dimension:
  "charged_at b \<le> now \<Longrightarrow> charged_at (snd (charge_dimension now rate cost b)) \<le> now"
  by (auto simp: charge_dimension_def bucket_charge_def Let_def split: option.splits)

lemma seen_last_charge:
  assumes "seen_last bs" and "bk_seen bs \<le> now"
  shows "seen_last (snd (buckets_charge now l c bs))"
  using assms
    charged_at_dimension [of "bk_producer bs" now "producer_byte_rate l" "of_nat (produced_bytes c)"]
    charged_at_dimension [of "bk_consumer bs" now "consumer_byte_rate l" "of_nat (fetched_bytes c)"]
    charged_at_dimension [of "bk_request bs" now "request_rate l" "of_nat (requests c)"]
  by (auto simp: seen_last_def buckets_charge_def Let_def split: prod.splits)

lemma forgettable_alike:
  assumes "seen_last bs" and "forgettable now bs" and "now \<le> later"
  shows "buckets_alike later bs (buckets_new later)"
  using assms
  by (auto simp: seen_last_def forgettable_def buckets_alike_def alike_def rested_def buckets_new_def bucket_new_def
      bucket_settled_def PRUNE_IDLE_def BURST_def max_def split: if_splits)

text \<open>
  A principal whose last request left it in debt is never forgotten, however long ago the debt was
  repaid: \<open>settled\<close> reads the balance as it stood at that request.
\<close>

lemma debt_never_forgotten: "available (bk_producer bs) < 0 \<Longrightarrow> \<not> forgettable now bs"
  by (simp add: forgettable_def bucket_settled_def)

section \<open>Properties of the document and the enforcer\<close>

text \<open>
  C29. The quota document stays well formed and an alteration does what it says or nothing. From a
  document whose limits are non-negative and whose users hold no empty row, an alteration is refused
  exactly when one of its operations names an unknown key or a value that is no limit; otherwise the
  entity's limit for every key is the outcome of its operations in order, every other entity's limits
  are untouched, and the document is again well formed, as it is after any list of alterations. The
  limits then enforced for a principal are non-negative.
\<close>
theorem quotas_well_formed:
  assumes "wf_quotas q" and "wf_limits (en_defaults e)" and "en_snapshot e = None"
  shows "(case quotas_alter al q of
      Inl err \<Rightarrow> \<exists>op \<in> set (al_ops al). \<not> acceptable op
    | Inr q' \<Rightarrow> (\<forall>op \<in> set (al_ops al). acceptable op) \<and> wf_quotas q' \<and>
        (\<forall>en key. limits_get (row q' en) key = (if en = al_entity al
           then fold (\<lambda>op. op_effect op key) (al_ops al) (limits_get (row q en) key)
           else limits_get (row q en) key))) \<and>
    wf_quotas (snd (try_alterations als q)) \<and>
    wf_limits (fst (limits_for now (Inr q) p e)) \<and> wf_limits (fst (limits_for now (Inl err) p e))"
proof -
  have "wf_quotas quotas_empty"
    by (simp add: wf_quotas_def quotas_empty_def bt_inv_def bt_get_def)
  then have "wf_limits (fst (limits_for now (Inr q) p e))" "wf_limits (fst (limits_for now (Inl err) p e))"
    using assms by (simp_all add: limits_for_def en_quotas_def en_cached_def unwrap_or_def wf_divided wf_limits_or
        wf_for_principal)
  then show ?thesis
    using quotas_alter_cases [of al q] try_alterations_wf [OF assms(1), of als] assms(1) by auto
qed

definition sample_alteration :: quota_alteration where
  "sample_alteration = \<lparr> al_entity = QuotaUser ''alice'',
     al_ops = [\<lparr> op_key = PRODUCER_BYTE_RATE, op_value = Finite 1024, op_remove = False \<rparr>] \<rparr>"

theorem quotas_well_formed_witness:
  "\<exists>q. quotas_alter sample_alteration quotas_empty = Inr q \<and> wf_quotas q \<and>
     limits_get (row q (QuotaUser ''alice'')) PRODUCER_BYTE_RATE = Some 1024 \<and>
     limits_get (row q (QuotaUser ''bob'')) PRODUCER_BYTE_RATE = None"
proof -
  have wf: "wf_quotas quotas_empty" by (simp add: wf_quotas_def quotas_empty_def bt_inv_def bt_get_def)
  have acc: "\<not> (\<exists>op \<in> set (al_ops sample_alteration). \<not> acceptable op)"
    by (simp add: sample_alteration_def acceptable_def QUOTA_KEYS_def)
  note t = quotas_well_formed [OF wf, of "enforcer_new 0" sample_alteration "[]" 0 "[]" "()"]
  obtain q where q: "quotas_alter sample_alteration quotas_empty = Inr q"
    using t acc by (cases "quotas_alter sample_alteration quotas_empty") (auto simp: enforcer_new_def)
  have "row quotas_empty en = limits_default" for en
    by (cases en) (simp_all add: row_def quotas_empty_def limits_is_empty_def limits_default_def unwrap_or_def bt_get_def)
  then show ?thesis
    using t q by (auto simp: enforcer_new_def sample_alteration_def op_effect_def empty_default_get)
qed

end
