(* ===== verification/Transaction.thy ===== *)
theory Transaction
  imports BTreeMap OptiCon "HOL-Library.Char_ord" "HOL-Library.List_Lexorder" "HOL-Library.Product_Lexorder"
begin

text \<open>
  Transactions: the cluster document \<open>Meta\<close> of \<open>dynostore.rs\<close>, and the closures that edit it under
  optimistic concurrency: \<open>init_producer_id\<close>, \<open>add_txn_partitions\<close> and the two halves of \<open>end_txn\<close> of
  \<open>dynostore/txn.rs\<close>, \<open>txn_offset_commit\<close> and the registration of a produced range of
  \<open>dynostore/storage.rs\<close>; and what a read derives from it, the last stable offset and the aborted
  transactions of \<open>offset_stage\<close>. Each closure is a function from the document to its result and the
  document it leaves. A failed assertion of the source is the error \<open>Panic\<close>.
\<close>

section \<open>The document\<close>

datatype txn_state = Begin | PrepareCommit | PrepareAbort | Committed | Aborted

fun is_prepared :: "txn_state \<Rightarrow> bool" where
  "is_prepared PrepareAbort = True"
| "is_prepared PrepareCommit = True"
| "is_prepared _ = False"

record txn_produce_offset =
  offset_start :: int
  offset_end :: int

record txn_commit_offset =
  committed_offset :: int
  leader_epoch :: "int option"
  metadata :: "string option"

type_synonym tp = "string \<times> int"
type_synonym produce_map = "(string, (int, txn_produce_offset option) btree) btree"
type_synonym offset_map = "(string, (string, (int, txn_commit_offset) btree) btree) btree"

record txn_detail =
  transaction_timeout_ms :: int
  started_at :: "int option"
  state :: "txn_state option"
  produces :: produce_map
  offsets :: offset_map

record txn =
  producer :: int
  epochs :: "(int, txn_detail) btree"

record producer_detail =
  sequences :: "(int, (string, (int, int) btree) btree) btree"

record meta =
  producers :: "(int, producer_detail) btree"
  transactions :: "(string, txn) btree"

record txn_id =
  ti_transaction :: string
  ti_producer_id :: int
  ti_producer_epoch :: int
  ti_state :: txn_state

datatype txn_error = TransactionalIdNotFound | UnknownProducerId | ProducerFenced | Panic

definition meta_default :: meta where
  "meta_default = \<lparr> producers = [], transactions = [] \<rparr>"

definition detail_default :: "int \<Rightarrow> txn_detail" where
  "detail_default timeout_ms = \<lparr> transaction_timeout_ms = timeout_ms, started_at = None, state = None,
     produces = [], offsets = [] \<rparr>"

section \<open>What the document says of a partition\<close>

text \<open>The ranges a detail has produced, by topic partition, in the order of the nested maps.\<close>

definition partition_ranges :: "string \<times> (int, txn_produce_offset option) btree \<Rightarrow> (tp \<times> txn_produce_offset) list" where
  "partition_ranges tps = (case tps of (topic, partitions) \<Rightarrow>
     List.map_filter (\<lambda>(p, entry). map_option (\<lambda>r. ((topic, p), r)) entry) partitions)"

definition detail_ranges :: "txn_detail \<Rightarrow> (tp \<times> txn_produce_offset) list" where
  "detail_ranges d = concat (map partition_ranges (produces d))"

definition detail_offsets :: "txn_detail \<Rightarrow> (tp, int) btree" where
  "detail_offsets d = fold (\<lambda>(tp, r). bt_insert tp (offset_start r)) (detail_ranges d) []"

definition is_open :: "txn_detail \<Rightarrow> bool" where
  "is_open d \<longleftrightarrow> is_some_and (state d) (\<lambda>s. s \<noteq> Committed \<and> s \<noteq> Aborted)"

definition all_details :: "meta \<Rightarrow> txn_detail list" where
  "all_details m = concat (map (\<lambda>(_, t). map snd (epochs t)) (transactions m))"

definition lower_floor :: "tp \<times> int \<Rightarrow> (tp, int) btree \<Rightarrow> (tp, int) btree" where
  "lower_floor tps floors = (case tps of (tp, start) \<Rightarrow>
     (case bt_get floors tp of
        None \<Rightarrow> bt_insert tp start floors
      | Some existing \<Rightarrow> if existing > start then bt_insert tp start floors else floors))"

definition open_transaction_floors :: "meta \<Rightarrow> (tp, int) btree" where
  "open_transaction_floors m =
     fold (\<lambda>d. fold lower_floor (detail_offsets d)) (filter is_open (all_details m)) []"

definition produced :: "meta \<Rightarrow> string \<Rightarrow> int \<Rightarrow> int \<Rightarrow> txn_error os_error + (tp, txn_produce_offset) btree" where
  "produced m tid pid epoch =
     (case bt_get (transactions m) tid of
        None \<Rightarrow> Inl (ApiError TransactionalIdNotFound)
      | Some t \<Rightarrow>
          if producer t \<noteq> pid then Inl (ApiError UnknownProducerId)
          else (case bt_get (epochs t) epoch of
                  None \<Rightarrow> Inl (ApiError ProducerFenced)
                | Some d \<Rightarrow> Inr (fold (\<lambda>(tp, r). bt_insert tp r) (detail_ranges d) [])))"

definition overlaps :: "(tp, txn_produce_offset) btree \<Rightarrow> txn_detail \<Rightarrow> bool" where
  "overlaps candidates d \<longleftrightarrow> (\<exists>(tp, r) \<in> set (detail_ranges d).
     is_some_and (bt_get candidates tp) (\<lambda>candidate. offset_start r < offset_end candidate))"

text \<open>The first epoch of a transaction that overlaps: the scan moves to the next transaction after it.\<close>

definition first_overlap ::
    "(tp, txn_produce_offset) btree \<Rightarrow> string \<Rightarrow> int \<Rightarrow> int \<Rightarrow> string \<times> txn \<Rightarrow> txn_id option" where
  "first_overlap candidates tid pid epoch ct = (case ct of (candidate_id, t) \<Rightarrow>
     map_option (\<lambda>(e, d). \<lparr> ti_transaction = candidate_id, ti_producer_id = producer t, ti_producer_epoch = e,
         ti_state = the (state d) \<rparr>)
       (List.find (\<lambda>(e, d). \<not> (tid = candidate_id \<and> pid = producer t \<and> epoch = e) \<and> state d \<noteq> None \<and>
          overlaps candidates d) (epochs t)))"

definition overlapping_transactions :: "meta \<Rightarrow> string \<Rightarrow> int \<Rightarrow> int \<Rightarrow> txn_error os_error + txn_id list" where
  "overlapping_transactions m tid pid epoch =
     rbind (produced m tid pid epoch)
       (\<lambda>candidates. Inr (List.map_filter (first_overlap candidates tid pid epoch) (transactions m)))"

text \<open>
  \<open>offset_stage\<close>: the aborted ranges of a partition, and the stage given the high watermark and the log
  start.
\<close>

definition produced_range :: "txn_detail \<Rightarrow> tp \<Rightarrow> txn_produce_offset option" where
  "produced_range d tp = Option.bind (Option.bind (bt_get (produces d) (fst tp)) (\<lambda>ps. bt_get ps (snd tp))) id"

definition aborted_raw :: "meta \<Rightarrow> tp \<Rightarrow> (int \<times> int \<times> int) list" where
  "aborted_raw m tp = concat (map (\<lambda>(_, t). List.map_filter (\<lambda>(_, d).
     if state d \<noteq> Some Aborted then None
     else map_option (\<lambda>r. (producer t, offset_start r, offset_end r)) (produced_range d tp)) (epochs t)) (transactions m))"

record offset_stage =
  last_stable :: int
  high_watermark :: int
  log_start :: int
  aborted :: "(int \<times> int) list"

definition offset_stage_of :: "meta \<Rightarrow> tp \<Rightarrow> int \<Rightarrow> int \<Rightarrow> offset_stage" where
  "offset_stage_of m tp high start =
     \<lparr> last_stable = unwrap_or high (bt_get (open_transaction_floors m) tp), high_watermark = high, log_start = start,
       aborted = sort_key snd (map (\<lambda>(pid, first, _). (pid, first)) (filter (\<lambda>(_, _, end_offset). end_offset \<ge> start) (aborted_raw m tp))) \<rparr>"

section \<open>The closures\<close>

text \<open>A detail edited in place through \<open>get_mut\<close>, of the transaction \<open>t\<close> under its id.\<close>

definition put_detail :: "string \<Rightarrow> txn \<Rightarrow> int \<Rightarrow> txn_detail \<Rightarrow> meta \<Rightarrow> meta" where
  "put_detail tid t epoch d m =
     m\<lparr>transactions := bt_insert tid (t\<lparr>epochs := bt_insert epoch d (epochs t)\<rparr>) (transactions m)\<rparr>"

text \<open>
  The guard four of them share: the transaction exists, belongs to the producer, and the epoch is its
  newest. \<open>edit\<close> gets the newest detail; the result of a refusal is a value of the caller's.
\<close>

definition current_detail :: "meta \<Rightarrow> string \<Rightarrow> int \<Rightarrow> int \<Rightarrow> txn_error + (txn \<times> txn_detail)" where
  "current_detail m tid pid epoch =
     (case bt_get (transactions m) tid of
        None \<Rightarrow> Inl TransactionalIdNotFound
      | Some t \<Rightarrow>
          if producer t \<noteq> pid then Inl UnknownProducerId
          else (case next_back (epochs t) of
                  None \<Rightarrow> Inl ProducerFenced
                | Some (newest, d) \<Rightarrow> if epoch \<noteq> newest then Inl ProducerFenced else Inr (t, d)))"

definition with_current ::
    "(txn_error \<Rightarrow> 'r) \<Rightarrow> string \<Rightarrow> int \<Rightarrow> int \<Rightarrow> (txn_detail \<Rightarrow> 'r \<times> txn_detail) \<Rightarrow> meta \<Rightarrow> 'r \<times> meta" where
  "with_current refuse tid pid epoch edit m =
     (case current_detail m tid pid epoch of
        Inl err \<Rightarrow> (refuse err, m)
      | Inr (t, d) \<Rightarrow> (fst (edit d), put_detail tid t epoch (snd (edit d)) m))"

text \<open>\<open>end_txn\<close>, first closure: from \<open>Begin\<close> to prepared, answering the partitions to mark.\<close>

definition end_prepare :: "string \<Rightarrow> int \<Rightarrow> int \<Rightarrow> bool \<Rightarrow> (meta, txn_error, tp list) closure" where
  "end_prepare tid pid epoch commit =
     with_current (\<lambda>err. Inl (ApiError err)) tid pid epoch
       (\<lambda>d. if state d = Some Begin
            then (Inr (map fst (detail_ranges d)), d\<lparr>state := Some (if commit then PrepareCommit else PrepareAbort)\<rparr>)
            else (Inr [], d))"

text \<open>One transaction resolved: its new state, the offsets it commits, what is cleared.\<close>

definition add_offset :: "string \<Rightarrow> string \<Rightarrow> int \<times> txn_commit_offset \<Rightarrow> offset_map \<Rightarrow> offset_map" where
  "add_offset grp topic pc = (case pc of (p, c) \<Rightarrow> bt_update grp [] (bt_update topic [] (bt_insert p c)))"

definition add_offsets :: "offset_map \<Rightarrow> offset_map \<Rightarrow> offset_map" where
  "add_offsets os acc =
     fold (\<lambda>(grp, topics). fold (\<lambda>(topic, partitions). fold (add_offset grp topic) partitions) topics) os acc"

definition resolved_state :: "txn_state option \<Rightarrow> txn_state option" where
  "resolved_state s =
     (case s of None \<Rightarrow> Some Committed | Some PrepareCommit \<Rightarrow> Some Committed | Some PrepareAbort \<Rightarrow> Some Aborted
      | _ \<Rightarrow> None)"

definition resolve_detail :: "txn_state \<Rightarrow> txn_detail \<Rightarrow> txn_detail" where
  "resolve_detail s d =
     (let d' = d\<lparr>state := Some s\<rparr>
      in (if s \<noteq> Aborted then d'\<lparr>produces := []\<rparr> else d')\<lparr>offsets := [], started_at := None\<rparr>)"

definition resolve_txn :: "txn_id \<Rightarrow> meta \<times> offset_map \<Rightarrow> meta \<times> offset_map" where
  "resolve_txn ti mo = (case mo of (m, acc) \<Rightarrow>
     (case bt_get (transactions m) (ti_transaction ti) of
        None \<Rightarrow> (m, acc)
      | Some t \<Rightarrow>
          (case bt_get (epochs t) (ti_producer_epoch ti) of
             None \<Rightarrow> (m, acc)
           | Some d \<Rightarrow>
               (case resolved_state (state d) of
                  None \<Rightarrow> (m, acc)
                | Some s \<Rightarrow>
                    (put_detail (ti_transaction ti) t (ti_producer_epoch ti) (resolve_detail s d) m,
                     if ti_state ti = PrepareCommit then add_offsets (offsets d) acc else acc)))))"

text \<open>\<open>end_txn\<close>, second closure: resolve, once every overlapping transaction is prepared too.\<close>

definition end_resolve :: "string \<Rightarrow> int \<Rightarrow> int \<Rightarrow> bool \<Rightarrow> (meta, txn_error, offset_map) closure" where
  "end_resolve tid pid epoch commit m =
     (case current_detail m tid pid epoch of
        Inl err \<Rightarrow> (Inl (ApiError err), m)
      | Inr _ \<Rightarrow>
          (case overlapping_transactions m tid pid epoch of
             Inl err \<Rightarrow> (Inl err, m)
           | Inr found \<Rightarrow>
               if \<forall>ti \<in> set found. is_prepared (ti_state ti) then
                 (let self = \<lparr> ti_transaction = tid, ti_producer_id = pid, ti_producer_epoch = epoch,
                        ti_state = if commit then PrepareCommit else PrepareAbort \<rparr>;
                      (m', acc) = fold resolve_txn (found @ [self]) (m, [])
                  in (Inr acc, m'))
               else (Inr [], m)))"

text \<open>\<open>init_producer_id\<close>. \<open>wrapping_add_i16\<close> is the release build's \<open>current_epoch + 1\<close>.\<close>

definition wrapping_add_i16 :: "int \<Rightarrow> int \<Rightarrow> int" where
  "wrapping_add_i16 a b = (a + b + 2 ^ 15) mod 2 ^ 16 - 2 ^ 15"

datatype init_error = InitNone | InitUnknownServerError

record producer_id_response =
  pr_error :: init_error
  pr_id :: int
  pr_epoch :: int

definition init_refused :: producer_id_response where
  "init_refused = \<lparr> pr_error = InitUnknownServerError, pr_id = -1, pr_epoch = -1 \<rparr>"

datatype init_producer =
    Completed producer_id_response
  | NeedToRollback int int

definition next_producer_id :: "meta \<Rightarrow> int" where
  "next_producer_id m = (case next_back (bt_keys (producers m)) of None \<Rightarrow> 1 | Some k \<Rightarrow> k + 1)"

definition init_vacant :: "string \<Rightarrow> int \<Rightarrow> (meta, txn_error, init_producer) closure" where
  "init_vacant tid timeout_ms m =
     (let pid = next_producer_id m in
      (Inr (Completed \<lparr> pr_error = InitNone, pr_id = pid, pr_epoch = 0 \<rparr>),
       \<lparr> producers = bt_insert pid \<lparr> sequences = [(0, [])] \<rparr> (producers m),
         transactions = bt_insert tid \<lparr> producer = pid, epochs = [(0, detail_default timeout_ms)] \<rparr> (transactions m) \<rparr>))"

definition init_occupied :: "string \<Rightarrow> int \<Rightarrow> txn \<Rightarrow> (meta, txn_error, init_producer) closure" where
  "init_occupied tid timeout_ms t m =
     (case next_back (epochs t) of
        None \<Rightarrow> (Inr (Completed init_refused), m)
      | Some (newest, d) \<Rightarrow>
          if state d = Some Begin then (Inr (NeedToRollback (producer t) newest), m)
          else
            (let pid = producer t; epoch = wrapping_add_i16 newest 1 in
             if bt_get (epochs t) epoch \<noteq> None \<or>
                is_some_and (bt_get (producers m) pid) (\<lambda>pd. bt_get (sequences pd) epoch \<noteq> None)
             then (Inl (ApiError Panic), m)
             else
               (Inr (Completed \<lparr> pr_error = InitNone, pr_id = pid, pr_epoch = epoch \<rparr>),
                \<lparr> producers = (case bt_get (producers m) pid of
                     None \<Rightarrow> producers m
                   | Some pd \<Rightarrow> bt_insert pid (pd\<lparr>sequences := bt_insert epoch [] (sequences pd)\<rparr>) (producers m)),
                  transactions = bt_insert tid (t\<lparr>epochs := bt_insert epoch (detail_default timeout_ms) (epochs t)\<rparr>)
                    (transactions m) \<rparr>)))"

definition init_transactional ::
    "string \<Rightarrow> int \<Rightarrow> int option \<Rightarrow> int option \<Rightarrow> (meta, txn_error, init_producer) closure" where
  "init_transactional tid timeout_ms pid epoch m =
     (if pid = Some (-1) \<and> epoch = Some (-1) then
        (case bt_get (transactions m) tid of
           None \<Rightarrow> init_vacant tid timeout_ms m
         | Some t \<Rightarrow> init_occupied tid timeout_ms t m)
      else (Inr (Completed init_refused), m))"

definition init_idempotent :: "int option \<Rightarrow> int option \<Rightarrow> (meta, txn_error, producer_id_response) closure" where
  "init_idempotent pid epoch m =
     (if pid = Some (-1) \<and> epoch = Some (-1) then
        (let id = next_producer_id m in
         (Inr \<lparr> pr_error = InitNone, pr_id = id, pr_epoch = 0 \<rparr>,
          m\<lparr>producers := bt_insert id \<lparr> sequences = [(0, [])] \<rparr> (producers m)\<rparr>))
      else (Inr init_refused, m))"

text \<open>\<open>add_txn_partitions\<close>, versions 0 to 3: one result per partition named, and the transaction begins.\<close>

type_synonym topics_request = "(string \<times> int list option) list"
type_synonym topics_response = "(string \<times> (int \<times> txn_error option) list) list"

definition answer_all :: "txn_error option \<Rightarrow> topics_request \<Rightarrow> topics_response" where
  "answer_all code = map (\<lambda>(topic, ps). (topic, map (\<lambda>p. (p, code)) (unwrap_or [] ps)))"

definition add_partition :: "string \<Rightarrow> int \<Rightarrow> produce_map \<Rightarrow> produce_map" where
  "add_partition topic p = bt_update topic [] (bt_update p None id)"

definition add_topics :: "topics_request \<Rightarrow> produce_map \<Rightarrow> produce_map" where
  "add_topics = fold (\<lambda>(topic, ps). fold (add_partition topic) (unwrap_or [] ps))"

definition add_txn_partitions ::
    "int \<Rightarrow> string \<Rightarrow> int \<Rightarrow> int \<Rightarrow> topics_request \<Rightarrow> (meta, txn_error, topics_response) closure" where
  "add_txn_partitions now tid pid epoch topics =
     with_current (\<lambda>err. Inr (answer_all (Some err) topics)) tid pid epoch
       (\<lambda>d. (Inr (answer_all None topics),
             d\<lparr>produces := add_topics topics (produces d), started_at := Some now, state := Some Begin\<rparr>))"

text \<open>\<open>txn_offset_commit\<close>: the offsets wait on the transaction until it commits.\<close>

type_synonym offsets_request = "(string \<times> (int \<times> txn_commit_offset) list option) list"

definition answer_offsets :: "txn_error option \<Rightarrow> offsets_request \<Rightarrow> topics_response" where
  "answer_offsets code = map (\<lambda>(topic, ps). (topic, map (\<lambda>(p, _). (p, code)) (unwrap_or [] ps)))"

definition stage_offsets :: "string \<Rightarrow> offsets_request \<Rightarrow> offset_map \<Rightarrow> offset_map" where
  "stage_offsets grp = fold (\<lambda>(topic, ps). fold (add_offset grp topic) (unwrap_or [] ps))"

definition txn_offset_commit ::
    "string \<Rightarrow> string \<Rightarrow> int \<Rightarrow> int \<Rightarrow> offsets_request \<Rightarrow> (meta, txn_error, topics_response) closure" where
  "txn_offset_commit tid grp pid epoch topics =
     with_current (\<lambda>err. Inr (answer_offsets (Some err) topics)) tid pid epoch
       (\<lambda>d. (Inr (answer_offsets None topics), d\<lparr>offsets := stage_offsets grp topics (offsets d)\<rparr>))"

text \<open>
  The registration of a produced range (\<open>produce\<close>): on the epoch the batch carries, whatever its state;
  an unknown transaction or epoch is passed over.
\<close>

definition widen :: "int \<Rightarrow> int \<Rightarrow> txn_produce_offset option \<Rightarrow> txn_produce_offset option" where
  "widen offset lst entry =
     (let r = unwrap_or \<lparr> offset_start = offset, offset_end = lst \<rparr> entry
      in Some \<lparr> offset_start = min (offset_start r) offset,
                offset_end = (if lst > offset_end r then lst else offset_end r) \<rparr>)"

definition register_range :: "tp \<Rightarrow> int \<Rightarrow> int \<Rightarrow> txn_detail \<Rightarrow> txn_detail" where
  "register_range tp offset last_offset_delta d =
     d\<lparr>produces := bt_update (fst tp) [] (bt_update (snd tp) None (widen offset (offset + last_offset_delta))) (produces d)\<rparr>"

definition register_produced :: "string \<Rightarrow> int \<Rightarrow> tp \<Rightarrow> int \<Rightarrow> int \<Rightarrow> (meta, txn_error, unit) closure" where
  "register_produced tid epoch tp offset last_offset_delta m =
     (Inr (),
      case bt_get (transactions m) tid of
        None \<Rightarrow> m
      | Some t \<Rightarrow>
          (case bt_get (epochs t) epoch of
             None \<Rightarrow> m
           | Some d \<Rightarrow> put_detail tid t epoch (register_range tp offset last_offset_delta d) m))"

section \<open>The operations\<close>

text \<open>
  \<open>end_txn\<close> with nothing in between: prepare, a marker into every partition with a range, resolve, and
  the offsets of each group handed to \<open>offset_commit\<close>. \<open>marker\<close> is the offset the log gives the marker of
  a partition, or the error of its produce; the marker registers like any batch of the transaction.
  \<open>commit_group\<close> is the answer of \<open>offset_commit\<close>. The value of a success is what was handed over.
\<close>

fun mark_all ::
    "string \<Rightarrow> int \<Rightarrow> (tp \<Rightarrow> txn_error os_error + int) \<Rightarrow> tp list \<Rightarrow> meta \<Rightarrow> (txn_error os_error + unit) \<times> meta" where
  "mark_all tid epoch marker [] m = (Inr (), m)"
| "mark_all tid epoch marker (tp # tps) m =
     (case marker tp of
        Inl err \<Rightarrow> (Inl err, m)
      | Inr offset \<Rightarrow> mark_all tid epoch marker tps (snd (register_produced tid epoch tp offset 0 m)))"

type_synonym group_commit = "string \<Rightarrow> (tp \<times> txn_commit_offset) list \<Rightarrow> txn_error os_error + unit"

definition group_offsets :: "(string, (int, txn_commit_offset) btree) btree \<Rightarrow> (tp \<times> txn_commit_offset) list" where
  "group_offsets topics = concat (map (\<lambda>(topic, ps). map (\<lambda>(p, c). ((topic, p), c)) ps) topics)"

fun commit_groups :: "group_commit \<Rightarrow> offset_map \<Rightarrow> txn_error os_error + unit" where
  "commit_groups commit_group [] = Inr ()"
| "commit_groups commit_group ((grp, topics) # rest) =
     rbind (commit_group grp (group_offsets topics)) (\<lambda>_. commit_groups commit_group rest)"

definition end_txn ::
    "(tp \<Rightarrow> txn_error os_error + int) \<Rightarrow> group_commit \<Rightarrow> string \<Rightarrow> int \<Rightarrow> int \<Rightarrow> bool \<Rightarrow> (meta, txn_error, offset_map) closure" where
  "end_txn marker commit_group tid pid epoch commit m =
     (case end_prepare tid pid epoch commit m of
        (Inl err, m') \<Rightarrow> (Inl err, m')
      | (Inr tps, m') \<Rightarrow>
          (case mark_all tid epoch marker tps m' of
             (Inl err, m'') \<Rightarrow> (Inl err, m'')
           | (Inr _, m'') \<Rightarrow>
               (case end_resolve tid pid epoch commit m'' of
                  (Inl err, m''') \<Rightarrow> (Inl err, m''')
                | (Inr out, m''') \<Rightarrow>
                    (case commit_groups commit_group out of
                       Inl err \<Rightarrow> (Inl err, m''')
                     | Inr _ \<Rightarrow> (Inr out, m''')))))"

text \<open>
  \<open>seed_producer\<close> puts the epoch into the document of the producer; \<open>seeded\<close> is the answer of that
  \<open>with_mut\<close>, whose closure is \<open>seed_edit\<close>.
\<close>

definition seed_edit :: "int \<Rightarrow> (producer_detail, txn_error, unit) closure" where
  "seed_edit epoch pd = (Inr (), pd\<lparr>sequences := bt_update epoch [] id (sequences pd)\<rparr>)"

definition seed_producer ::
    "(producer_id_response \<Rightarrow> txn_error os_error + unit) \<Rightarrow> producer_id_response \<Rightarrow> txn_error os_error + unit" where
  "seed_producer seeded response =
     (if pr_error response \<noteq> InitNone \<or> pr_id response < 0 then Inr () else seeded response)"

text \<open>
  \<open>init_producer_id\<close>: a transaction left open is rolled back and the request starts over. \<open>calls\<close>
  bounds the depth of the recursion; \<open>None\<close> is not having returned by then.
\<close>

fun init_producer_id ::
    "nat \<Rightarrow> (tp \<Rightarrow> txn_error os_error + int) \<Rightarrow> group_commit \<Rightarrow> (producer_id_response \<Rightarrow> txn_error os_error + unit)
      \<Rightarrow> string option \<Rightarrow> int \<Rightarrow> int option \<Rightarrow> int option \<Rightarrow> meta
      \<Rightarrow> ((txn_error os_error + producer_id_response) \<times> meta) option" where
  "init_producer_id 0 marker commit_group seeded transaction timeout_ms pid epoch m = None"
| "init_producer_id (Suc calls) marker commit_group seeded None timeout_ms pid epoch m =
     (case init_idempotent pid epoch m of
        (Inl err, m') \<Rightarrow> Some (Inl err, m')
      | (Inr response, m') \<Rightarrow> Some (rbind (seed_producer seeded response) (\<lambda>_. Inr response), m'))"
| "init_producer_id (Suc calls) marker commit_group seeded (Some tid) timeout_ms pid epoch m =
     (case init_transactional tid timeout_ms pid epoch m of
        (Inl err, m') \<Rightarrow> Some (Inl err, m')
      | (Inr (Completed response), m') \<Rightarrow> Some (rbind (seed_producer seeded response) (\<lambda>_. Inr response), m')
      | (Inr (NeedToRollback open_id open_epoch), m') \<Rightarrow>
          (case end_txn marker commit_group tid open_id open_epoch False m' of
             (Inl err, m'') \<Rightarrow> Some (Inl err, m'')
           | (Inr _, m'') \<Rightarrow> init_producer_id calls marker commit_group seeded (Some tid) timeout_ms pid epoch m''))"

section \<open>Well-formed documents\<close>

definition wf_produces :: "produce_map \<Rightarrow> bool" where
  "wf_produces ps \<longleftrightarrow> bt_inv ps \<and> (\<forall>topic q. bt_get ps topic = Some q \<longrightarrow> bt_inv q)"

definition wf_offsets :: "offset_map \<Rightarrow> bool" where
  "wf_offsets os \<longleftrightarrow> bt_inv os \<and> (\<forall>grp topics. bt_get os grp = Some topics \<longrightarrow>
     bt_inv topics \<and> (\<forall>topic ps. bt_get topics topic = Some ps \<longrightarrow> bt_inv ps))"

definition wf_detail :: "txn_detail \<Rightarrow> bool" where
  "wf_detail d \<longleftrightarrow> wf_produces (produces d) \<and> wf_offsets (offsets d)"

definition wf_txn :: "txn \<Rightarrow> bool" where
  "wf_txn t \<longleftrightarrow> bt_inv (epochs t) \<and> epochs t \<noteq> [] \<and> (\<forall>e d. bt_get (epochs t) e = Some d \<longrightarrow> wf_detail d)"

definition wf_sequences :: "meta \<Rightarrow> bool" where
  "wf_sequences m \<longleftrightarrow> (\<forall>tid t pd e. bt_get (transactions m) tid = Some t \<and> bt_get (producers m) (producer t) = Some pd \<and>
     bt_get (sequences pd) e \<noteq> None \<longrightarrow> bt_get (epochs t) e \<noteq> None)"

text \<open>
  Every map is in order, every transaction has an epoch and a registered producer, no two transactions
  share a producer, producer ids start at one, and a producer holds sequences of epochs of its
  transaction only.
\<close>

definition wf_meta :: "meta \<Rightarrow> bool" where
  "wf_meta m \<longleftrightarrow> bt_inv (producers m) \<and> bt_inv (transactions m) \<and>
     (\<forall>k. bt_get (producers m) k \<noteq> None \<longrightarrow> 1 \<le> k) \<and>
     (\<forall>tid t. bt_get (transactions m) tid = Some t \<longrightarrow> wf_txn t \<and> bt_get (producers m) (producer t) \<noteq> None) \<and>
     (\<forall>tid tid' t t'. bt_get (transactions m) tid = Some t \<and> bt_get (transactions m) tid' = Some t' \<and>
        producer t = producer t' \<longrightarrow> tid = tid') \<and> wf_sequences m"

lemma wf_metaD:
  assumes "wf_meta m" and "bt_get (transactions m) tid = Some t"
  shows "bt_inv (epochs t)" "epochs t \<noteq> []" "bt_get (epochs t) e = Some d \<Longrightarrow> wf_detail d"
  using assms unfolding wf_meta_def wf_txn_def by blast+

lemma bt_insert_nonempty [simp]: "bt_insert k v m \<noteq> []"
  by (cases "(k, v, m)" rule: bt_insert.cases) auto

lemma wf_sequencesD:
  "wf_meta m \<Longrightarrow> bt_get (transactions m) tid = Some t \<Longrightarrow> bt_get (producers m) (producer t) = Some pd \<Longrightarrow>
    bt_get (sequences pd) e \<noteq> None \<Longrightarrow> bt_get (epochs t) e \<noteq> None"
  unfolding wf_meta_def wf_sequences_def by blast

lemma wf_put_detail:
  assumes "wf_meta m" and "bt_get (transactions m) tid = Some t" and "wf_detail d"
  shows "wf_meta (put_detail tid t e d m)"
proof -
  have "wf_txn (t\<lparr>epochs := bt_insert e d (epochs t)\<rparr>)"
    using assms wf_metaD [OF assms(1,2)] by (auto simp: wf_txn_def bt_inv_insert bt_get_insert)
  moreover have "wf_sequences (put_detail tid t e d m)"
    unfolding wf_sequences_def
  proof (intro allI impI; elim conjE)
    fix tid' t' pd e'
    assume h: "bt_get (transactions (put_detail tid t e d m)) tid' = Some t'"
      "bt_get (producers (put_detail tid t e d m)) (producer t') = Some pd" "bt_get (sequences pd) e' \<noteq> None"
    show "bt_get (epochs t') e' \<noteq> None"
    proof (cases "tid' = tid")
      case True
      then have t': "t' = t\<lparr>epochs := bt_insert e d (epochs t)\<rparr>" using h(1) by (simp add: put_detail_def bt_get_insert)
      then have "bt_get (epochs t) e' \<noteq> None"
        using wf_sequencesD [OF assms(1,2)] h(2,3) by (simp add: put_detail_def)
      then show ?thesis by (simp add: t' bt_get_insert)
    next
      case False
      then show ?thesis using wf_sequencesD [OF assms(1)] h by (simp add: put_detail_def bt_get_insert)
    qed
  qed
  ultimately show ?thesis using assms(1,2) unfolding wf_meta_def put_detail_def
    by (simp add: bt_inv_insert bt_get_insert) metis
qed

lemma next_back_get:
  assumes "bt_inv m" and "next_back m = Some (k, v)"
  shows "bt_get m k = Some v" and "\<And>j w. bt_get m j = Some w \<Longrightarrow> j \<le> k"
proof -
  have ne: "m \<noteq> []" and l: "last m = (k, v)" using assms(2) by (auto simp: next_back_def split: if_splits)
  then show "bt_get m k = Some v" using last_in_set [OF ne] assms(1) by (simp add: bt_get_in)
  show "j \<le> k" if "bt_get m j = Some w" for j w
    using bt.last_key_greatest [OF assms(1), of j] that l ne by (simp add: bt_keys_def last_map)
qed

lemma current_detailD:
  assumes "wf_meta m" and "current_detail m tid pid epoch = Inr (t, d)"
  shows "bt_get (transactions m) tid = Some t" "producer t = pid" "bt_get (epochs t) epoch = Some d"
    "\<And>e d'. bt_get (epochs t) e = Some d' \<Longrightarrow> e \<le> epoch"
proof -
  have t: "bt_get (transactions m) tid = Some t" "producer t = pid" and n: "next_back (epochs t) = Some (epoch, d)"
    using assms(2) by (auto simp: current_detail_def split: option.splits if_splits)
  then show "bt_get (transactions m) tid = Some t" "producer t = pid" by simp_all
  show "bt_get (epochs t) epoch = Some d" "\<And>e d'. bt_get (epochs t) e = Some d' \<Longrightarrow> e \<le> epoch"
    using next_back_get [OF wf_metaD(1) [OF assms(1) t(1)] n] by blast+
qed

lemma wf_with_current:
  assumes "wf_meta m" and "\<And>d. wf_detail d \<Longrightarrow> wf_detail (snd (edit d))"
  shows "wf_meta (snd (with_current refuse tid pid epoch edit m))"
proof (cases "current_detail m tid pid epoch")
  case (Inr td)
  then obtain t d where td: "current_detail m tid pid epoch = Inr (t, d)" by (cases td) auto
  note cd = current_detailD [OF assms(1) td]
  have "wf_detail (snd (edit d))" using assms(2) wf_metaD(3) [OF assms(1) cd(1,3)] by blast
  then show ?thesis using wf_put_detail [OF assms(1) cd(1)] td by (simp add: with_current_def)
qed (use assms in \<open>simp add: with_current_def\<close>)

lemma wf_add_topics: "wf_produces ps \<Longrightarrow> wf_produces (add_topics topics ps)"
proof -
  have one: "wf_produces (add_partition topic p q)" if "wf_produces q" for topic p q
    using that by (auto simp: wf_produces_def add_partition_def bt_inv_update unwrap_or_def split: option.splits)
  have many: "wf_produces (fold (add_partition topic) l q)" if "wf_produces q" for topic l q
    using that by (induction l arbitrary: q) (auto intro: one)
  show "wf_produces ps \<Longrightarrow> wf_produces (add_topics topics ps)"
    unfolding add_topics_def by (induction topics arbitrary: ps) (auto intro: many)
qed

lemma wf_register_range: "wf_detail d \<Longrightarrow> wf_detail (register_range tp offset delta d)"
  by (auto simp: wf_detail_def wf_produces_def register_range_def bt_inv_update unwrap_or_def split: option.splits)

lemma wf_produces_Nil [simp]: "wf_produces []" and wf_offsets_Nil [simp]: "wf_offsets []"
  by (simp_all add: wf_produces_def wf_offsets_def bt_get_def)

lemma wf_resolve_detail: "wf_detail d \<Longrightarrow> wf_detail (resolve_detail s d)"
  by (simp add: resolve_detail_def wf_detail_def Let_def)

lemma wf_stage_offsets: "wf_offsets os \<Longrightarrow> wf_offsets (stage_offsets grp topics os)"
proof -
  have one: "wf_offsets (add_offset grp topic pc os)" if "wf_offsets os" for topic pc os
    using that
    by (cases pc) (auto simp: wf_offsets_def add_offset_def bt_inv_update bt_inv_insert unwrap_or_def split: option.splits if_splits)
  have many: "wf_offsets (fold (add_offset grp topic) l os)" if "wf_offsets os" for topic l os
    using that by (induction l arbitrary: os) (auto intro: one)
  show "wf_offsets os \<Longrightarrow> wf_offsets (stage_offsets grp topics os)"
    unfolding stage_offsets_def by (induction topics arbitrary: os) (auto intro: many)
qed

lemma wf_detail_default [simp]: "wf_detail (detail_default timeout_ms)"
  by (simp add: wf_detail_def detail_default_def)

lemma wf_resolve_txn: "wf_meta m \<Longrightarrow> wf_meta (fst (resolve_txn ti (m, acc)))"
  by (auto simp: resolve_txn_def wf_resolve_detail wf_metaD(3) split: option.splits intro!: wf_put_detail)

lemma wf_resolve_all: "wf_meta m \<Longrightarrow> wf_meta (fst (fold resolve_txn tis (m, acc)))"
proof (induction tis arbitrary: m acc)
  case (Cons ti tis)
  obtain m' acc' where "resolve_txn ti (m, acc) = (m', acc')" by fastforce
  then show ?case using Cons.IH [of m' acc'] wf_resolve_txn [OF Cons.prems, of ti acc] by simp
qed simp

text \<open>The edits of the document, one constructor per closure of the source.\<close>

datatype meta_edit =
    EndPrepare string int int bool
  | EndResolve string int int bool
  | InitTransactional string int "int option" "int option"
  | InitIdempotent "int option" "int option"
  | AddPartitions int string int int topics_request
  | OffsetCommit string string int int offsets_request
  | RegisterProduced string int tp int int

fun run_edit :: "meta_edit \<Rightarrow> meta \<Rightarrow> meta" where
  "run_edit (EndPrepare tid pid epoch commit) m = snd (end_prepare tid pid epoch commit m)"
| "run_edit (EndResolve tid pid epoch commit) m = snd (end_resolve tid pid epoch commit m)"
| "run_edit (InitTransactional tid timeout_ms pid epoch) m = snd (init_transactional tid timeout_ms pid epoch m)"
| "run_edit (InitIdempotent pid epoch) m = snd (init_idempotent pid epoch m)"
| "run_edit (AddPartitions now tid pid epoch topics) m = snd (add_txn_partitions now tid pid epoch topics m)"
| "run_edit (OffsetCommit tid grp pid epoch topics) m = snd (txn_offset_commit tid grp pid epoch topics m)"
| "run_edit (RegisterProduced tid epoch tp offset delta) m = snd (register_produced tid epoch tp offset delta m)"

lemma next_producer_id_fresh:
  assumes "wf_meta m"
  shows "bt_get (producers m) (next_producer_id m) = None" and "1 \<le> next_producer_id m"
proof -
  have inv: "bt_inv (producers m)" and pos: "\<And>k. bt_get (producers m) k \<noteq> None \<Longrightarrow> 1 \<le> k"
    using assms by (auto simp: wf_meta_def)
  have "bt_get (producers m) (next_producer_id m) = None \<and> 1 \<le> next_producer_id m"
  proof (cases "producers m = []")
    case True
    then show ?thesis by (simp add: next_producer_id_def next_back_def bt_keys_def bt_get_def)
  next
    case False
    then have nid: "next_producer_id m = last (bt_keys (producers m)) + 1"
      by (simp add: next_producer_id_def next_back_def bt_keys_def)
    have "bt_get (producers m) k \<noteq> None \<Longrightarrow> k \<le> last (bt_keys (producers m))" for k
      using bt.last_key_greatest [OF inv, of k] by simp
    moreover have "bt_get (producers m) (last (bt_keys (producers m))) \<noteq> None"
      using bt.last_key_held [of "producers m"] False by (simp add: bt_keys_def)
    ultimately show ?thesis using nid pos by (metis add.commute add_increasing less_add_one linorder_not_le zero_less_one_class.zero_le_one)
  qed
  then show "bt_get (producers m) (next_producer_id m) = None" and "1 \<le> next_producer_id m" by blast+
qed

lemma wf_init_vacant:
  assumes "wf_meta m" and "bt_get (transactions m) tid = None"
  shows "wf_meta (snd (init_vacant tid timeout_ms m))"
proof -
  have other: "producer t \<noteq> next_producer_id m" if "bt_get (transactions m) tid' = Some t" for tid' t
    using assms(1) next_producer_id_fresh(1) [OF assms(1)] that unfolding wf_meta_def by metis
  have "wf_sequences (snd (init_vacant tid timeout_ms m))"
    unfolding wf_sequences_def
  proof (intro allI impI; elim conjE)
    fix tid' t pd e
    assume h: "bt_get (transactions (snd (init_vacant tid timeout_ms m))) tid' = Some t"
      "bt_get (producers (snd (init_vacant tid timeout_ms m))) (producer t) = Some pd" "bt_get (sequences pd) e \<noteq> None"
    show "bt_get (epochs t) e \<noteq> None"
    proof (cases "tid' = tid")
      case True
      then show ?thesis using h by (auto simp: init_vacant_def Let_def bt_get_insert split: if_splits)
    next
      case False
      then have t: "bt_get (transactions m) tid' = Some t" using h(1) by (simp add: init_vacant_def Let_def bt_get_insert)
      then have "bt_get (producers m) (producer t) = Some pd"
        using h(2) other [OF t] by (simp add: init_vacant_def Let_def bt_get_insert)
      then show ?thesis by (rule wf_sequencesD [OF assms(1) t]) (rule h(3))
    qed
  qed
  then show ?thesis using assms next_producer_id_fresh [OF assms(1)]
    by (auto simp: wf_meta_def init_vacant_def Let_def bt_inv_insert bt_get_insert wf_txn_def
        split: if_splits dest: other)
qed

lemma wf_put_producer:
  assumes "wf_meta m" and "bt_get (producers m) pid = Some pd"
    and "\<And>e tid t. bt_get (sequences pd') e \<noteq> None \<Longrightarrow> bt_get (transactions m) tid = Some t \<Longrightarrow> producer t = pid \<Longrightarrow>
      bt_get (epochs t) e \<noteq> None"
  shows "wf_meta (m\<lparr>producers := bt_insert pid pd' (producers m)\<rparr>)"
proof -
  have "wf_sequences (m\<lparr>producers := bt_insert pid pd' (producers m)\<rparr>)"
    unfolding wf_sequences_def
  proof (intro allI impI; elim conjE)
    fix tid t pd'' e
    assume "bt_get (transactions (m\<lparr>producers := bt_insert pid pd' (producers m)\<rparr>)) tid = Some t"
      "bt_get (producers (m\<lparr>producers := bt_insert pid pd' (producers m)\<rparr>)) (producer t) = Some pd''"
      and e: "bt_get (sequences pd'') e \<noteq> None"
    then have t: "bt_get (transactions m) tid = Some t"
      and pd: "(if producer t = pid then Some pd' else bt_get (producers m) (producer t)) = Some pd''"
      by (simp_all add: bt_get_insert)
    show "bt_get (epochs t) e \<noteq> None"
    proof (cases "producer t = pid")
      case True
      then show ?thesis using assms(3) [OF _ t True] pd e by simp
    next
      case False
      then have "bt_get (producers m) (producer t) = Some pd''" using pd by simp
      then show ?thesis by (rule wf_sequencesD [OF assms(1) t]) (rule e)
    qed
  qed
  then show ?thesis using assms(1,2) by (auto simp: wf_meta_def bt_inv_insert bt_get_insert)
qed

lemma init_occupied_meta:
  assumes "bt_get (producers m) (producer t) = Some pd"
  shows "snd (init_occupied tid timeout_ms t m) = m \<or>
    (\<exists>epoch. epoch = wrapping_add_i16 (fst (last (epochs t))) 1 \<and> bt_get (epochs t) epoch = None \<and>
      snd (init_occupied tid timeout_ms t m) =
        (put_detail tid t epoch (detail_default timeout_ms) m)
          \<lparr>producers := bt_insert (producer t) (pd\<lparr>sequences := bt_insert epoch [] (sequences pd)\<rparr>) (producers m)\<rparr>)"
  using assms
  by (cases m; cases "last (epochs t)")
    (auto simp: init_occupied_def put_detail_def next_back_def Let_def split: option.splits)

lemma wf_init_occupied:
  assumes "wf_meta m" and "bt_get (transactions m) tid = Some t"
  shows "wf_meta (snd (init_occupied tid timeout_ms t m))"
proof -
  obtain pd where reg: "bt_get (producers m) (producer t) = Some pd" using assms unfolding wf_meta_def by blast
  have seqs: "bt_get (sequences pd) e \<noteq> None \<Longrightarrow> bt_get (epochs t) e \<noteq> None" for e
    using wf_sequencesD [OF assms reg] .
  have one: "tid' = tid" if "bt_get (transactions m) tid' = Some t'" "producer t' = producer t" for tid' t'
    using assms that unfolding wf_meta_def by blast
  have "wf_meta ((put_detail tid t e (detail_default timeout_ms) m)
      \<lparr>producers := bt_insert (producer t) (pd\<lparr>sequences := bt_insert e [] (sequences pd)\<rparr>) (producers m)\<rparr>)" (is "wf_meta (?m\<lparr>producers := bt_insert _ ?pd _\<rparr>)") for e
  proof -
    have "wf_meta ?m" by (rule wf_put_detail [OF assms]) simp
    moreover have "bt_get (producers ?m) (producer t) = Some pd" by (simp add: put_detail_def reg)
    moreover have "bt_get (epochs t') e' \<noteq> None"
      if "bt_get (sequences ?pd) e' \<noteq> None" "bt_get (transactions ?m) tid' = Some t'" "producer t' = producer t" for e' tid' t'
      using that one seqs by (auto simp: put_detail_def bt_get_insert split: if_splits)
    ultimately have "wf_meta (?m\<lparr>producers := bt_insert (producer t) ?pd (producers ?m)\<rparr>)" by (rule wf_put_producer)
    then show ?thesis by (simp add: put_detail_def)
  qed
  then show ?thesis using init_occupied_meta [OF reg, of tid timeout_ms] assms(1) by metis
qed

lemma end_resolve_meta:
  "snd (end_resolve tid pid epoch commit m) = m \<or>
   (\<exists>tis. snd (end_resolve tid pid epoch commit m) = fst (fold resolve_txn tis (m, [])))"
proof -
  define self where "self = \<lparr> ti_transaction = tid, ti_producer_id = pid, ti_producer_epoch = epoch,
    ti_state = if commit then PrepareCommit else PrepareAbort \<rparr>"
  show ?thesis
    unfolding end_resolve_def self_def [symmetric] Let_def split_def
    by (cases "current_detail m tid pid epoch"; cases "overlapping_transactions m tid pid epoch")
      (auto simp del: fold_append)
qed

lemma wf_end_resolve: "wf_meta m \<Longrightarrow> wf_meta (snd (end_resolve tid pid epoch commit m))"
  using end_resolve_meta [of tid pid epoch commit m] wf_resolve_all [of m _ "[]"] by metis

lemma wf_init_idempotent:
  assumes "wf_meta m"
  shows "wf_meta (snd (init_idempotent pid epoch m))"
proof (cases "pid = Some (-1) \<and> epoch = Some (-1)")
  case True
  define m' where "m' = m\<lparr>producers := bt_insert (next_producer_id m) \<lparr> sequences = [(0, [])] \<rparr> (producers m)\<rparr>"
  have other: "producer t \<noteq> next_producer_id m" if "bt_get (transactions m) tid = Some t" for tid t
    using assms(1) next_producer_id_fresh(1) [OF assms(1)] that unfolding wf_meta_def by metis
  have "bt_get (producers m') (producer t) = bt_get (producers m) (producer t)" if "bt_get (transactions m) tid = Some t" for tid t
    using other [OF that] by (simp add: m'_def bt_get_insert)
  moreover have "transactions m' = transactions m" by (simp add: m'_def)
  ultimately have "wf_sequences m'" using wf_sequencesD [OF assms] unfolding wf_sequences_def by metis
  moreover have "bt_inv (producers m')" "\<forall>k. bt_get (producers m') k \<noteq> None \<longrightarrow> 1 \<le> k"
    "\<And>k. bt_get (producers m) k \<noteq> None \<Longrightarrow> bt_get (producers m') k \<noteq> None"
    using assms next_producer_id_fresh [OF assms] by (auto simp: m'_def wf_meta_def bt_inv_insert bt_get_insert)
  ultimately have "wf_meta m'" using assms \<open>transactions m' = transactions m\<close> unfolding wf_meta_def by metis
  then show ?thesis using True by (simp add: init_idempotent_def Let_def m'_def)
qed (use assms in \<open>auto simp: init_idempotent_def\<close>)

lemma wf_run_edit:
  assumes "wf_meta m"
  shows "wf_meta (run_edit ed m)"
proof (cases ed)
  case (InitTransactional tid timeout_ms pid epoch)
  then show ?thesis
    using assms wf_init_vacant wf_init_occupied by (auto simp: init_transactional_def split: option.splits)
next
  case (InitIdempotent pid epoch)
  then show ?thesis using assms wf_init_idempotent [OF assms, of pid epoch] by simp
next
  case (RegisterProduced tid epoch tp offset delta)
  then show ?thesis
    using assms by (auto simp: register_produced_def wf_register_range wf_metaD(3) split: option.splits intro!: wf_put_detail)
qed (use assms in \<open>auto simp: wf_end_resolve end_prepare_def add_txn_partitions_def txn_offset_commit_def wf_detail_def wf_add_topics wf_stage_offsets
    intro!: wf_with_current\<close>)

lemma wf_meta_default [simp]: "wf_meta meta_default"
  by (simp add: wf_meta_def wf_sequences_def meta_default_def)

section \<open>Looking a detail up\<close>

definition detail_at :: "meta \<Rightarrow> string \<Rightarrow> int \<Rightarrow> txn_detail option" where
  "detail_at m tid e = Option.bind (bt_get (transactions m) tid) (\<lambda>t. bt_get (epochs t) e)"

definition producer_of :: "meta \<Rightarrow> string \<Rightarrow> int option" where
  "producer_of m tid = map_option producer (bt_get (transactions m) tid)"

definition newest_epoch :: "meta \<Rightarrow> string \<Rightarrow> int \<Rightarrow> bool" where
  "newest_epoch m tid e \<longleftrightarrow> detail_at m tid e \<noteq> None \<and> (\<forall>e'. detail_at m tid e' \<noteq> None \<longrightarrow> e' \<le> e)"

lemma detail_at_put:
  assumes "bt_get (transactions m) tid = Some t"
  shows "detail_at (put_detail tid t e d m) tid' e' = (if tid' = tid \<and> e' = e then Some d else detail_at m tid' e')"
    and "producer_of (put_detail tid t e d m) tid' = producer_of m tid'"
  using assms by (auto simp: detail_at_def producer_of_def put_detail_def bt_get_insert)

lemma current_detail_iff:
  assumes "wf_meta m"
  shows "current_detail m tid pid epoch = Inr (t, d) \<longleftrightarrow>
    bt_get (transactions m) tid = Some t \<and> producer t = pid \<and> newest_epoch m tid epoch \<and> detail_at m tid epoch = Some d"
proof
  assume "current_detail m tid pid epoch = Inr (t, d)"
  from current_detailD [OF assms this]
  show "bt_get (transactions m) tid = Some t \<and> producer t = pid \<and> newest_epoch m tid epoch \<and> detail_at m tid epoch = Some d"
    by (auto simp: newest_epoch_def detail_at_def)
next
  assume r: "bt_get (transactions m) tid = Some t \<and> producer t = pid \<and> newest_epoch m tid epoch \<and> detail_at m tid epoch = Some d"
  then have t: "bt_get (transactions m) tid = Some t" by blast
  note wf = wf_metaD [OF assms t]
  obtain k d' where n: "next_back (epochs t) = Some (k, d')" using wf(2) by (cases "last (epochs t)") (simp add: next_back_def)
  have "k = epoch"
    using next_back_get [OF wf(1) n] r by (force simp: newest_epoch_def detail_at_def)
  then show "current_detail m tid pid epoch = Inr (t, d)"
    using r n next_back_get(1) [OF wf(1) n] by (auto simp: current_detail_def detail_at_def)
qed

lemma current_detail_stale:
  assumes "wf_meta m" and "bt_get (transactions m) tid = Some t" and "bt_get (epochs t) e \<noteq> None" and "epoch < e"
  shows "current_detail m tid pid epoch = Inl (if producer t = pid then ProducerFenced else UnknownProducerId)"
proof -
  note wf = wf_metaD [OF assms(1,2)]
  obtain k d where n: "next_back (epochs t) = Some (k, d)" using wf(2) by (cases "last (epochs t)") (simp add: next_back_def)
  have "e \<le> k" using next_back_get(2) [OF wf(1) n] assms(3) by blast
  then show ?thesis using assms(2,4) n by (simp add: current_detail_def)
qed

section \<open>Epochs are never taken back\<close>

definition keeps_epochs :: "meta \<Rightarrow> meta \<Rightarrow> bool" where
  "keeps_epochs m m' \<longleftrightarrow> (\<forall>tid p. producer_of m tid = Some p \<longrightarrow> producer_of m' tid = Some p) \<and>
     (\<forall>tid e. detail_at m tid e \<noteq> None \<longrightarrow> detail_at m' tid e \<noteq> None)"

lemma keeps_epochs_refl [simp]: "keeps_epochs m m"
  by (simp add: keeps_epochs_def)

lemma keeps_epochs_trans: "keeps_epochs a b \<Longrightarrow> keeps_epochs b c \<Longrightarrow> keeps_epochs a c"
  by (simp add: keeps_epochs_def)

lemma keeps_epochs_put: "bt_get (transactions m) tid = Some t \<Longrightarrow> keeps_epochs m (put_detail tid t e d m)"
  using detail_at_put [of m tid t e d] unfolding keeps_epochs_def by simp

lemma keeps_epochs_producers [simp]: "keeps_epochs m (m\<lparr>producers := ps\<rparr>)"
  by (simp add: keeps_epochs_def detail_at_def producer_of_def)

lemma keeps_epochs_with_current: "keeps_epochs m (snd (with_current refuse tid pid epoch edit m))"
  by (auto simp: with_current_def current_detail_def keeps_epochs_put split: sum.splits option.splits if_splits)

lemma keeps_epochs_resolve: "keeps_epochs m (fst (resolve_txn ti (m, acc)))"
  by (auto simp: resolve_txn_def keeps_epochs_put split: option.splits)

lemma keeps_epochs_resolve_all: "keeps_epochs m (fst (fold resolve_txn tis (m, acc)))"
proof (induction tis arbitrary: m acc)
  case (Cons ti tis)
  obtain m' acc' where "resolve_txn ti (m, acc) = (m', acc')" by fastforce
  then show ?case using Cons.IH [of m' acc'] keeps_epochs_resolve [of m ti acc] by (auto intro: keeps_epochs_trans)
qed simp

lemma keeps_epochs_init_vacant:
  "bt_get (transactions m) tid = None \<Longrightarrow> keeps_epochs m (snd (init_vacant tid timeout_ms m))"
  by (auto simp: keeps_epochs_def init_vacant_def Let_def detail_at_def producer_of_def bt_get_insert)

lemma keeps_epochs_init_occupied:
  assumes "wf_meta m" and "bt_get (transactions m) tid = Some t"
  shows "keeps_epochs m (snd (init_occupied tid timeout_ms t m))"
proof -
  obtain pd where reg: "bt_get (producers m) (producer t) = Some pd" using assms unfolding wf_meta_def by blast
  have "keeps_epochs m ((put_detail tid t e d m)\<lparr>producers := ps\<rparr>)" for e d ps
    by (rule keeps_epochs_trans [OF keeps_epochs_put [OF assms(2)] keeps_epochs_producers])
  then show ?thesis using init_occupied_meta [OF reg, of tid timeout_ms] by (metis keeps_epochs_refl)
qed

lemma keeps_epochs_run_edit:
  assumes "wf_meta m"
  shows "keeps_epochs m (run_edit ed m)"
proof (cases ed)
  case (InitTransactional tid timeout_ms pid epoch)
  then show ?thesis
    using assms keeps_epochs_init_vacant keeps_epochs_init_occupied by (auto simp: init_transactional_def split: option.splits)
next
  case (RegisterProduced tid epoch tp offset delta)
  then show ?thesis by (auto simp: register_produced_def keeps_epochs_put split: option.splits)
next
  case (EndResolve tid pid epoch commit)
  then show ?thesis
    using end_resolve_meta [of tid pid epoch commit m] keeps_epochs_resolve_all [of m _ "[]"]
    by (metis keeps_epochs_refl run_edit.simps(2))
qed (simp_all add: end_prepare_def add_txn_partitions_def txn_offset_commit_def keeps_epochs_with_current init_idempotent_def Let_def)

lemma run_edits:
  assumes "wf_meta m"
  shows "wf_meta (fold run_edit eds m)" and "keeps_epochs m (fold run_edit eds m)"
proof -
  have "wf_meta (fold run_edit eds m) \<and> keeps_epochs m (fold run_edit eds m)"
    using assms
  proof (induction eds arbitrary: m)
    case (Cons ed eds)
    from Cons.IH [OF wf_run_edit [OF Cons.prems]] keeps_epochs_run_edit [OF Cons.prems]
    show ?case by (auto intro: keeps_epochs_trans)
  qed simp
  then show "wf_meta (fold run_edit eds m)" and "keeps_epochs m (fold run_edit eds m)" by blast+
qed

lemma init_completed:
  assumes "wf_meta m" and "init_transactional tid timeout_ms pid epoch m = (Inr (Completed r), m')"
    and "pr_error r = InitNone"
  shows "wf_meta m' \<and> producer_of m' tid = Some (pr_id r) \<and> detail_at m' tid (pr_epoch r) \<noteq> None"
proof -
  have "wf_meta m'" using wf_run_edit [OF assms(1), of "InitTransactional tid timeout_ms pid epoch"] assms(2) by simp
  moreover have "producer_of m' tid = Some (pr_id r) \<and> detail_at m' tid (pr_epoch r) \<noteq> None"
    using assms(2,3)
    by (auto simp: init_transactional_def init_vacant_def init_occupied_def init_refused_def Let_def producer_of_def
        detail_at_def bt_get_insert split: option.splits if_splits)
  ultimately show ?thesis by blast
qed

section \<open>Ranges and floors\<close>

lemma set_map_filter: "set (List.map_filter f xs) = {y. \<exists>x \<in> set xs. f x = Some y}"
  by (induction xs) (auto simp: List.map_filter_simps split: option.splits)

lemma partition_ranges_iff:
  "((topic, p), r) \<in> set (partition_ranges (topic', ps)) \<longleftrightarrow> topic' = topic \<and> (p, Some r) \<in> set ps"
proof -
  have "((topic, p), r) \<in> set (partition_ranges (topic', ps)) \<longleftrightarrow>
      (\<exists>x \<in> set ps. map_option (\<lambda>r. ((topic', fst x), r)) (snd x) = Some ((topic, p), r))"
    by (simp add: partition_ranges_def set_map_filter split_def)
  also have "\<dots> \<longleftrightarrow> topic' = topic \<and> (p, Some r) \<in> set ps" by force
  finally show ?thesis .
qed

lemma detail_ranges_iff:
  assumes "wf_produces (produces d)"
  shows "(tp, r) \<in> set (detail_ranges d) \<longleftrightarrow> produced_range d tp = Some r"
proof -
  obtain topic p where tp: "tp = (topic, p)" by fastforce
  have inv: "bt_inv (produces d)" "\<And>ps. bt_get (produces d) topic = Some ps \<Longrightarrow> bt_inv ps"
    using assms by (auto simp: wf_produces_def)
  have "(tp, r) \<in> set (detail_ranges d) \<longleftrightarrow> (\<exists>x \<in> set (produces d). ((topic, p), r) \<in> set (partition_ranges (fst x, snd x)))"
    by (simp add: tp detail_ranges_def)
  also have "\<dots> \<longleftrightarrow> (\<exists>ps. (topic, ps) \<in> set (produces d) \<and> (p, Some r) \<in> set ps)"
    unfolding partition_ranges_iff by force
  also have "\<dots> \<longleftrightarrow> (\<exists>ps. bt_get (produces d) topic = Some ps \<and> bt_get ps p = Some (Some r))"
  proof (intro iff_exI conj_cong)
    fix ps
    show "(topic, ps) \<in> set (produces d) \<longleftrightarrow> bt_get (produces d) topic = Some ps" using bt_get_in [OF inv(1)] by blast
    assume "bt_get (produces d) topic = Some ps"
    from bt_get_in [OF inv(2) [OF this]] show "(p, Some r) \<in> set ps \<longleftrightarrow> bt_get ps p = Some (Some r)" by blast
  qed
  also have "\<dots> \<longleftrightarrow> produced_range d tp = Some r"
    by (auto simp: tp produced_range_def bind_eq_Some_conv)
  finally show ?thesis .
qed

lemma fold_bt_insert_get:
  assumes "\<And>k v v'. (k, v) \<in> set xs \<Longrightarrow> (k, v') \<in> set xs \<Longrightarrow> v = v'"
  shows "bt_get (fold (\<lambda>(k, v). bt_insert k (f v)) xs m) k =
    (if \<exists>v. (k, v) \<in> set xs then Some (f (THE v. (k, v) \<in> set xs)) else bt_get m k)"
  using assms
proof (induction xs arbitrary: m)
  case (Cons kv xs)
  obtain k' v' where kv: "kv = (k', v')" by fastforce
  have un: "\<And>k v v'. (k, v) \<in> set xs \<Longrightarrow> (k, v') \<in> set xs \<Longrightarrow> v = v'" using Cons.prems by (meson list.set_intros(2))
  have the_all: "(THE v. (k, v) \<in> set (kv # xs)) = v" if "(k, v) \<in> set (kv # xs)" for k v
    using Cons.prems that by blast
  show ?case
  proof (cases "\<exists>v. (k, v) \<in> set xs")
    case True
    then obtain v where v: "(k, v) \<in> set xs" by blast
    have "(THE v. (k, v) \<in> set xs) = v" using un v by blast
    then show ?thesis using Cons.IH [OF un] v the_all [of k v] kv by auto
  next
    case False
    then show ?thesis using Cons.IH [OF un] kv the_all [of k' v'] by (auto simp: bt_get_insert)
  qed
qed simp

lemma fold_bt_insert_inv: "bt_inv m \<Longrightarrow> bt_inv (fold (\<lambda>(k, v). bt_insert k (f v)) xs m)"
  by (induction xs arbitrary: m) (auto simp: bt_inv_insert)

lemma ranges_map_get:
  assumes "wf_produces (produces d)"
  shows "bt_get (fold (\<lambda>(tp, r). bt_insert tp (f r)) (detail_ranges d) []) tp = map_option f (produced_range d tp)"
proof -
  have mem: "(tp, r) \<in> set (detail_ranges d) \<longleftrightarrow> produced_range d tp = Some r" for tp r
    by (rule detail_ranges_iff [OF assms])
  show ?thesis
    by (subst fold_bt_insert_get) (auto simp: mem bt_get_def)
qed

lemma detail_offsets_iff:
  assumes "wf_produces (produces d)"
  shows "(tp, s) \<in> set (detail_offsets d) \<longleftrightarrow> (\<exists>r. produced_range d tp = Some r \<and> s = offset_start r)"
proof -
  have "bt_inv (detail_offsets d)" unfolding detail_offsets_def by (rule fold_bt_insert_inv) simp
  then have "(tp, s) \<in> set (detail_offsets d) \<longleftrightarrow> bt_get (detail_offsets d) tp = Some s" by (simp add: bt_get_in)
  then show ?thesis using ranges_map_get [OF assms, of offset_start tp] by (auto simp: detail_offsets_def)
qed

definition least :: "int set \<Rightarrow> int \<Rightarrow> bool" where
  "least S x \<longleftrightarrow> x \<in> S \<and> (\<forall>y \<in> S. x \<le> y)"

lemma least_min: "least (insert (min a b) A) x \<longleftrightarrow> least (insert a (insert b A)) x"
  by (auto simp: least_def min_def)

lemma lower_floor_get:
  "bt_get (lower_floor (k, s) F) j =
     (if j = k then Some (case bt_get F j of None \<Rightarrow> s | Some e \<Rightarrow> min e s) else bt_get F j)"
  by (auto simp: lower_floor_def bt_get_insert split: option.splits)

lemma fold_lower_floor:
  "bt_get (fold lower_floor xs F) tp = Some x \<longleftrightarrow> least ({s. (tp, s) \<in> set xs} \<union> set_option (bt_get F tp)) x"
proof (induction xs arbitrary: F)
  case Nil
  then show ?case by (cases "bt_get F tp") (auto simp: least_def)
next
  case (Cons a xs)
  obtain tp' s' where a: "a = (tp', s')" by fastforce
  let ?A = "{s. (tp, s) \<in> set xs}"
  have "{s. (tp, s) \<in> set (a # xs)} = (if tp = tp' then insert s' ?A else ?A)" by (auto simp: a)
  moreover have "bt_get (fold lower_floor (a # xs) F) tp = Some x \<longleftrightarrow>
      least (?A \<union> set_option (bt_get (lower_floor (tp', s') F) tp)) x"
    using Cons.IH [of "lower_floor (tp', s') F"] by (simp add: a)
  ultimately show ?case
    using least_min [of _ s' ?A x]
    by (cases "tp = tp'"; cases "bt_get F tp") (auto simp: lower_floor_get insert_commute)
qed

lemma fold_concat_map: "fold f (concat (map g xs)) F = fold (\<lambda>x. fold f (g x)) xs F"
  by (induction xs arbitrary: F) auto

lemma all_details_iff:
  assumes "wf_meta m"
  shows "d \<in> set (all_details m) \<longleftrightarrow> (\<exists>tid e. detail_at m tid e = Some d)"
proof -
  have inv: "bt_inv (transactions m)" using assms by (simp add: wf_meta_def)
  have "d \<in> set (all_details m) \<longleftrightarrow> (\<exists>tid t e. bt_get (transactions m) tid = Some t \<and> (e, d) \<in> set (epochs t))"
    by (force simp: all_details_def bt_get_in [OF inv])
  also have "\<dots> \<longleftrightarrow> (\<exists>tid t e. bt_get (transactions m) tid = Some t \<and> bt_get (epochs t) e = Some d)"
  proof (intro iff_exI conj_cong refl)
    fix tid t e
    assume "bt_get (transactions m) tid = Some t"
    from bt_get_in [OF wf_metaD(1) [OF assms this]] show "(e, d) \<in> set (epochs t) \<longleftrightarrow> bt_get (epochs t) e = Some d"
      by blast
  qed
  finally show ?thesis by (auto simp: detail_at_def bind_eq_Some_conv)
qed

text \<open>The first offsets, on a partition, of the transactions still open.\<close>

definition open_starts :: "meta \<Rightarrow> tp \<Rightarrow> int set" where
  "open_starts m tp = {offset_start r | tid e d r. detail_at m tid e = Some d \<and> is_open d \<and> produced_range d tp = Some r}"

lemma wf_detail_at:
  assumes "wf_meta m" and "detail_at m tid e = Some d"
  shows "wf_produces (produces d)" and "wf_offsets (offsets d)"
  using assms wf_metaD(3) by (fastforce simp: detail_at_def bind_eq_Some_conv wf_detail_def)+

lemma open_transaction_floors_get:
  assumes "wf_meta m"
  shows "bt_get (open_transaction_floors m) tp = Some x \<longleftrightarrow> least (open_starts m tp) x"
proof -
  define L where "L = concat (map detail_offsets (filter is_open (all_details m)))"
  have "open_transaction_floors m = fold lower_floor L []"
    unfolding open_transaction_floors_def L_def by (simp add: fold_concat_map)
  moreover have "{s. (tp, s) \<in> set L} = open_starts m tp"
  proof -
    have mem: "(tp, s) \<in> set L \<longleftrightarrow> (\<exists>tid e d. detail_at m tid e = Some d \<and> is_open d \<and> (tp, s) \<in> set (detail_offsets d))" for s
      using all_details_iff [OF assms] by (auto simp: L_def)
    have off: "(tp, s) \<in> set (detail_offsets d) \<longleftrightarrow> (\<exists>r. produced_range d tp = Some r \<and> s = offset_start r)"
      if "detail_at m tid e = Some d" for tid e d s
      by (rule detail_offsets_iff [OF wf_detail_at(1) [OF assms that]])
    have "(tp, s) \<in> set L \<longleftrightarrow> (\<exists>tid e d. detail_at m tid e = Some d \<and> is_open d \<and>
        (\<exists>r. produced_range d tp = Some r \<and> s = offset_start r))" for s
      unfolding mem by (intro iff_exI conj_cong refl) (rule off)
    then show ?thesis unfolding open_starts_def by (intro set_eqI) auto
  qed
  ultimately show ?thesis using fold_lower_floor [of L "[]" tp x] by simp
qed

lemma open_starts_finite: "wf_meta m \<Longrightarrow> finite (open_starts m tp)"
proof -
  assume wf: "wf_meta m"
  have "open_starts m tp \<subseteq> (\<Union>d \<in> set (all_details m). set_option (map_option offset_start (produced_range d tp)))"
    using all_details_iff [OF wf] by (fastforce simp: open_starts_def)
  moreover have "finite (\<Union>d \<in> set (all_details m). set_option (map_option offset_start (produced_range d tp)))" by simp
  ultimately show "finite (open_starts m tp)" by (rule finite_subset)
qed

lemma last_stable_floor:
  assumes "wf_meta m"
  shows "unwrap_or high (bt_get (open_transaction_floors m) tp) =
    (if open_starts m tp = {} then high else Min (open_starts m tp))"
proof (cases "open_starts m tp = {}")
  case True
  then have "bt_get (open_transaction_floors m) tp = None"
    using open_transaction_floors_get [OF assms, of tp] by (cases "bt_get (open_transaction_floors m) tp") (auto simp: least_def)
  then show ?thesis using True by (simp add: unwrap_or_def)
next
  case False
  then have "least (open_starts m tp) (Min (open_starts m tp))"
    using open_starts_finite [OF assms, of tp] by (simp add: least_def)
  then have "bt_get (open_transaction_floors m) tp = Some (Min (open_starts m tp))"
    using open_transaction_floors_get [OF assms] by blast
  then show ?thesis using False by (simp add: unwrap_or_def)
qed

lemma aborted_raw_iff:
  assumes "wf_meta m"
  shows "(pid, first, lst) \<in> set (aborted_raw m tp) \<longleftrightarrow>
    (\<exists>tid e d r. producer_of m tid = Some pid \<and> detail_at m tid e = Some d \<and> state d = Some Aborted \<and>
       produced_range d tp = Some r \<and> first = offset_start r \<and> lst = offset_end r)"
proof -
  have inv: "bt_inv (transactions m)" using assms by (simp add: wf_meta_def)
  have "(pid, first, lst) \<in> set (aborted_raw m tp) \<longleftrightarrow>
     (\<exists>x \<in> set (transactions m). \<exists>y \<in> set (epochs (snd x)). state (snd y) = Some Aborted \<and>
        map_option (\<lambda>r. (producer (snd x), offset_start r, offset_end r)) (produced_range (snd y) tp) = Some (pid, first, lst))"
    by (simp add: aborted_raw_def set_map_filter split_def if_distrib [where f = "\<lambda>z. z = _"] cong: if_cong conj_cong)
  also have "\<dots> \<longleftrightarrow> (\<exists>tid t e d. (tid, t) \<in> set (transactions m) \<and> (e, d) \<in> set (epochs t) \<and> state d = Some Aborted \<and>
      producer t = pid \<and> (\<exists>r. produced_range d tp = Some r \<and> first = offset_start r \<and> lst = offset_end r))"
    by force
  also have "\<dots> \<longleftrightarrow> (\<exists>tid t e d. bt_get (transactions m) tid = Some t \<and> bt_get (epochs t) e = Some d \<and> state d = Some Aborted \<and>
      producer t = pid \<and> (\<exists>r. produced_range d tp = Some r \<and> first = offset_start r \<and> lst = offset_end r))"
  proof (intro iff_exI conj_cong refl)
    fix tid t e d
    show "(tid, t) \<in> set (transactions m) \<longleftrightarrow> bt_get (transactions m) tid = Some t" using bt_get_in [OF inv] by blast
    assume "bt_get (transactions m) tid = Some t"
    from bt_get_in [OF wf_metaD(1) [OF assms this]] show "(e, d) \<in> set (epochs t) \<longleftrightarrow> bt_get (epochs t) e = Some d" by blast
  qed
  also have "\<dots> \<longleftrightarrow> (\<exists>tid e d r. producer_of m tid = Some pid \<and> detail_at m tid e = Some d \<and> state d = Some Aborted \<and>
       produced_range d tp = Some r \<and> first = offset_start r \<and> lst = offset_end r)"
  proof (intro iff_exI)
    fix tid
    show "(\<exists>t e d. bt_get (transactions m) tid = Some t \<and> bt_get (epochs t) e = Some d \<and> state d = Some Aborted \<and>
        producer t = pid \<and> (\<exists>r. produced_range d tp = Some r \<and> first = offset_start r \<and> lst = offset_end r)) \<longleftrightarrow>
      (\<exists>e d r. producer_of m tid = Some pid \<and> detail_at m tid e = Some d \<and> state d = Some Aborted \<and>
        produced_range d tp = Some r \<and> first = offset_start r \<and> lst = offset_end r)"
      by (cases "bt_get (transactions m) tid") (auto simp: producer_of_def detail_at_def)
  qed
  finally show ?thesis .
qed

section \<open>The end of a transaction\<close>

lemma widen_widen: "widen a b (widen a b x) = widen a b x"
  by (cases x) (auto simp: widen_def Let_def unwrap_or_def)

lemma produced_range_register:
  "produced_range (register_range tp offset delta d) tp' =
     (if tp' = tp then widen offset (offset + delta) (produced_range d tp) else produced_range d tp')"
proof (cases "fst tp' = fst tp")
  case True
  then show ?thesis
    by (cases tp; cases tp'; cases "bt_get (produces d) (fst tp)"; cases "bt_get (the (bt_get (produces d) (fst tp))) (snd tp)")
      (auto simp: produced_range_def register_range_def unwrap_or_def)
next
  case False
  then show ?thesis by (auto simp: produced_range_def register_range_def)
qed

lemma register_range_rest [simp]:
  "state (register_range tp offset delta d) = state d" "offsets (register_range tp offset delta d) = offsets d"
  by (simp_all add: register_range_def)

definition mark_ranges :: "(tp \<Rightarrow> int) \<Rightarrow> tp list \<Rightarrow> txn_detail \<Rightarrow> txn_detail" where
  "mark_ranges pos = fold (\<lambda>tp. register_range tp (pos tp) 0)"

lemma mark_ranges_rest [simp]: "state (mark_ranges pos tps d) = state d" "offsets (mark_ranges pos tps d) = offsets d"
  unfolding mark_ranges_def by (induction tps arbitrary: d) simp_all

lemma produced_range_mark:
  "produced_range (mark_ranges pos tps d) tp =
     (if tp \<in> set tps then widen (pos tp) (pos tp) (produced_range d tp) else produced_range d tp)"
  unfolding mark_ranges_def
  by (induction tps arbitrary: d) (auto simp: produced_range_register widen_widen)

lemma register_produced_at:
  assumes "detail_at m tid e = Some d"
  shows "detail_at (snd (register_produced tid e tp offset delta m)) tid' e' =
      (if tid' = tid \<and> e' = e then Some (register_range tp offset delta d) else detail_at m tid' e')"
    and "producer_of (snd (register_produced tid e tp offset delta m)) tid' = producer_of m tid'"
proof -
  obtain t where t: "bt_get (transactions m) tid = Some t" "bt_get (epochs t) e = Some d"
    using assms by (auto simp: detail_at_def bind_eq_Some_conv)
  then have "snd (register_produced tid e tp offset delta m) = put_detail tid t e (register_range tp offset delta d) m"
    by (simp add: register_produced_def)
  then show "detail_at (snd (register_produced tid e tp offset delta m)) tid' e' =
      (if tid' = tid \<and> e' = e then Some (register_range tp offset delta d) else detail_at m tid' e')"
    and "producer_of (snd (register_produced tid e tp offset delta m)) tid' = producer_of m tid'"
    using detail_at_put [OF t(1)] by simp_all
qed

lemma mark_all_ok:
  assumes "wf_meta m" and "detail_at m tid e = Some d"
  shows "\<exists>m'. mark_all tid e (\<lambda>tp. Inr (pos tp)) tps m = (Inr (), m') \<and> wf_meta m' \<and>
    (\<forall>tid' e'. detail_at m' tid' e' = (if tid' = tid \<and> e' = e then Some (mark_ranges pos tps d) else detail_at m tid' e')) \<and>
    (\<forall>tid'. producer_of m' tid' = producer_of m tid')"
  using assms
proof (induction tps arbitrary: m d)
  case Nil
  then show ?case by (auto simp: mark_ranges_def)
next
  case (Cons tp tps)
  let ?m = "snd (register_produced tid e tp (pos tp) 0 m)"
  note at = register_produced_at [OF Cons.prems(2), of tp "pos tp" 0]
  have wf: "wf_meta ?m" using wf_run_edit [OF Cons.prems(1), of "RegisterProduced tid e tp (pos tp) 0"] by simp
  have "detail_at ?m tid e = Some (register_range tp (pos tp) 0 d)" using at(1) by simp
  from Cons.IH [OF wf this] show ?case using at by (auto simp: mark_ranges_def)
qed

lemma mark_all_keeps:
  assumes "wf_meta m" and "detail_at m tid e = Some d" and "mark_all tid e marker tps m = (out, m')"
  shows "wf_meta m' \<and> (\<exists>d'. detail_at m' tid e = Some d' \<and> state d' = state d) \<and> (\<forall>e'. detail_at m' tid e' \<noteq> None \<longleftrightarrow> detail_at m tid e' \<noteq> None)
    \<and> producer_of m' tid = producer_of m tid"
  using assms
proof (induction tps arbitrary: m d)
  case Nil
  then show ?case by simp
next
  case (Cons tp tps)
  show ?case
  proof (cases "marker tp")
    case (Inl err)
    then show ?thesis using Cons.prems by auto
  next
    case (Inr offset)
    let ?m = "snd (register_produced tid e tp offset 0 m)"
    note at = register_produced_at [OF Cons.prems(2), of tp offset 0]
    have wf: "wf_meta ?m" using wf_run_edit [OF Cons.prems(1), of "RegisterProduced tid e tp offset 0"] by simp
    have "detail_at ?m tid e = Some (register_range tp offset 0 d)" using at(1) by simp
    from Cons.IH [OF wf this] show ?thesis using at Cons.prems(2,3) Inr by auto
  qed
qed

lemma end_prepare_newest:
  assumes "wf_meta m" and "producer_of m tid = Some pid" and "newest_epoch m tid epoch" and "detail_at m tid epoch = Some d"
  shows "\<exists>m'. end_prepare tid pid epoch commit m =
      (Inr (if state d = Some Begin then map fst (detail_ranges d) else []), m') \<and> wf_meta m' \<and>
    (\<forall>tid' e'. detail_at m' tid' e' =
      (if tid' = tid \<and> e' = epoch
       then Some (if state d = Some Begin then d\<lparr>state := Some (if commit then PrepareCommit else PrepareAbort)\<rparr> else d)
       else detail_at m tid' e')) \<and>
    (\<forall>tid'. producer_of m' tid' = producer_of m tid')"
proof -
  obtain t where t: "bt_get (transactions m) tid = Some t" "producer t = pid" using assms(2) by (auto simp: producer_of_def)
  have cd: "current_detail m tid pid epoch = Inr (t, d)" using current_detail_iff [OF assms(1)] t assms(3,4) by blast
  let ?d = "if state d = Some Begin then d\<lparr>state := Some (if commit then PrepareCommit else PrepareAbort)\<rparr> else d"
  have e: "end_prepare tid pid epoch commit m =
      (Inr (if state d = Some Begin then map fst (detail_ranges d) else []), put_detail tid t epoch ?d m)"
    by (simp add: end_prepare_def with_current_def cd)
  have "wf_meta (put_detail tid t epoch ?d m)"
    using wf_run_edit [OF assms(1), of "EndPrepare tid pid epoch commit"] e by simp
  then show ?thesis using e detail_at_put [OF t(1), of epoch ?d] by simp
qed

lemma newest_epoch_cong:
  "(\<And>e. detail_at m' tid e \<noteq> None \<longleftrightarrow> detail_at m tid e \<noteq> None) \<Longrightarrow> newest_epoch m' tid e \<longleftrightarrow> newest_epoch m tid e"
  by (simp add: newest_epoch_def)

text \<open>The ranges of the ending transaction, as \<open>overlapping_transactions\<close> collects them.\<close>

lemma produced_get:
  assumes "wf_meta m" and "producer_of m tid = Some pid" and "detail_at m tid epoch = Some d"
  shows "\<exists>candidates. produced m tid pid epoch = Inr candidates \<and> (\<forall>tp. bt_get candidates tp = produced_range d tp)"
proof -
  obtain t where t: "bt_get (transactions m) tid = Some t" "producer t = pid" "bt_get (epochs t) epoch = Some d"
    using assms(2,3) by (auto simp: producer_of_def detail_at_def)
  have "bt_get (fold (\<lambda>(tp, r). bt_insert tp r) (detail_ranges d) []) tp = produced_range d tp" for tp
    using ranges_map_get [OF wf_detail_at(1) [OF assms(1,3)], of "\<lambda>r. r" tp] by (simp add: option.map_ident)
  then show ?thesis using t by (simp add: produced_def)
qed

text \<open>Two details share a partition when the first begins before the second ends there.\<close>

definition begins_before :: "txn_detail \<Rightarrow> txn_detail \<Rightarrow> bool" where
  "begins_before d d' \<longleftrightarrow> (\<exists>tp r r'. produced_range d tp = Some r \<and> produced_range d' tp = Some r' \<and>
     offset_start r < offset_end r')"

lemma overlaps_iff:
  assumes "wf_produces (produces d')" and "\<And>tp. bt_get candidates tp = produced_range d tp"
  shows "overlaps candidates d' \<longleftrightarrow> begins_before d' d"
proof -
  have "overlaps candidates d' \<longleftrightarrow> (\<exists>tp r. (tp, r) \<in> set (detail_ranges d') \<and>
      is_some_and (bt_get candidates tp) (\<lambda>candidate. offset_start r < offset_end candidate))"
    unfolding overlaps_def by force
  also have "\<dots> \<longleftrightarrow> (\<exists>tp r. produced_range d' tp = Some r \<and>
      (\<exists>r'. produced_range d tp = Some r' \<and> offset_start r < offset_end r'))"
    unfolding detail_ranges_iff [OF assms(1)] assms(2) is_some_and_def
    by (intro iff_exI conj_cong refl) (simp split: option.split)
  finally show ?thesis unfolding begins_before_def by blast
qed

lemma find_None_filter: "List.find P xs = None \<longleftrightarrow> (\<forall>x \<in> set xs. \<not> P x)"
  by (induction xs) auto

lemma find_holds: "List.find P xs = Some x \<Longrightarrow> x \<in> set xs \<and> P x"
  by (induction xs) (auto split: if_splits)

lemma find_exists: "x \<in> set xs \<Longrightarrow> P x \<Longrightarrow> \<exists>y. List.find P xs = Some y"
  by (induction xs) auto

lemma no_overlap:
  assumes "wf_meta m" and "producer_of m tid = Some pid" and "detail_at m tid epoch = Some d"
    and "\<And>tid' e' d'. detail_at m tid' e' = Some d' \<Longrightarrow> (tid', e') \<noteq> (tid, epoch) \<Longrightarrow> state d' \<noteq> None \<Longrightarrow> \<not> begins_before d' d"
  shows "overlapping_transactions m tid pid epoch = Inr []"
proof -
  obtain candidates where c: "produced m tid pid epoch = Inr candidates" "\<And>tp. bt_get candidates tp = produced_range d tp"
    using produced_get [OF assms(1-3)] by blast
  have "first_overlap candidates tid pid epoch (tid', t) = None" if t: "(tid', t) \<in> set (transactions m)" for tid' t
  proof -
    have inv: "bt_inv (transactions m)" using assms(1) by (simp add: wf_meta_def)
    have t': "bt_get (transactions m) tid' = Some t" using t by (simp add: bt_get_in [OF inv])
    have none: "\<not> (\<not> (tid = tid' \<and> pid = producer t \<and> epoch = e) \<and> state d' \<noteq> None \<and> overlaps candidates d')"
      if "(e, d') \<in> set (epochs t)" for e d'
    proof -
      have "bt_get (epochs t) e = Some d'" using bt_get_in [OF wf_metaD(1) [OF assms(1) t']] that by blast
      then have at: "detail_at m tid' e = Some d'" by (simp add: detail_at_def t')
      have "producer t = pid" if "tid' = tid" using assms(2) that t' by (simp add: producer_of_def)
      moreover have "\<not> overlaps candidates d'" if "(tid', e) \<noteq> (tid, epoch)" "state d' \<noteq> None"
        using overlaps_iff [OF wf_detail_at(1) [OF assms(1) at] c(2)] assms(4) [OF at that] by blast
      ultimately show ?thesis by blast
    qed
    have "List.find (\<lambda>(e, d). \<not> (tid = tid' \<and> pid = producer t \<and> epoch = e) \<and> state d \<noteq> None \<and>
        overlaps candidates d) (epochs t) = None"
      unfolding find_None_filter
    proof
      fix x
      assume "x \<in> set (epochs t)"
      then show "\<not> (case x of (e, d) \<Rightarrow> \<not> (tid = tid' \<and> pid = producer t \<and> epoch = e) \<and> state d \<noteq> None \<and> overlaps candidates d)"
        using none [of "fst x" "snd x"] by (simp add: split_beta)
    qed
    then show ?thesis unfolding first_overlap_def prod.case by simp
  qed
  then have "List.map_filter (first_overlap candidates tid pid epoch) (transactions m) = []"
    by (force simp: List.map_filter_def filter_empty_conv)
  then show ?thesis by (simp add: overlapping_transactions_def c(1))
qed

section \<open>The offsets staged on a transaction\<close>

definition staged :: "offset_map \<Rightarrow> string \<times> string \<times> int \<Rightarrow> txn_commit_offset option" where
  "staged os gtp = (case gtp of (grp, topic, p) \<Rightarrow>
     Option.bind (Option.bind (bt_get os grp) (\<lambda>topics. bt_get topics topic)) (\<lambda>ps. bt_get ps p))"

definition staged_entries :: "offset_map \<Rightarrow> ((string \<times> string \<times> int) \<times> txn_commit_offset) list" where
  "staged_entries os = concat (map (\<lambda>(grp, topics). concat (map (\<lambda>(topic, ps). map (\<lambda>(p, c). ((grp, topic, p), c)) ps) topics)) os)"

lemma staged_add_offset:
  "staged (add_offset grp topic (p, c) os) gtp = (if gtp = (grp, topic, p) then Some c else staged os gtp)"
  by (cases gtp; cases "bt_get os grp"; cases "bt_get (the (bt_get os grp)) topic")
    (auto simp: staged_def add_offset_def unwrap_or_def bt_get_insert)

lemma add_offsets_entries:
  "add_offsets os acc = fold (\<lambda>((grp, topic, p), c). add_offset grp topic (p, c)) (staged_entries os) acc"
proof -
  let ?f = "\<lambda>((grp, topic, p), c). add_offset grp topic (p, c)"
  have p: "fold ?f (map (\<lambda>(p, c). ((grp, topic, p), c)) ps) acc = fold (add_offset grp topic) ps acc" for grp topic ps acc
    by (induction ps arbitrary: acc) auto
  have t: "fold ?f (concat (map (\<lambda>(topic, ps). map (\<lambda>(p, c). ((grp, topic, p), c)) ps) topics)) acc =
      fold (\<lambda>(topic, ps). fold (add_offset grp topic) ps) topics acc" for grp topics acc
    by (induction topics arbitrary: acc) (auto simp: p)
  show ?thesis unfolding add_offsets_def staged_entries_def by (induction os arbitrary: acc) (auto simp: t)
qed

lemma staged_entries_iff:
  assumes "wf_offsets os"
  shows "(gtp, c) \<in> set (staged_entries os) \<longleftrightarrow> staged os gtp = Some c"
proof -
  obtain grp topic p where gtp: "gtp = (grp, topic, p)" by (cases gtp) auto
  have "(gtp, c) \<in> set (staged_entries os) \<longleftrightarrow>
      (\<exists>topics ps. (grp, topics) \<in> set os \<and> (topic, ps) \<in> set topics \<and> (p, c) \<in> set ps)"
    by (force simp: gtp staged_entries_def)
  also have "\<dots> \<longleftrightarrow> (\<exists>topics ps. bt_get os grp = Some topics \<and> bt_get topics topic = Some ps \<and> bt_get ps p = Some c)"
  proof (intro iff_exI conj_cong)
    fix topics ps
    have inv: "bt_inv os" using assms by (simp add: wf_offsets_def)
    show "(grp, topics) \<in> set os \<longleftrightarrow> bt_get os grp = Some topics" using bt_get_in [OF inv] by blast
    assume "bt_get os grp = Some topics"
    then have inv: "bt_inv topics" "bt_get topics topic = Some ps \<Longrightarrow> bt_inv ps" using assms by (auto simp: wf_offsets_def)
    show "(topic, ps) \<in> set topics \<longleftrightarrow> bt_get topics topic = Some ps" using bt_get_in [OF inv(1)] by blast
    assume "bt_get topics topic = Some ps"
    then show "(p, c) \<in> set ps \<longleftrightarrow> bt_get ps p = Some c" using bt_get_in [OF inv(2)] by blast
  qed
  also have "\<dots> \<longleftrightarrow> staged os gtp = Some c" by (auto simp: gtp staged_def bind_eq_Some_conv)
  finally show ?thesis .
qed

lemma staged_add_offsets:
  assumes "wf_offsets os"
  shows "staged (add_offsets os []) gtp = staged os gtp"
proof -
  have fold: "staged (fold (\<lambda>((grp, topic, p), c). add_offset grp topic (p, c)) xs acc) k =
      (case map_of (rev xs) k of None \<Rightarrow> staged acc k | Some c \<Rightarrow> Some c)" for xs acc k
  proof (induction xs arbitrary: acc)
    case (Cons x xs)
    obtain g t p c where x: "x = ((g, t, p), c)" by (cases x) auto
    show ?case using Cons.IH by (simp add: x staged_add_offset map_add_def split: option.splits)
  qed simp
  have "map_of (rev (staged_entries os)) gtp = staged os gtp"
  proof (cases "staged os gtp")
    case None
    then show ?thesis using staged_entries_iff [OF assms, of gtp] by (auto simp: map_of_eq_None_iff)
  next
    case (Some c)
    then have "(gtp, c) \<in> set (rev (staged_entries os))" using staged_entries_iff [OF assms] by simp
    then obtain c' where c': "map_of (rev (staged_entries os)) gtp = Some c'" using weak_map_of_SomeI by fastforce
    then have "staged os gtp = Some c'" using map_of_SomeD staged_entries_iff [OF assms, of gtp c'] by fastforce
    with c' show ?thesis by simp
  qed
  then show ?thesis using fold [of "staged_entries os" "[]" gtp]
    by (simp add: add_offsets_entries) (auto simp: staged_def split: option.splits prod.splits)
qed

section \<open>Resolving\<close>

lemma commit_groups_ok: "(\<And>grp os. commit_group grp os = Inr ()) \<Longrightarrow> commit_groups commit_group out = Inr ()"
  by (induction out) auto

lemma resolve_txn_at:
  assumes "resolve_txn ti (m, acc) = (m', acc')"
  shows "detail_at m' tid e = detail_at m tid e \<or>
      (\<exists>d d'. detail_at m tid e = Some d \<and> detail_at m' tid e = Some d' \<and> (state d' = Some Committed \<or> state d' = Some Aborted))"
    and "producer_of m' tid = producer_of m tid"
proof -
  have "m' = m \<or> (\<exists>t d s. bt_get (transactions m) (ti_transaction ti) = Some t \<and> bt_get (epochs t) (ti_producer_epoch ti) = Some d \<and>
      resolved_state (state d) = Some s \<and> m' = put_detail (ti_transaction ti) t (ti_producer_epoch ti) (resolve_detail s d) m)"
    using assms by (auto simp: resolve_txn_def split: option.splits)
  moreover have "state (resolve_detail s d) = Some s" for s d by (simp add: resolve_detail_def Let_def)
  moreover have "s = Committed \<or> s = Aborted" if "resolved_state x = Some s" for x s
    using that by (auto simp: resolved_state_def split: option.splits txn_state.splits)
  ultimately show "detail_at m' tid e = detail_at m tid e \<or>
      (\<exists>d d'. detail_at m tid e = Some d \<and> detail_at m' tid e = Some d' \<and> (state d' = Some Committed \<or> state d' = Some Aborted))"
    and "producer_of m' tid = producer_of m tid"
    using detail_at_put [of m "ti_transaction ti"] by (fastforce simp: detail_at_def)+
qed

lemma resolve_all_at:
  assumes "fold resolve_txn tis (m, acc) = (m', acc')"
  shows "(detail_at m' tid e = detail_at m tid e \<or>
      (\<exists>d d'. detail_at m tid e = Some d \<and> detail_at m' tid e = Some d' \<and> (state d' = Some Committed \<or> state d' = Some Aborted))) \<and>
    producer_of m' tid = producer_of m tid"
  using assms
proof (induction tis arbitrary: m acc)
  case (Cons ti tis)
  obtain m\<^sub>1 acc\<^sub>1 where one: "resolve_txn ti (m, acc) = (m\<^sub>1, acc\<^sub>1)" by fastforce
  with Cons.prems have "fold resolve_txn tis (m\<^sub>1, acc\<^sub>1) = (m', acc')" by simp
  from Cons.IH [OF this] resolve_txn_at [OF one, of tid] show ?case by (metis option.inject)
qed simp

lemma end_resolve_at:
  assumes "wf_meta m" and "end_resolve tid pid epoch commit m = (out, m')"
  shows "wf_meta m'"
    and "detail_at m' tid' e = detail_at m tid' e \<or>
      (\<exists>d d'. detail_at m tid' e = Some d \<and> detail_at m' tid' e = Some d' \<and> (state d' = Some Committed \<or> state d' = Some Aborted))"
    and "producer_of m' tid' = producer_of m tid'"
proof -
  show "wf_meta m'" using wf_end_resolve [OF assms(1), of tid pid epoch commit] assms(2) by simp
  have "m' = m \<or> (\<exists>tis. m' = fst (fold resolve_txn tis (m, [])))"
    using end_resolve_meta [of tid pid epoch commit m] assms(2) by simp
  then have "(detail_at m' tid' e = detail_at m tid' e \<or>
      (\<exists>d d'. detail_at m tid' e = Some d \<and> detail_at m' tid' e = Some d' \<and> (state d' = Some Committed \<or> state d' = Some Aborted))) \<and>
      producer_of m' tid' = producer_of m tid'"
  proof
    assume "\<exists>tis. m' = fst (fold resolve_txn tis (m, []))"
    then obtain tis acc where "fold resolve_txn tis (m, []) = (m', acc)" by (metis prod.collapse)
    from resolve_all_at [OF this] show ?thesis .
  qed simp
  then show "detail_at m' tid' e = detail_at m tid' e \<or>
      (\<exists>d d'. detail_at m tid' e = Some d \<and> detail_at m' tid' e = Some d' \<and> (state d' = Some Committed \<or> state d' = Some Aborted))"
    and "producer_of m' tid' = producer_of m tid'" by blast+
qed

lemma end_resolve_answers:
  assumes "wf_meta m" and "producer_of m tid = Some pid" and "newest_epoch m tid epoch"
  shows "\<exists>out m'. end_resolve tid pid epoch commit m = (Inr out, m')"
proof -
  obtain d where d: "detail_at m tid epoch = Some d" using assms(3) by (auto simp: newest_epoch_def)
  obtain t where "bt_get (transactions m) tid = Some t" "producer t = pid" using assms(2) by (auto simp: producer_of_def)
  then have "current_detail m tid pid epoch = Inr (t, d)" using current_detail_iff [OF assms(1)] assms(3) d by blast
  then show ?thesis using produced_get [OF assms(1,2) d] by (auto simp: end_resolve_def overlapping_transactions_def split_def Let_def)
qed

text \<open>Nothing in the way: the transaction resolves by itself.\<close>

lemma end_resolve_alone:
  assumes "wf_meta m" and "producer_of m tid = Some pid" and "newest_epoch m tid epoch" and "detail_at m tid epoch = Some d"
    and "resolved_state (state d) = Some s"
    and "\<And>tid' e' d'. detail_at m tid' e' = Some d' \<Longrightarrow> (tid', e') \<noteq> (tid, epoch) \<Longrightarrow> state d' \<noteq> None \<Longrightarrow> \<not> begins_before d' d"
  shows "\<exists>m'. end_resolve tid pid epoch commit m = (Inr (if commit then add_offsets (offsets d) [] else []), m') \<and> wf_meta m' \<and>
    (\<forall>tid' e'. detail_at m' tid' e' = (if tid' = tid \<and> e' = epoch then Some (resolve_detail s d) else detail_at m tid' e'))"
proof -
  obtain t where t: "bt_get (transactions m) tid = Some t" "producer t = pid" "bt_get (epochs t) epoch = Some d"
    using assms(2,4) by (auto simp: producer_of_def detail_at_def)
  have cd: "current_detail m tid pid epoch = Inr (t, d)" using current_detail_iff [OF assms(1)] t assms(3,4) by blast
  let ?m = "put_detail tid t epoch (resolve_detail s d) m"
  have e: "end_resolve tid pid epoch commit m = (Inr (if commit then add_offsets (offsets d) [] else []), ?m)"
    using no_overlap [OF assms(1,2,4,6)] by (simp add: end_resolve_def cd resolve_txn_def t assms(5))
  then have "wf_meta ?m" using wf_end_resolve [OF assms(1), of tid pid epoch commit] by simp
  then show ?thesis using e detail_at_put(1) [OF t(1), of epoch "resolve_detail s d"] by simp
qed

text \<open>In the way: a transaction none of whose epochs is prepared, one of them beginning before the end.\<close>

lemma end_resolve_blocked:
  assumes "wf_meta m" and "producer_of m tid = Some pid" and "newest_epoch m tid epoch" and "detail_at m tid epoch = Some d"
    and "tid' \<noteq> tid" and "detail_at m tid' e' = Some d'" and "state d' \<noteq> None" and "begins_before d' d"
    and "\<And>e d''. detail_at m tid' e = Some d'' \<Longrightarrow> \<not> is_some_and (state d'') is_prepared"
  shows "end_resolve tid pid epoch commit m = (Inr [], m)"
proof -
  obtain t where t: "bt_get (transactions m) tid = Some t" "producer t = pid" using assms(2) by (auto simp: producer_of_def)
  have cd: "current_detail m tid pid epoch = Inr (t, d)" using current_detail_iff [OF assms(1)] t assms(3,4) by blast
  obtain candidates where c: "produced m tid pid epoch = Inr candidates" "\<And>tp. bt_get candidates tp = produced_range d tp"
    using produced_get [OF assms(1,2,4)] by blast
  obtain t' where t': "bt_get (transactions m) tid' = Some t'" "bt_get (epochs t') e' = Some d'"
    using assms(6) by (auto simp: detail_at_def bind_eq_Some_conv)
  have inv: "bt_inv (transactions m)" using assms(1) by (simp add: wf_meta_def)
  have inv': "bt_inv (epochs t')" by (rule wf_metaD(1) [OF assms(1) t'(1)])
  let ?P = "\<lambda>(e, d). \<not> (tid = tid' \<and> pid = producer t' \<and> epoch = e) \<and> state d \<noteq> None \<and> overlaps candidates d"
  have "(e', d') \<in> set (epochs t')" using t'(2) bt_get_in [OF inv'] by blast
  moreover have "?P (e', d')"
    using assms(5,7,8) overlaps_iff [OF wf_detail_at(1) [OF assms(1,6)] c(2)] by simp
  ultimately obtain e'' d'' where f: "List.find ?P (epochs t') = Some (e'', d'')"
    using find_exists [of "(e', d')" "epochs t'" ?P] by fast
  from find_holds [OF this] have f': "(e'', d'') \<in> set (epochs t')" "state d'' \<noteq> None" by simp_all
  have "bt_get (epochs t') e'' = Some d''" using f'(1) bt_get_in [OF inv'] by blast
  then have "detail_at m tid' e'' = Some d''" using t'(1) by (simp add: detail_at_def)
  from assms(9) [OF this] have np: "\<not> is_prepared (the (state d''))" using f'(2) by (auto simp: is_some_and_def)
  define ti where "ti = \<lparr> ti_transaction = tid', ti_producer_id = producer t', ti_producer_epoch = e'', ti_state = the (state d'') \<rparr>"
  have "first_overlap candidates tid pid epoch (tid', t') = Some ti" using f by (simp add: first_overlap_def ti_def)
  moreover have "(tid', t') \<in> set (transactions m)" using t'(1) bt_get_in [OF inv] by blast
  ultimately have "ti \<in> set (List.map_filter (first_overlap candidates tid pid epoch) (transactions m))"
    by (auto simp: set_map_filter)
  then show ?thesis using np by (auto simp: end_resolve_def cd overlapping_transactions_def c(1) ti_def)
qed

section \<open>Properties\<close>

text \<open>
  C14. What a read-committed consumer is told. The last stable offset of a partition is the smallest
  first offset any transaction still open has registered there, and the high watermark when none is
  open, so nothing an open transaction wrote lies below it; the aborted list holds exactly the aborted
  transactions with a range there that reaches the log start, in the order of their first offsets.
\<close>
theorem stage_reads_transactions:
  assumes "wf_meta m"
  shows "last_stable (offset_stage_of m tp high start) =
      (if open_starts m tp = {} then high else Min (open_starts m tp)) \<and>
    set (aborted (offset_stage_of m tp high start)) = {(pid, offset_start r) | pid tid e d r.
      producer_of m tid = Some pid \<and> detail_at m tid e = Some d \<and> state d = Some Aborted \<and>
      produced_range d tp = Some r \<and> start \<le> offset_end r} \<and>
    sorted (map snd (aborted (offset_stage_of m tp high start)))"
proof -
  have "set (aborted (offset_stage_of m tp high start)) =
      {(pid, first) | pid first lst. (pid, first, lst) \<in> set (aborted_raw m tp) \<and> start \<le> lst}"
    by (force simp: offset_stage_of_def)
  also have "\<dots> = {(pid, offset_start r) | pid tid e d r.
      producer_of m tid = Some pid \<and> detail_at m tid e = Some d \<and> state d = Some Aborted \<and>
      produced_range d tp = Some r \<and> start \<le> offset_end r}"
    unfolding aborted_raw_iff [OF assms] by blast
  finally show ?thesis using last_stable_floor [OF assms, of high tp] by (simp add: offset_stage_of_def)
qed

text \<open>
  The document after transaction \<open>a\<close> wrote offsets 0 and 1 of a partition and aborted, and transaction
  \<open>b\<close> wrote offset 3 and asked to commit.
\<close>

definition sample_tp :: tp where "sample_tp = (''t'', 0)"

definition sample_edits :: "meta_edit list" where
  "sample_edits =
     [InitTransactional ''a'' 60 (Some (-1)) (Some (-1)), InitTransactional ''b'' 60 (Some (-1)) (Some (-1)),
      AddPartitions 0 ''a'' 1 0 [(''t'', Some [0])], RegisterProduced ''a'' 0 sample_tp 0 1,
      EndPrepare ''a'' 1 0 False, RegisterProduced ''a'' 0 sample_tp 2 0, EndResolve ''a'' 1 0 False,
      AddPartitions 0 ''b'' 2 0 [(''t'', Some [0])], RegisterProduced ''b'' 0 sample_tp 3 0,
      EndPrepare ''b'' 2 0 True, RegisterProduced ''b'' 0 sample_tp 4 0]"

definition sample_meta :: meta where "sample_meta = fold run_edit sample_edits meta_default"

lemma wf_sample_meta: "wf_meta sample_meta"
  unfolding sample_meta_def by (rule run_edits(1)) simp

theorem stage_reads_transactions_witness:
  "wf_meta sample_meta \<and> last_stable (offset_stage_of sample_meta sample_tp 5 0) = 3 \<and>
   Min (open_starts sample_meta sample_tp) = 3 \<and> aborted (offset_stage_of sample_meta sample_tp 5 0) = [(1, 0)]"
proof -
  have "last_stable (offset_stage_of sample_meta sample_tp 5 0) = 3" "aborted (offset_stage_of sample_meta sample_tp 5 0) = [(1, 0)]"
    by code_simp+
  with stage_reads_transactions [OF wf_sample_meta, of sample_tp 5 0] wf_sample_meta show ?thesis
    by (auto split: if_splits)
qed


text \<open>The closures as one handle sees them, each with its own kind of result.\<close>

datatype meta_outcome =
    ToMark "tp list"
  | ToCommit offset_map
  | Initialised init_producer
  | Assigned producer_id_response
  | Answered topics_response
  | Registered

fun meta_closure :: "meta_edit \<Rightarrow> (meta, txn_error, meta_outcome) closure" where
  "meta_closure (EndPrepare tid pid epoch commit) m = map_prod (map_sum id ToMark) id (end_prepare tid pid epoch commit m)"
| "meta_closure (EndResolve tid pid epoch commit) m = map_prod (map_sum id ToCommit) id (end_resolve tid pid epoch commit m)"
| "meta_closure (InitTransactional tid timeout_ms pid epoch) m =
     map_prod (map_sum id Initialised) id (init_transactional tid timeout_ms pid epoch m)"
| "meta_closure (InitIdempotent pid epoch) m = map_prod (map_sum id Assigned) id (init_idempotent pid epoch m)"
| "meta_closure (AddPartitions now tid pid epoch topics) m =
     map_prod (map_sum id Answered) id (add_txn_partitions now tid pid epoch topics m)"
| "meta_closure (OffsetCommit tid grp pid epoch topics) m =
     map_prod (map_sum id Answered) id (txn_offset_commit tid grp pid epoch topics m)"
| "meta_closure (RegisterProduced tid epoch tp offset delta) m =
     map_prod (map_sum id (\<lambda>_. Registered)) id (register_produced tid epoch tp offset delta m)"

lemma snd_meta_closure: "snd (meta_closure ed m) = run_edit ed m"
  by (cases ed) simp_all

interpretation meta_doc: document_invariant "range meta_closure" wf_meta meta_default
  by unfold_locales (auto simp: snd_meta_closure wf_run_edit)

text \<open>Only the closures of this component touch the document.\<close>

definition meta_events :: "(meta, txn_error, meta_outcome) event list \<Rightarrow> bool" where
  "meta_events es \<longleftrightarrow> (\<forall>ev \<in> set es. \<exists>ed r. ev = Applied (meta_closure ed) r)"

lemma meta_events_only: "meta_events es \<Longrightarrow> meta_doc.edits_only es"
  unfolding meta_events_def meta_doc.edits_only_def by blast

lemma replay_keeps_epochs:
  assumes "meta_events es" and "replay meta_default es (Some m) = Some doc" and "wf_meta m"
  shows "\<exists>m'. doc = Some m' \<and> wf_meta m' \<and> keeps_epochs m m'"
  using assms
proof (induction es arbitrary: m)
  case (Cons ev es)
  obtain ed r where ev: "ev = Applied (meta_closure ed) r" using Cons.prems(1) by (auto simp: meta_events_def)
  obtain out m\<^sub>1 where cl: "meta_closure ed m = (out, m\<^sub>1)" by fastforce
  then have m1: "m\<^sub>1 = run_edit ed m" using snd_meta_closure [of ed m] by simp
  have "replay meta_default es (Some m\<^sub>1) = Some doc" using Cons.prems(2) ev cl by (simp split: if_splits)
  moreover have "meta_events es" using Cons.prems(1) by (simp add: meta_events_def)
  ultimately obtain m' where "doc = Some m'" "wf_meta m'" "keeps_epochs m\<^sub>1 m'"
    using Cons.IH [of m\<^sub>1] wf_run_edit [OF Cons.prems(3)] m1 by blast
  then show ?case using keeps_epochs_run_edit [OF Cons.prems(3), of ed] m1 keeps_epochs_trans by blast
next
  case Nil
  from Nil.prems(2) have "doc = Some m" by simp
  then show ?case using Nil.prems(3) by simp
qed

text \<open>
  C15. A producer epoch once superseded is refused for good. Take any run of the replicas on the cluster
  document in which some \<open>InitProducerId\<close> answered an epoch for a transactional id. In every state
  after it, whoever still presents an older epoch of that id is refused by \<open>EndTxn\<close>, in both of its
  closures, by \<open>AddPartitionsToTxn\<close> and by \<open>TxnOffsetCommit\<close>, and the document is left as it was.
\<close>
theorem fenced_for_good:
  assumes "conditional_store content puts gets dels" and "codec_reads_back ser de"
    and "fresh_system content de s\<^sub>0" and "object s\<^sub>0 = None"
    and "runs ser de meta_default puts gets dels hnd s\<^sub>0 es s" and "meta_events es"
    and "es = before @ [Applied (meta_closure (InitTransactional tid timeout_ms pid epoch))
           (Inr (Initialised (Completed response)))] @ after"
    and "pr_error response = InitNone" and "stale < pr_epoch response"
  shows "\<exists>m. document de (object s) = Some m \<and>
    end_prepare tid (pr_id response) stale commit m = (Inl (ApiError ProducerFenced), m) \<and>
    end_resolve tid (pr_id response) stale commit m = (Inl (ApiError ProducerFenced), m) \<and>
    add_txn_partitions now tid (pr_id response) stale topics m = (Inr (answer_all (Some ProducerFenced) topics), m) \<and>
    txn_offset_commit tid grp (pr_id response) stale offs m = (Inr (answer_offsets (Some ProducerFenced) offs), m)"
proof -
  let ?init = "InitTransactional tid timeout_ms pid epoch"
  have "replay meta_default es None = Some (document de (object s))"
    using runs_keeps [OF assms(1,2,5) fresh_system_ok [OF assms(3)]] assms(4) by (simp add: document_def)
  then obtain doc where rb: "replay meta_default before None = Some doc"
    and ra: "replay meta_default ([Applied (meta_closure ?init) (Inr (Initialised (Completed response)))] @ after) doc
      = Some (document de (object s))"
    unfolding assms(7) replay_append by (cases "replay meta_default before None") auto
  let ?m = "case doc of None \<Rightarrow> meta_default | Some d \<Rightarrow> d"
  have ev: "meta_events before" "meta_events after" using assms(6,7) by (auto simp: meta_events_def)
  have wf: "wf_meta ?m"
    using meta_doc.replay_inv [OF meta_events_only [OF ev(1)] rb] by (cases doc) auto
  obtain m\<^sub>1 where init: "init_transactional tid timeout_ms pid epoch ?m = (Inr (Completed response), m\<^sub>1)"
    and rest: "replay meta_default after (Some m\<^sub>1) = Some (document de (object s))"
  proof -
    obtain out m\<^sub>1 where i: "init_transactional tid timeout_ms pid epoch ?m = (out, m\<^sub>1)" by fastforce
    with ra have "map_sum id Initialised out = Inr (Initialised (Completed response))"
      and rest: "replay meta_default after (Some m\<^sub>1) = Some (document de (object s))" by (auto split: if_splits)
    then have "out = Inr (Completed response)" by (cases out) auto
    with i rest show thesis using that by blast
  qed
  note completed = init_completed [OF wf init assms(8)]
  obtain m where m: "document de (object s) = Some m" "wf_meta m" "keeps_epochs m\<^sub>1 m"
    using replay_keeps_epochs [OF ev(2) rest] completed by blast
  obtain t where t: "bt_get (transactions m) tid = Some t" "producer t = pr_id response"
      "bt_get (epochs t) (pr_epoch response) \<noteq> None"
    using m(3) completed by (force simp: keeps_epochs_def producer_of_def detail_at_def bind_eq_None_conv)
  have "current_detail m tid (pr_id response) stale = Inl ProducerFenced"
    using current_detail_stale [OF m(2) t(1,3) assms(9)] t(2) by simp
  then show ?thesis using m(1)
    by (simp add: end_prepare_def end_resolve_def add_txn_partitions_def txn_offset_commit_def with_current_def)
qed

definition sample_init :: "int \<Rightarrow> (meta, txn_error, meta_outcome) event" where
  "sample_init e = Applied (meta_closure (InitTransactional ''a'' 60 (Some (-1)) (Some (-1))))
     (Inr (Initialised (Completed \<lparr> pr_error = InitNone, pr_id = 1, pr_epoch = e \<rparr>)))"

theorem fenced_for_good_witness:
  "\<exists>s. runs Some Some meta_default tag_puts tag_gets tag_dels id tag_system [sample_init 0, sample_init 1] s \<and>
     document Some (object s) \<noteq> None \<and>
     end_prepare ''a'' 1 0 True (the (document Some (object s))) =
       (Inl (ApiError ProducerFenced), the (document Some (object s)))"
proof -
  let ?init = "meta_closure (InitTransactional ''a'' 60 (Some (-1)) (Some (-1)))"
  let ?r = "\<lambda>e. \<lparr> pr_error = InitNone, pr_id = 1, pr_epoch = e \<rparr>"
  let ?A = "\<lambda>e. Applied ?init (Inr (Initialised (Completed (?r e))))"
  have one: "?init meta_default = (Inr (Initialised (Completed (?r 0))), snd (?init meta_default))" by code_simp
  have two: "?init (snd (?init meta_default)) =
      (Inr (Initialised (Completed (?r 1))), snd (?init (snd (?init meta_default))))" by code_simp
  obtain s\<^sub>1 where s1: "runs Some Some meta_default tag_puts tag_gets tag_dels id tag_system ([] @ [?A 0]) s\<^sub>1"
      "tag_at (Some (snd (?init meta_default))) s\<^sub>1"
    using tag_edit [OF runs_refl tag_at_start, where f = ?init and dflt = meta_default] one by auto
  obtain s where s: "runs Some Some meta_default tag_puts tag_gets tag_dels id tag_system (([] @ [?A 0]) @ [?A 1]) s"
    using tag_edit [OF s1, where f = ?init] two by auto
  have "meta_events [?A 0, ?A 1]" by (auto simp: meta_events_def)
  then obtain m where "document Some (object s) = Some m" "end_prepare ''a'' 1 0 True m = (Inl (ApiError ProducerFenced), m)"
    using fenced_for_good [OF tag_store(1,2,5) _ s, of "[?A 0]" "''a''" 60 "Some (-1)" "Some (-1)" "?r 1" "[]" 0 True 0 "[]" "[]" "[]"]
    by (auto simp: tag_system_def)
  then show ?thesis using s by (intro exI [of _ s]) (simp add: sample_init_def)
qed

text \<open>
  C16. A transaction ends as a whole. When no other transaction holds a range on its partitions,
  \<open>EndTxn\<close> on the newest epoch of an open transaction, its markers written at \<open>pos\<close>, leaves it
  committed or aborted as asked and every other transaction as it was. A commit hands over exactly the
  offsets staged on it and leaves no range behind; an abort hands over none and keeps every range,
  widened to its marker, for consumers to skip.
\<close>
theorem end_txn_atomic:
  assumes "wf_meta m" and "producer_of m tid = Some pid" and "newest_epoch m tid epoch" and "detail_at m tid epoch = Some d"
    and "state d = Some Begin" and "\<forall>grp os. commit_group grp os = Inr ()"
    and "\<forall>tid' e' d' tp. detail_at m tid' e' = Some d' \<and> (tid', e') \<noteq> (tid, epoch) \<and> state d' \<noteq> None \<and>
      produced_range d' tp \<noteq> None \<longrightarrow> produced_range d tp = None"
  shows "\<exists>out m' d'. end_txn (\<lambda>tp. Inr (pos tp)) commit_group tid pid epoch commit m = (Inr out, m') \<and> wf_meta m' \<and>
    (\<forall>gtp. staged out gtp = (if commit then staged (offsets d) gtp else None)) \<and>
    (\<forall>tid' e'. (tid', e') \<noteq> (tid, epoch) \<longrightarrow> detail_at m' tid' e' = detail_at m tid' e') \<and>
    detail_at m' tid epoch = Some d' \<and> state d' = Some (if commit then Committed else Aborted) \<and> offsets d' = [] \<and>
    (\<forall>tp. produced_range d' tp = (if commit then None
       else map_option (\<lambda>r. \<lparr> offset_start = min (offset_start r) (pos tp), offset_end = max (offset_end r) (pos tp) \<rparr>) (produced_range d tp)))"
proof -
  let ?d\<^sub>1 = "d\<lparr>state := Some (if commit then PrepareCommit else PrepareAbort)\<rparr>"
  let ?tps = "map fst (detail_ranges d)"
  obtain m\<^sub>1 where prep: "end_prepare tid pid epoch commit m = (Inr ?tps, m\<^sub>1)" and wf1: "wf_meta m\<^sub>1"
    and at1: "\<And>tid' e'. detail_at m\<^sub>1 tid' e' = (if tid' = tid \<and> e' = epoch then Some ?d\<^sub>1 else detail_at m tid' e')"
    and pr1: "\<And>tid'. producer_of m\<^sub>1 tid' = producer_of m tid'"
    using end_prepare_newest [OF assms(1-4), of commit] assms(5) by auto
  define d\<^sub>2 where "d\<^sub>2 = mark_ranges pos ?tps ?d\<^sub>1"
  have d1: "detail_at m\<^sub>1 tid epoch = Some ?d\<^sub>1" by (simp add: at1)
  obtain m\<^sub>2 where mark: "mark_all tid epoch (\<lambda>tp. Inr (pos tp)) ?tps m\<^sub>1 = (Inr (), m\<^sub>2)" and wf2: "wf_meta m\<^sub>2"
    and at2: "\<And>tid' e'. detail_at m\<^sub>2 tid' e' = (if tid' = tid \<and> e' = epoch then Some d\<^sub>2 else detail_at m tid' e')"
    and pr2: "\<And>tid'. producer_of m\<^sub>2 tid' = producer_of m tid'"
    using mark_all_ok [OF wf1 d1, of pos ?tps] at1 pr1 unfolding d\<^sub>2_def by auto
  have tps: "tp \<in> set ?tps \<longleftrightarrow> produced_range d tp \<noteq> None" for tp
    using detail_ranges_iff [OF wf_detail_at(1) [OF assms(1,4)], of tp] by force
  have "produced_range ?d\<^sub>1 = produced_range d" by (rule ext) (simp add: produced_range_def)
  then have rng: "produced_range d\<^sub>2 tp = map_option (\<lambda>r. \<lparr> offset_start = min (offset_start r) (pos tp),
      offset_end = max (offset_end r) (pos tp) \<rparr>) (produced_range d tp)" for tp
    using tps [of tp] by (cases "produced_range d tp") (auto simp: d\<^sub>2_def produced_range_mark widen_def unwrap_or_def Let_def)
  have alone: "\<not> begins_before d' d\<^sub>2"
    if "detail_at m\<^sub>2 tid' e' = Some d'" "(tid', e') \<noteq> (tid, epoch)" "state d' \<noteq> None" for tid' e' d'
  proof
    assume "begins_before d' d\<^sub>2"
    then obtain tp where tp: "produced_range d' tp \<noteq> None" "produced_range d\<^sub>2 tp \<noteq> None" by (auto simp: begins_before_def)
    have "detail_at m tid' e' = Some d'" using that(1,2) by (auto simp: at2 split: if_splits)
    with assms(7) that(2,3) tp(1) have "produced_range d tp = None" by blast
    with tp(2) show False by (simp add: rng)
  qed
  have new2: "newest_epoch m\<^sub>2 tid epoch" using assms(3,4) newest_epoch_cong [of m\<^sub>2 tid m epoch] at2 by auto
  have st: "resolved_state (state d\<^sub>2) = Some (if commit then Committed else Aborted)"
    by (simp add: d\<^sub>2_def resolved_state_def)
  have self: "producer_of m\<^sub>2 tid = Some pid" "detail_at m\<^sub>2 tid epoch = Some d\<^sub>2" by (simp_all add: pr2 at2 assms(2))
  have "\<exists>m'. end_resolve tid pid epoch commit m\<^sub>2 = (Inr (if commit then add_offsets (offsets d\<^sub>2) [] else []), m') \<and> wf_meta m' \<and>
    (\<forall>tid' e'. detail_at m' tid' e' = (if tid' = tid \<and> e' = epoch
      then Some (resolve_detail (if commit then Committed else Aborted) d\<^sub>2) else detail_at m\<^sub>2 tid' e'))"
    by (rule end_resolve_alone [OF wf2 self(1) new2 self(2) st]) (rule alone)
  then obtain m\<^sub>3 where res: "end_resolve tid pid epoch commit m\<^sub>2 = (Inr (if commit then add_offsets (offsets d) [] else []), m\<^sub>3)"
    and wf3: "wf_meta m\<^sub>3" and at3: "\<And>tid' e'. detail_at m\<^sub>3 tid' e' = (if tid' = tid \<and> e' = epoch
      then Some (resolve_detail (if commit then Committed else Aborted) d\<^sub>2) else detail_at m tid' e')"
    by (auto simp: d\<^sub>2_def at2)
  have "end_txn (\<lambda>tp. Inr (pos tp)) commit_group tid pid epoch commit m =
      (Inr (if commit then add_offsets (offsets d) [] else []), m\<^sub>3)"
    by (simp add: end_txn_def prep mark res commit_groups_ok assms(6))
  moreover have "produced_range (resolve_detail (if commit then Committed else Aborted) d\<^sub>2) tp = (if commit then None else produced_range d\<^sub>2 tp)" for tp
    by (simp add: produced_range_def resolve_detail_def)
  moreover have "staged [] gtp = None" for gtp by (simp add: staged_def split: prod.split)
  ultimately show ?thesis using wf3 at3 rng staged_add_offsets [OF wf_detail_at(2) [OF assms(1,4)]]
    by (intro exI [of _ "if commit then add_offsets (offsets d) [] else []"] exI [of _ m\<^sub>3]
        exI [of _ "resolve_detail (if commit then Committed else Aborted) d\<^sub>2"]) (simp add: resolve_detail_def Let_def)
qed

definition held_epochs :: "meta \<Rightarrow> (string \<times> int list) list" where
  "held_epochs m = map (\<lambda>(tid, t). (tid, bt_keys (epochs t))) (transactions m)"

lemma held_epochs_all:
  assumes "detail_at m tid e \<noteq> None"
  shows "\<exists>es. (tid, es) \<in> set (held_epochs m) \<and> e \<in> set es"
proof -
  obtain t d where "bt_get (transactions m) tid = Some t" "bt_get (epochs t) e = Some d"
    using assms by (auto simp: detail_at_def bind_eq_Some_conv)
  then have t: "(tid, t) \<in> set (transactions m)" "e \<in> set (bt_keys (epochs t))"
    by (force simp: bt_get_def bt_keys_def dest: map_of_SomeD)+
  then have "(tid, bt_keys (epochs t)) \<in> set (held_epochs m)" by (force simp: held_epochs_def)
  with t(2) show ?thesis by blast
qed

definition sample_open :: meta where
  "sample_open = fold run_edit
     [InitTransactional ''a'' 60 (Some (-1)) (Some (-1)), AddPartitions 0 ''a'' 1 0 [(''t'', Some [0])],
      RegisterProduced ''a'' 0 sample_tp 0 1,
      OffsetCommit ''a'' ''g'' 1 0 [(''u'', Some [(7, \<lparr> committed_offset = 9, leader_epoch = None, metadata = None \<rparr>)])]] meta_default"

lemma sample_open_details:
  "wf_meta sample_open" "producer_of sample_open ''a'' = Some 1"
  "detail_at sample_open tid e \<noteq> None \<Longrightarrow> tid = ''a'' \<and> e = 0"
  "detail_at sample_open ''a'' 0 \<noteq> None"
proof -
  show "wf_meta sample_open" unfolding sample_open_def by (rule run_edits(1)) simp
  show "producer_of sample_open ''a'' = Some 1" "detail_at sample_open ''a'' 0 \<noteq> None" by code_simp+
  have "held_epochs sample_open = [(''a'', [0])]" by code_simp
  then show "tid = ''a'' \<and> e = 0" if "detail_at sample_open tid e \<noteq> None" using held_epochs_all [OF that] by simp
qed

theorem end_txn_atomic_witness:
  "\<exists>out m'. end_txn (\<lambda>_. Inr 2) (\<lambda>_ _. Inr ()) ''a'' 1 0 True sample_open = (Inr out, m') \<and>
     staged out (''g'', ''u'', 7) = Some \<lparr> committed_offset = 9, leader_epoch = None, metadata = None \<rparr>"
proof -
  obtain d where d: "detail_at sample_open ''a'' 0 = Some d" using sample_open_details(4) by blast
  have new: "newest_epoch sample_open ''a'' 0" using sample_open_details(3) d by (simp add: newest_epoch_def) blast
  have "map_option state (detail_at sample_open ''a'' 0) = Some (Some Begin)"
    "Option.bind (detail_at sample_open ''a'' 0) (\<lambda>d. staged (offsets d) (''g'', ''u'', 7)) =
       Some \<lparr> committed_offset = 9, leader_epoch = None, metadata = None \<rparr>" by code_simp+
  then have st: "state d = Some Begin"
    "staged (offsets d) (''g'', ''u'', 7) = Some \<lparr> committed_offset = 9, leader_epoch = None, metadata = None \<rparr>" by (simp_all add: d)
  have alone: "\<forall>tid' e' d' tp. detail_at sample_open tid' e' = Some d' \<and> (tid', e') \<noteq> (''a'', 0) \<and> state d' \<noteq> None \<and>
      produced_range d' tp \<noteq> None \<longrightarrow> produced_range d tp = None"
    using sample_open_details(3) by blast
  obtain out m' where "end_txn (\<lambda>_. Inr 2) (\<lambda>_ _. Inr ()) ''a'' 1 0 True sample_open = (Inr out, m')"
    "\<forall>gtp. staged out gtp = staged (offsets d) gtp"
    using end_txn_atomic [OF sample_open_details(1,2) new d st(1) _ alone, where commit_group = "\<lambda>_ _. Inr ()" and
        pos = "\<lambda>_. 2" and commit = True] by (elim meta_impE exE conjE) simp_all
  then show ?thesis using st(2) by auto
qed



text \<open>
  A second transaction in the same epoch inherits the ranges of an aborted first one, since
  \<open>add_txn_partitions\<close> keeps them: while it is open the last stable offset falls back to the aborted
  records, and once it commits they are no longer reported as aborted.
\<close>

definition sample_reused :: "meta_edit list" where
  "sample_reused =
     [InitTransactional ''a'' 60 (Some (-1)) (Some (-1)), AddPartitions 0 ''a'' 1 0 [(''t'', Some [0])],
      RegisterProduced ''a'' 0 sample_tp 0 1, EndPrepare ''a'' 1 0 False, RegisterProduced ''a'' 0 sample_tp 2 0,
      EndResolve ''a'' 1 0 False]"

lemma aborted_records_resurface:
  "let before = fold run_edit sample_reused meta_default;
       during = fold run_edit [AddPartitions 0 ''a'' 1 0 [(''t'', Some [0])], RegisterProduced ''a'' 0 sample_tp 3 0] before;
       after = fold run_edit [EndPrepare ''a'' 1 0 True, RegisterProduced ''a'' 0 sample_tp 4 0, EndResolve ''a'' 1 0 True] during
   in aborted (offset_stage_of before sample_tp 3 0) = [(1, 0)] \<and> last_stable (offset_stage_of before sample_tp 3 0) = 3 \<and>
      last_stable (offset_stage_of during sample_tp 4 0) = 0 \<and>
      aborted (offset_stage_of after sample_tp 5 0) = [] \<and> last_stable (offset_stage_of after sample_tp 5 0) = 5"
  by code_simp

text \<open>\<open>EndTxn\<close> with a commit on a transaction prepared to abort: it ends aborted and its offsets are handed over.\<close>

lemma commit_of_prepared_abort:
  assumes "wf_meta m" and "producer_of m tid = Some pid" and "newest_epoch m tid epoch" and "detail_at m tid epoch = Some d"
    and "state d = Some PrepareAbort"
    and "\<And>tid' e' d'. detail_at m tid' e' = Some d' \<Longrightarrow> (tid', e') \<noteq> (tid, epoch) \<Longrightarrow> state d' \<noteq> None \<Longrightarrow> \<not> begins_before d' d"
  shows "\<exists>m' d'. end_resolve tid pid epoch True m = (Inr (add_offsets (offsets d) []), m') \<and>
    detail_at m' tid epoch = Some d' \<and> state d' = Some Aborted"
proof -
  have "resolved_state (state d) = Some Aborted" by (simp add: assms(5) resolved_state_def)
  then have "\<exists>m'. end_resolve tid pid epoch True m = (Inr (if True then add_offsets (offsets d) [] else []), m') \<and> wf_meta m' \<and>
    (\<forall>tid' e'. detail_at m' tid' e' = (if tid' = tid \<and> e' = epoch then Some (resolve_detail Aborted d) else detail_at m tid' e'))"
    by (rule end_resolve_alone [OF assms(1-4)]) (rule assms(6))
  then show ?thesis by (auto simp: resolve_detail_def Let_def)
qed

section \<open>Initialising a producer ends\<close>

lemma end_txn_keeps:
  assumes "wf_meta m" and "producer_of m tid = Some pid" and "newest_epoch m tid epoch"
    and "end_txn marker commit_group tid pid epoch commit m = (out, m')"
  shows "wf_meta m' \<and> newest_epoch m' tid epoch \<and> producer_of m' tid = Some pid \<and>
    (\<forall>e. detail_at m' tid e \<noteq> None \<longleftrightarrow> detail_at m tid e \<noteq> None) \<and>
    (\<forall>d. detail_at m' tid epoch = Some d \<longrightarrow> state d \<noteq> Some Begin) \<and>
    ((\<forall>tp. \<exists>offset. marker tp = Inr offset) \<and> (\<forall>grp os. commit_group grp os = Inr ()) \<longrightarrow> (\<exists>os. out = Inr os))"
proof -
  obtain d where d: "detail_at m tid epoch = Some d" using assms(3) by (auto simp: newest_epoch_def)
  obtain tps m\<^sub>1 where prep: "end_prepare tid pid epoch commit m = (Inr tps, m\<^sub>1)" and wf1: "wf_meta m\<^sub>1"
    and at1: "\<And>e. detail_at m\<^sub>1 tid e \<noteq> None \<longleftrightarrow> detail_at m tid e \<noteq> None" and pr1: "producer_of m\<^sub>1 tid = Some pid"
    and d1: "\<exists>d\<^sub>1. detail_at m\<^sub>1 tid epoch = Some d\<^sub>1 \<and> state d\<^sub>1 \<noteq> Some Begin"
    using end_prepare_newest [OF assms(1-3) d, of commit] assms(2) d by auto
  obtain d\<^sub>1 where d\<^sub>1: "detail_at m\<^sub>1 tid epoch = Some d\<^sub>1" "state d\<^sub>1 \<noteq> Some Begin" using d1 by blast
  obtain out\<^sub>2 m\<^sub>2 where mark: "mark_all tid epoch marker tps m\<^sub>1 = (out\<^sub>2, m\<^sub>2)" by fastforce
  note m2 = mark_all_keeps [OF wf1 d\<^sub>1(1) mark]
  have new2: "newest_epoch m\<^sub>2 tid epoch" using assms(3) m2 at1 by (simp add: newest_epoch_def)
  have ok2: "out\<^sub>2 = Inr ()" if "\<forall>tp. \<exists>offset. marker tp = Inr offset"
    using mark that by (induction tps arbitrary: m\<^sub>1) (auto split: sum.splits, metis Inl_Inr_False)
  obtain out\<^sub>3 m\<^sub>3 where res: "end_resolve tid pid epoch commit m\<^sub>2 = (Inr out\<^sub>3, m\<^sub>3)"
    using end_resolve_answers [OF _ _ new2, of pid commit] m2 pr1 by fastforce
  note r = end_resolve_at [OF conjunct1 [OF m2] res]
  have at3: "detail_at m\<^sub>3 tid e \<noteq> None \<longleftrightarrow> detail_at m tid e \<noteq> None" for e
    using r(2) [of tid e] m2 at1 by auto
  have st3: "state d' \<noteq> Some Begin" if "detail_at m\<^sub>3 tid epoch = Some d'" for d'
    using r(2) [of tid epoch] that m2 d\<^sub>1(2) by auto
  have st2: "state d' \<noteq> Some Begin" if "detail_at m\<^sub>2 tid epoch = Some d'" for d' using that m2 d\<^sub>1(2) by auto
  have pr3: "producer_of m\<^sub>3 tid = Some pid" using r(3) m2 pr1 by simp
  have new3: "newest_epoch m\<^sub>3 tid epoch" using assms(3) at3 by (simp add: newest_epoch_def)
  show ?thesis
  proof (cases out\<^sub>2)
    case (Inl err)
    then have "m' = m\<^sub>2" "out = Inl err" using assms(4) by (simp_all add: end_txn_def prep mark)
    then show ?thesis using m2 new2 pr1 at1 st2 ok2 Inl by auto
  next
    case (Inr u)
    then have "m' = m\<^sub>3" "out = (case commit_groups commit_group out\<^sub>3 of Inl err \<Rightarrow> Inl err | Inr _ \<Rightarrow> Inr out\<^sub>3)"
      using assms(4) by (auto simp: end_txn_def prep mark res split: sum.splits)
    then show ?thesis using r(1) new3 pr3 at3 st3 commit_groups_ok [of commit_group out\<^sub>3] by auto
  qed
qed

lemma init_no_rollback:
  assumes "wf_meta m" and "newest_epoch m tid e" and "\<And>d. detail_at m tid e = Some d \<Longrightarrow> state d \<noteq> Some Begin"
  shows "fst (init_transactional tid timeout_ms pid epoch m) \<noteq> Inr (NeedToRollback open_id open_epoch)"
proof -
  obtain d where d: "detail_at m tid e = Some d" using assms(2) by (auto simp: newest_epoch_def)
  then obtain t where t: "bt_get (transactions m) tid = Some t" by (auto simp: detail_at_def bind_eq_Some_conv)
  have "current_detail m tid (producer t) e = Inr (t, d)" using current_detail_iff [OF assms(1)] t d assms(2) by blast
  then have "next_back (epochs t) = Some (e, d)" by (auto simp: current_detail_def t split: option.splits if_splits)
  then show ?thesis using assms(3) [OF d] t by (simp add: init_transactional_def init_occupied_def Let_def)
qed

lemma init_rollback:
  assumes "wf_meta m" and "init_transactional tid timeout_ms pid epoch m = (Inr (NeedToRollback open_id open_epoch), m')"
  shows "m' = m" and "producer_of m tid = Some open_id" and "newest_epoch m tid open_epoch"
proof -
  obtain t d where t: "bt_get (transactions m) tid = Some t" "m' = m" "open_id = producer t" "next_back (epochs t) = Some (open_epoch, d)"
    using assms(2)
    by (auto simp: init_transactional_def init_vacant_def init_occupied_def Let_def split: option.splits if_splits)
  note n = next_back_get [OF wf_metaD(1) [OF assms(1) t(1)] t(4)]
  show "m' = m" and "producer_of m tid = Some open_id" and "newest_epoch m tid open_epoch"
    using t n by (auto simp: producer_of_def newest_epoch_def detail_at_def)
qed

text \<open>With the newest epoch not open and below the greatest \<open>i16\<close>, a new epoch is handed out.\<close>

definition hands_out :: "meta \<Rightarrow> meta \<Rightarrow> string \<Rightarrow> int \<Rightarrow> producer_id_response \<Rightarrow> bool" where
  "hands_out m m' tid timeout_ms response \<longleftrightarrow>
     pr_error response = InitNone \<and> newest_epoch m' tid (pr_epoch response) \<and> detail_at m tid (pr_epoch response) = None \<and>
     detail_at m' tid (pr_epoch response) = Some (detail_default timeout_ms) \<and> producer_of m' tid = Some (pr_id response)"

lemma init_hands_out:
  assumes "wf_meta m" and "\<And>e d. newest_epoch m tid e \<Longrightarrow> detail_at m tid e = Some d \<Longrightarrow> state d \<noteq> Some Begin"
    and "\<And>e. detail_at m tid e \<noteq> None \<Longrightarrow> - (2 ^ 15) \<le> e \<and> e < 2 ^ 15 - 1"
  shows "\<exists>response m'. init_transactional tid timeout_ms (Some (-1)) (Some (-1)) m = (Inr (Completed response), m') \<and>
    hands_out m m' tid timeout_ms response"
proof (cases "bt_get (transactions m) tid")
  case None
  then show ?thesis
    by (auto simp: hands_out_def init_transactional_def init_vacant_def Let_def newest_epoch_def detail_at_def producer_of_def bt_get_insert)
next
  case (Some t)
  note wf = wf_metaD [OF assms(1) Some]
  obtain k d where n: "next_back (epochs t) = Some (k, d)" using wf(2) by (cases "last (epochs t)") (simp add: next_back_def)
  note top = next_back_get [OF wf(1) n]
  have new: "newest_epoch m tid k" "detail_at m tid k = Some d" using top by (auto simp: newest_epoch_def detail_at_def Some)
  have k: "wrapping_add_i16 k 1 = k + 1" using assms(3) [of k] new(2) by (simp add: wrapping_add_i16_def)
  have free: "bt_get (epochs t) (k + 1) = None" using top(2) [of "k + 1"] by (cases "bt_get (epochs t) (k + 1)") auto
  then have "bt_get (sequences pd) (k + 1) = None" if "bt_get (producers m) (producer t) = Some pd" for pd
    using wf_sequencesD [OF assms(1) Some that] by blast
  then have "\<not> is_some_and (bt_get (producers m) (producer t)) (\<lambda>pd. bt_get (sequences pd) (k + 1) \<noteq> None)"
    by (auto simp: is_some_and_def split: option.splits)
  then have "init_transactional tid timeout_ms (Some (-1)) (Some (-1)) m =
      (Inr (Completed \<lparr> pr_error = InitNone, pr_id = producer t, pr_epoch = k + 1 \<rparr>), snd (init_occupied tid timeout_ms t m))"
    using assms(2) [OF new] free by (simp add: init_transactional_def Some init_occupied_def n k Let_def)
  moreover have "transactions (snd (init_occupied tid timeout_ms t m)) =
      bt_insert tid (t\<lparr>epochs := bt_insert (k + 1) (detail_default timeout_ms) (epochs t)\<rparr>) (transactions m)"
    using assms(2) [OF new] free calculation by (simp add: init_transactional_def Some init_occupied_def n k Let_def split: if_splits)
  ultimately show ?thesis using top(2) free
    by (auto simp: hands_out_def newest_epoch_def detail_at_def producer_of_def bt_get_insert Some split: if_splits) fastforce
qed

lemma init_open_rolls_back:
  assumes "wf_meta m" and "newest_epoch m tid e" and "detail_at m tid e = Some d" and "state d = Some Begin"
  shows "\<exists>open_id. init_transactional tid timeout_ms (Some (-1)) (Some (-1)) m = (Inr (NeedToRollback open_id e), m)"
proof -
  obtain t where t: "bt_get (transactions m) tid = Some t" using assms(3) by (auto simp: detail_at_def bind_eq_Some_conv)
  have "current_detail m tid (producer t) e = Inr (t, d)" using current_detail_iff [OF assms(1)] t assms(2,3) by blast
  then have "next_back (epochs t) = Some (e, d)" by (auto simp: current_detail_def t split: option.splits if_splits)
  then show ?thesis using assms(4) t by (simp add: init_transactional_def init_occupied_def)
qed

lemma init_without_rollback:
  assumes "wf_meta m" and "\<And>oi oe. fst (init_transactional tid timeout_ms pid epoch m) \<noteq> Inr (NeedToRollback oi oe)"
  shows "\<exists>res m'. (\<forall>calls. init_producer_id (Suc calls) marker commit_group seeded (Some tid) timeout_ms pid epoch m = Some (res, m')) \<and>
    (pid = Some (-1) \<and> epoch = Some (-1) \<and> (\<forall>r. seeded r = Inr ()) \<and>
       (\<forall>e. detail_at m tid e \<noteq> None \<longrightarrow> - (2 ^ 15) \<le> e \<and> e < 2 ^ 15 - 1) \<longrightarrow>
     (\<exists>response. res = Inr response \<and> hands_out m m' tid timeout_ms response))"
proof -
  obtain out m' where i: "init_transactional tid timeout_ms pid epoch m = (out, m')" by fastforce
  define res where "res = (case out of Inl err \<Rightarrow> Inl err | Inr (Completed response) \<Rightarrow>
    rbind (seed_producer seeded response) (\<lambda>_. Inr response) | _ \<Rightarrow> Inl (ApiError Panic))"
  show ?thesis
  proof (intro exI [of _ res] exI [of _ m'] conjI impI allI)
    show "init_producer_id (Suc calls) marker commit_group seeded (Some tid) timeout_ms pid epoch m = Some (res, m')" for calls
      using assms(2) by (auto simp: i res_def split: sum.splits init_producer.splits)
    assume h: "pid = Some (-1) \<and> epoch = Some (-1) \<and> (\<forall>r. seeded r = Inr ()) \<and>
       (\<forall>e. detail_at m tid e \<noteq> None \<longrightarrow> - (2 ^ 15) \<le> e \<and> e < 2 ^ 15 - 1)"
    have "state d \<noteq> Some Begin" if "newest_epoch m tid e" "detail_at m tid e = Some d" for e d
      using init_open_rolls_back [OF assms(1) that, of timeout_ms] assms(2) h by force
    then obtain response m'' where r: "init_transactional tid timeout_ms (Some (-1)) (Some (-1)) m = (Inr (Completed response), m'')"
      "hands_out m m'' tid timeout_ms response"
      using init_hands_out [OF assms(1), of tid timeout_ms] h by blast
    then have "out = Inr (Completed response)" "m' = m''" using i h by simp_all
    then show "\<exists>response. res = Inr response \<and> hands_out m m' tid timeout_ms response"
      using h r(2) by (simp add: res_def seed_producer_def)
  qed
qed

text \<open>
  C23. \<open>InitProducerId\<close> returns: it calls itself at most once, since the transaction it rolls back is no
  longer open, so two levels give the answer and more change nothing. When the log takes the markers
  and the stores answer, and the epochs of the id are below the greatest \<open>i16\<close>, the answer is an epoch
  newer than every one handed out before, for the producer of the id, with nothing open on it.
\<close>
theorem init_producer_id_returns:
  assumes "wf_meta m"
  shows "\<exists>res m'. (\<forall>calls. init_producer_id (calls + 2) marker commit_group seeded (Some tid) timeout_ms pid epoch m = Some (res, m')) \<and>
    (pid = Some (-1) \<and> epoch = Some (-1) \<and> (\<forall>tp. \<exists>offset. marker tp = Inr offset) \<and>
       (\<forall>grp os. commit_group grp os = Inr ()) \<and> (\<forall>r. seeded r = Inr ()) \<and>
       (\<forall>e. detail_at m tid e \<noteq> None \<longrightarrow> - (2 ^ 15) \<le> e \<and> e < 2 ^ 15 - 1) \<longrightarrow>
     (\<exists>response. res = Inr response \<and> hands_out m m' tid timeout_ms response))"
proof (cases "\<exists>oi oe. fst (init_transactional tid timeout_ms pid epoch m) = Inr (NeedToRollback oi oe)")
  case False
  then have no: "\<And>oi oe. fst (init_transactional tid timeout_ms pid epoch m) \<noteq> Inr (NeedToRollback oi oe)" by blast
  from init_without_rollback [OF assms no, of marker commit_group seeded] show ?thesis by fastforce
next
  case True
  then obtain oi oe m\<^sub>1 where i: "init_transactional tid timeout_ms pid epoch m = (Inr (NeedToRollback oi oe), m\<^sub>1)"
    by (metis prod.collapse)
  note rb = init_rollback [OF assms i]
  obtain out m\<^sub>2 where e: "end_txn marker commit_group tid oi oe False m = (out, m\<^sub>2)" by fastforce
  note k = end_txn_keeps [OF assms rb(2,3) e]
  show ?thesis
  proof (cases out)
    case (Inl err)
    then show ?thesis using k by (intro exI [of _ "Inl err"] exI [of _ m\<^sub>2]) (auto simp: i rb(1) e)
  next
    case (Inr os)
    have wf: "wf_meta m\<^sub>2" and new: "newest_epoch m\<^sub>2 tid oe"
      and closed: "\<And>d. detail_at m\<^sub>2 tid oe = Some d \<Longrightarrow> state d \<noteq> Some Begin"
      and same: "\<And>e. detail_at m\<^sub>2 tid e \<noteq> None \<longleftrightarrow> detail_at m tid e \<noteq> None" using k by blast+
    obtain res m' where r: "\<And>calls. init_producer_id (Suc calls) marker commit_group seeded (Some tid) timeout_ms pid epoch m\<^sub>2 = Some (res, m')"
      "pid = Some (-1) \<and> epoch = Some (-1) \<and> (\<forall>r. seeded r = Inr ()) \<and>
       (\<forall>e. detail_at m\<^sub>2 tid e \<noteq> None \<longrightarrow> - (2 ^ 15) \<le> e \<and> e < 2 ^ 15 - 1) \<longrightarrow>
       (\<exists>response. res = Inr response \<and> hands_out m\<^sub>2 m' tid timeout_ms response)"
      using init_without_rollback [OF wf init_no_rollback [OF wf new closed], where timeout_ms = timeout_ms and pid = pid
          and epoch = epoch and marker = marker and commit_group = commit_group and seeded = seeded] by blast
    have "init_producer_id (calls + 2) marker commit_group seeded (Some tid) timeout_ms pid epoch m = Some (res, m')" for calls
      using r(1) [of calls] by (simp add: i rb(1) e Inr)
    moreover have "hands_out m\<^sub>2 m' tid timeout_ms response \<Longrightarrow> hands_out m m' tid timeout_ms response" for response
      using same [of "pr_epoch response"] by (auto simp: hands_out_def)
    ultimately show ?thesis using r(2) same by (intro exI [of _ res] exI [of _ m']) auto
  qed
qed

theorem init_producer_id_returns_witness:
  "\<exists>response m'. init_producer_id 2 (\<lambda>_. Inr 2) (\<lambda>_ _. Inr ()) (\<lambda>_. Inr ()) (Some ''a'') 60 (Some (-1)) (Some (-1)) sample_open
       = Some (Inr response, m') \<and> hands_out sample_open m' ''a'' 60 response"
proof -
  have "- (2 ^ 15) \<le> e \<and> e < 2 ^ 15 - 1" if "detail_at sample_open ''a'' e \<noteq> None" for e
    using sample_open_details(3) [OF that] by simp
  then show ?thesis
    using init_producer_id_returns [OF sample_open_details(1), of "\<lambda>_. Inr 2" "\<lambda>_ _. Inr ()" "\<lambda>_. Inr ()" "''a''" 60 "Some (-1)" "Some (-1)"]
    by (metis add_0)
qed

end
