(* ===== verification/Assignor.thy ===== *)
theory Assignor
  imports BTreeMap "HOL-Library.Char_ord" "HOL-Library.List_Lexorder" "HOL-Library.Product_Lexorder"
    "HOL-Library.Signed_Division"
begin

text \<open>
  The server-side assignors of consumer groups (\<open>tansu-broker/src/coordinator/group/assignor.rs\<close>):
  \<open>range\<close>, contiguous ranges of each topic, and \<open>uniform\<close>, which keeps what a member held, gives the
  rest to the least loaded subscriber and then moves partitions while a move narrows a gap. A
  \<open>BTreeSet\<close> is its ascending list.
\<close>

section \<open>Data\<close>

type_synonym topic_id = bytes
type_synonym member_id = string
type_synonym partitions = "(topic_id, int list) btree"
type_synonym assignment = "(member_id, partitions) btree"
type_synonym owners = "(topic_id \<times> int, member_id) btree"

record member_spec =
  ms_subscribed :: "topic_id list"
  ms_previous :: partitions

type_synonym members = "(member_id, member_spec) btree"

definition UNIFORM :: string where "UNIFORM = ''uniform''"
definition RANGE :: string where "RANGE = ''range''"

definition assignor_is_supported :: "string \<Rightarrow> bool" where
  "assignor_is_supported name \<longleftrightarrow> name = UNIFORM \<or> name = RANGE"

definition subscribers :: "members \<Rightarrow> topic_id \<Rightarrow> members" where
  "subscribers members t = filter (\<lambda>(_, spec). t \<in> set (ms_subscribed spec)) members"

definition nothing_assigned :: "members \<Rightarrow> assignment" where
  "nothing_assigned members = map (\<lambda>(m, _). (m, [])) members"

definition or_default :: "'v \<Rightarrow> 'v option \<Rightarrow> 'v" where
  "or_default d v = (case v of None \<Rightarrow> d | Some x \<Rightarrow> x)"

section \<open>Range\<close>

fun range_members :: "topic_id \<Rightarrow> int \<Rightarrow> int \<Rightarrow> int \<Rightarrow> int \<Rightarrow> member_id list \<Rightarrow> assignment \<Rightarrow> assignment" where
  "range_members t quota extra index next_p [] assigned = assigned"
| "range_members t quota extra index next_p (m # ms) assigned =
     (let width = quota + (if index < extra then 1 else 0);
          assigned' =
            (if 0 < width then
               (case bt_get assigned m of
                  None \<Rightarrow> assigned
                | Some ps \<Rightarrow>
                    bt_insert m
                      (bt_insert t (fold vec_insert [next_p .. next_p + width - 1] (or_default [] (bt_get ps t))) ps)
                      assigned)
             else assigned)
      in range_members t quota extra (index + 1) (next_p + width) ms assigned')"

definition range_topic :: "members \<Rightarrow> topic_id \<times> int \<Rightarrow> assignment \<Rightarrow> assignment" where
  "range_topic members = (\<lambda>(t, partitions) assigned.
     let subs = map fst (subscribers members t);
         count = int (length subs)
     in if \<not> fits_s 4 count \<or> count = 0 then assigned
        else range_members t (partitions sdiv count) (partitions smod count) 0 0 subs assigned)"

definition range_assign :: "members \<Rightarrow> (topic_id, int) btree \<Rightarrow> assignment" where
  "range_assign members topics = fold (range_topic members) topics (nothing_assigned members)"

section \<open>Uniform\<close>

text \<open>\<open>Iterator::min_by_key\<close>: the first element with the least key.\<close>

fun min_by_key :: "('a \<Rightarrow> 'k::linorder) \<Rightarrow> 'a list \<Rightarrow> 'a option" where
  "min_by_key f [] = None"
| "min_by_key f (x # xs) =
     (case min_by_key f xs of None \<Rightarrow> Some x | Some y \<Rightarrow> if f y < f x then Some y else Some x)"

type_synonym loads = "member_id \<rightharpoonup> nat"

definition load_of :: "loads \<Rightarrow> member_id \<Rightarrow> nat" where
  "load_of load m = or_default 0 (load m)"

definition least_loaded :: "members \<Rightarrow> loads \<Rightarrow> topic_id \<Rightarrow> member_id option" where
  "least_loaded members load t =
     map_option fst (min_by_key (\<lambda>(m, _). (load_of load m, m)) (subscribers members t))"

definition keep_partition :: "member_id \<Rightarrow> topic_id \<Rightarrow> int \<Rightarrow> owners \<Rightarrow> owners" where
  "keep_partition m t p owner =
     (case bt_get owner (t, p) of None \<Rightarrow> bt_insert (t, p) m owner | Some _ \<Rightarrow> owner)"

definition keep_topic ::
    "(topic_id, int) btree \<Rightarrow> member_id \<Rightarrow> member_spec \<Rightarrow> topic_id \<times> int list \<Rightarrow> owners \<Rightarrow> owners" where
  "keep_topic topics m spec = (\<lambda>(t, ps) owner.
     case bt_get topics t of
       None \<Rightarrow> owner
     | Some count \<Rightarrow>
         if t \<notin> set (ms_subscribed spec) then owner
         else fold (keep_partition m t) (filter (\<lambda>p. p < count) ps) owner)"

definition keep_member :: "(topic_id, int) btree \<Rightarrow> member_id \<times> member_spec \<Rightarrow> owners \<Rightarrow> owners" where
  "keep_member topics = (\<lambda>(m, spec) owner. fold (keep_topic topics m spec) (ms_previous spec) owner)"

definition kept_owners :: "members \<Rightarrow> (topic_id, int) btree \<Rightarrow> owners" where
  "kept_owners members topics = fold (keep_member topics) members []"

definition count_load :: "member_id \<Rightarrow> loads \<Rightarrow> loads" where
  "count_load m load = (case load m of None \<Rightarrow> load | Some n \<Rightarrow> load(m \<mapsto> n + 1))"

definition kept_loads :: "members \<Rightarrow> owners \<Rightarrow> loads" where
  "kept_loads members owner =
     fold (\<lambda>(_, m). count_load m) owner (map_of (map (\<lambda>(m, _). (m, 0)) members))"

definition fill_partition :: "members \<Rightarrow> topic_id \<Rightarrow> int \<Rightarrow> owners \<times> loads \<Rightarrow> owners \<times> loads" where
  "fill_partition members t p = (\<lambda>(owner, load).
     if bt_get owner (t, p) \<noteq> None then (owner, load)
     else (case least_loaded members load t of
             None \<Rightarrow> (owner, load)
           | Some m \<Rightarrow> (bt_insert (t, p) m owner, load(m \<mapsto> load_of load m + 1))))"

definition fill_topic :: "members \<Rightarrow> topic_id \<times> int \<Rightarrow> owners \<times> loads \<Rightarrow> owners \<times> loads" where
  "fill_topic members = (\<lambda>(t, count) st. fold (fill_partition members t) [0 .. count - 1] st)"

type_synonym move = "(topic_id \<times> int) \<times> member_id \<times> member_id"

definition move_step ::
    "members \<Rightarrow> loads \<Rightarrow> (topic_id \<times> int) \<times> member_id \<Rightarrow> (nat \<times> move) option \<Rightarrow> (nat \<times> move) option" where
  "move_step members load = (\<lambda>(k, src) best.
     case least_loaded members load (fst k) of
       None \<Rightarrow> best
     | Some dst \<Rightarrow>
         let gap = load_of load src - load_of load dst
         in if 2 \<le> gap \<and> (case best of None \<Rightarrow> True | Some (held, _) \<Rightarrow> held < gap)
            then Some (gap, k, src, dst) else best)"

definition improving_move :: "members \<Rightarrow> owners \<Rightarrow> loads \<Rightarrow> move option" where
  "improving_move members owner load = map_option snd (fold (move_step members load) owner None)"

lemma min_by_key_mem: "min_by_key f xs = Some x \<Longrightarrow> x \<in> set xs"
  by (induction f xs arbitrary: x rule: min_by_key.induct) (auto split: option.splits if_splits)

lemma least_loaded_member: "least_loaded members load t = Some m \<Longrightarrow> m \<in> fst ` set (subscribers members t)"
  by (force simp: least_loaded_def dest!: min_by_key_mem)

lemma fold_move_step:
  "fold (move_step members load) ks best = Some (gap, k, src, dst) \<Longrightarrow>
   best = Some (gap, k, src, dst) \<or>
   (k, src) \<in> set ks \<and> least_loaded members load (fst k) = Some dst \<and> load_of load dst + 2 \<le> load_of load src"
proof (induction ks arbitrary: best)
  case (Cons x ks)
  have "move_step members load x best = Some (gap, k, src, dst) \<Longrightarrow> ?case"
    by (auto simp: move_step_def Let_def split: option.splits if_splits prod.splits)
  with Cons show ?case by fastforce
qed simp

lemma improving_moveD:
  assumes "improving_move members owner load = Some (k, src, dst)"
  shows "(k, src) \<in> set owner" "least_loaded members load (fst k) = Some dst"
    "load_of load dst + 2 \<le> load_of load src"
proof -
  obtain gap where "fold (move_step members load) owner None = Some (gap, k, src, dst)"
    using assms by (auto simp: improving_move_def)
  from fold_move_step [OF this]
  show "(k, src) \<in> set owner" "least_loaded members load (fst k) = Some dst"
    "load_of load dst + 2 \<le> load_of load src" by auto
qed

definition move_load :: "member_id \<Rightarrow> member_id \<Rightarrow> loads \<Rightarrow> loads" where
  "move_load src dst load =
     (let load = load(src \<mapsto> load_of load src - 1) in load(dst \<mapsto> load_of load dst + 1))"

lemma bt_insert_values: "snd ` set (bt_insert k v m) \<subseteq> insert v (snd ` set m)"
  by (induction k v m rule: bt_insert.induct) auto

lemma square_move: "(b::nat) + 2 \<le> a \<Longrightarrow> (a - 1) ^ 2 + (b + 1) ^ 2 < a ^ 2 + b ^ 2"
proof -
  assume "b + 2 \<le> a"
  then obtain c where "a = b + 2 + c" using le_Suc_ex by blast
  then show ?thesis by (simp add: power2_eq_square algebra_simps)
qed

lemma move_lowers_squares:
  assumes fin: "finite A" and src: "src \<in> A" and dst: "dst \<in> A" and gap: "load_of load dst + 2 \<le> load_of load src"
  shows "(\<Sum>m\<in>A. (load_of (move_load src dst load) m)\<^sup>2) < (\<Sum>m\<in>A. (load_of load m)\<^sup>2)"
proof -
  let ?l = "load_of load" and ?l' = "load_of (move_load src dst load)"
  have ne: "src \<noteq> dst" using gap by auto
  have l': "?l' m = (if m = src then ?l src - 1 else if m = dst then ?l dst + 1 else ?l m)" for m
    using ne by (simp add: move_load_def load_of_def or_default_def Let_def)
  have split: "(\<Sum>m\<in>A. f m) = f src + (f dst + (\<Sum>m\<in>A - {src} - {dst}. f m))" for f :: "member_id \<Rightarrow> nat"
    using fin src dst ne by (subst sum.remove [of A src], simp_all, subst sum.remove [of "A - {src}" dst], simp_all)
  have "(\<Sum>m\<in>A - {src} - {dst}. (?l' m)\<^sup>2) = (\<Sum>m\<in>A - {src} - {dst}. (?l m)\<^sup>2)"
    by (rule sum.cong) (auto simp: l')
  then show ?thesis
    using square_move [OF gap] ne by (simp only: split) (simp add: l')
qed

text \<open>
  The last step of \<open>uniform\<close>. It ends because every move lowers the sum of the squared loads of the
  members and owners, whatever loads it starts from.
\<close>

function balance :: "members \<Rightarrow> owners \<Rightarrow> loads \<Rightarrow> owners \<times> loads" where
  "balance members owner load =
     (case improving_move members owner load of
        None \<Rightarrow> (owner, load)
      | Some (k, src, dst) \<Rightarrow> balance members (bt_insert k dst owner) (move_load src dst load))"
  by pat_completeness auto

termination balance
proof (relation "measure (\<lambda>(members, owner, load). \<Sum>m\<in>fst ` set members \<union> snd ` set owner. (load_of load m)\<^sup>2)")
  fix members :: members and owner :: owners and load x k src dst y
  assume s: "improving_move members owner load = Some x" and y: "(k, y) = x" "(src, dst) = y"
  note m = improving_moveD [OF s [folded y(1), folded y(2)]]
  let ?A = "fst ` set members \<union> snd ` set owner"
  let ?B = "fst ` set members \<union> snd ` set (bt_insert k dst owner)"
  have dst: "dst \<in> fst ` set members" using least_loaded_member [OF m(2)] by (auto simp: subscribers_def)
  then have "?B \<subseteq> ?A" using bt_insert_values [of k dst owner] by auto
  then have "(\<Sum>m\<in>?B. (load_of (move_load src dst load) m)\<^sup>2) \<le> (\<Sum>m\<in>?A. (load_of (move_load src dst load) m)\<^sup>2)"
    by (intro sum_mono2) auto
  also have "\<dots> < (\<Sum>m\<in>?A. (load_of load m)\<^sup>2)"
    using dst imageI [OF m(1), of snd] by (intro move_lowers_squares [OF _ _ _ m(3)]) auto
  finally show "((members, bt_insert k dst owner, move_load src dst load), (members, owner, load))
      \<in> measure (\<lambda>(members, owner, load). \<Sum>m\<in>fst ` set members \<union> snd ` set owner. (load_of load m)\<^sup>2)"
    by simp
qed simp

definition assign_owned :: "(topic_id \<times> int) \<times> member_id \<Rightarrow> assignment \<Rightarrow> assignment" where
  "assign_owned = (\<lambda>((t, p), m) assigned.
     let ps = or_default [] (bt_get assigned m)
     in bt_insert m (bt_insert t (vec_insert p (or_default [] (bt_get ps t))) ps) assigned)"

definition uniform_owners :: "members \<Rightarrow> (topic_id, int) btree \<Rightarrow> owners \<times> loads" where
  "uniform_owners members topics =
     (let owner = kept_owners members topics;
          load = kept_loads members owner;
          (owner, load) = fold (fill_topic members) topics (owner, load)
      in balance members owner load)"

definition uniform_assign :: "members \<Rightarrow> (topic_id, int) btree \<Rightarrow> assignment" where
  "uniform_assign members topics =
     fold assign_owned (fst (uniform_owners members topics)) (nothing_assigned members)"

definition assign :: "string \<Rightarrow> members \<Rightarrow> (topic_id, int) btree \<Rightarrow> assignment" where
  "assign assignor members topics =
     (if assignor = RANGE then range_assign members topics else uniform_assign members topics)"

section \<open>Lemmas on the owners\<close>

definition subscribes :: "members \<Rightarrow> member_id \<Rightarrow> topic_id \<Rightarrow> bool" where
  "subscribes members m t \<longleftrightarrow> m \<in> fst ` set (subscribers members t)"

definition owned_count :: "owners \<Rightarrow> member_id \<Rightarrow> nat" where
  "owned_count owner m = card {k. bt_get owner k = Some m}"

lemma finite_owned [simp]: "finite {k. bt_get owner k = Some m}"
  by (rule finite_subset [of _ "fst ` set owner"]) (auto simp: bt_get_def dest!: map_of_SomeD intro: rev_image_eqI)

lemma owned_count_new: "bt_get owner k = None \<Longrightarrow> owned_count (bt_insert k m owner) m' = owned_count owner m' + (if m' = m then 1 else 0)"
proof -
  assume n: "bt_get owner k = None"
  have "{k'. bt_get (bt_insert k m owner) k' = Some m'}
      = (if m' = m then insert k {k'. bt_get owner k' = Some m'} else {k'. bt_get owner k' = Some m'})"
    using n by (auto simp: bt_get_insert split: if_splits)
  then show ?thesis using n by (simp add: owned_count_def)
qed

lemma owned_count_move:
  assumes "bt_get owner k = Some src" and "src \<noteq> dst"
  shows "owned_count (bt_insert k dst owner) m = (if m = src then owned_count owner src - 1 else if m = dst then owned_count owner dst + 1 else owned_count owner m)"
proof -
  have "{k'. bt_get (bt_insert k dst owner) k' = Some m}
      = (if m = src then {k'. bt_get owner k' = Some src} - {k}
         else if m = dst then insert k {k'. bt_get owner k' = Some dst} else {k'. bt_get owner k' = Some m})"
    using assms by (auto simp: bt_get_insert split: if_splits)
  then show ?thesis using assms by (simp add: owned_count_def)
qed

lemma owned_count_length: "bt_inv owner \<Longrightarrow> owned_count owner m = length (filter (\<lambda>(_, m'). m' = m) owner)"
proof -
  assume inv: "bt_inv owner"
  let ?f = "filter (\<lambda>(_, m'). m' = m) owner"
  have "{k. bt_get owner k = Some m} = set (map fst ?f)"
    using inv by (force simp: bt_get_in)
  moreover have "distinct (map fst ?f)"
    using bt_inv_distinct [OF inv] by (rule distinct_map_filter)
  ultimately show ?thesis using distinct_card [of "map fst ?f"] by (simp add: owned_count_def)
qed

lemma fold_count_load:
  "fold (\<lambda>(_, m). count_load m) ks load m = map_option (\<lambda>n. n + length (filter (\<lambda>(_, m'). m' = m) ks)) (load m)"
  by (induction ks arbitrary: load) (auto simp: count_load_def option.map_comp o_def option.map_ident split: option.split)

lemma kept_loads_count:
  assumes "bt_inv owner" and "m \<in> fst ` set members"
  shows "kept_loads members owner m = Some (owned_count owner m)"
proof -
  have "map_of (map (\<lambda>(m, _). (m, 0)) members) m = Some (0::nat)"
    using assms(2) by (induction members) auto
  then show ?thesis by (simp add: kept_loads_def fold_count_load owned_count_length [OF assms(1)])
qed

definition owners_inv :: "members \<Rightarrow> (topic_id, int) btree \<Rightarrow> owners \<Rightarrow> bool" where
  "owners_inv members topics owner \<longleftrightarrow> bt_inv owner \<and>
     (\<forall>t p m. bt_get owner (t, p) = Some m \<longrightarrow>
        subscribes members m t \<and> (\<exists>count. bt_get topics t = Some count \<and> 0 \<le> p \<and> p < count))"

definition loads_inv :: "members \<Rightarrow> owners \<Rightarrow> loads \<Rightarrow> bool" where
  "loads_inv members owner load \<longleftrightarrow> (\<forall>m \<in> fst ` set members. load m = Some (owned_count owner m))"

lemma owners_invD:
  assumes "owners_inv members topics owner"
  shows "bt_inv owner" "bt_get owner (t, p) = Some m \<Longrightarrow> subscribes members m t"
    "bt_get owner (t, p) = Some m \<Longrightarrow> \<exists>count. bt_get topics t = Some count \<and> 0 \<le> p \<and> p < count"
  using assms unfolding owners_inv_def by blast+

lemma owners_inv_insert:
  assumes "owners_inv members topics owner" and "subscribes members m t"
    and "bt_get topics t = Some count" and "0 \<le> p" and "p < count"
  shows "owners_inv members topics (bt_insert (t, p) m owner)"
  using assms unfolding owners_inv_def by (simp add: bt_inv_insert bt_get_insert)

lemma subscribes_member: "subscribes members m t \<Longrightarrow> m \<in> fst ` set members"
  by (auto simp: subscribes_def subscribers_def)

lemma least_loaded_subscribes: "least_loaded members load t = Some m \<Longrightarrow> subscribes members m t"
  unfolding subscribes_def by (rule least_loaded_member)

lemma min_by_key_None: "min_by_key f xs = None \<longleftrightarrow> xs = []"
  by (induction xs) (auto split: option.splits)

lemma min_by_key_le: "min_by_key f xs = Some x \<Longrightarrow> y \<in> set xs \<Longrightarrow> f x \<le> f y"
proof (induction xs arbitrary: x)
  case (Cons z xs)
  show ?case
  proof (cases "min_by_key f xs")
    case None
    then show ?thesis using Cons.prems by (simp add: min_by_key_None)
  next
    case (Some w)
    have "y \<in> set xs \<Longrightarrow> f w \<le> f y" using Cons.IH [OF Some] .
    then show ?thesis using Cons.prems Some by (auto split: if_splits)
  qed
qed simp

lemma least_loaded_le:
  assumes "least_loaded members load t = Some a" and "subscribes members b t"
  shows "load_of load a \<le> load_of load b"
proof -
  obtain spec where "min_by_key (\<lambda>(m, _). (load_of load m, m)) (subscribers members t) = Some (a, spec)"
    using assms(1) by (auto simp: least_loaded_def)
  moreover obtain spec' where "(b, spec') \<in> set (subscribers members t)"
    using assms(2) by (auto simp: subscribes_def)
  ultimately have "(\<lambda>(m, _). (load_of load m, m)) (a, spec) \<le> (\<lambda>(m, _). (load_of load m, m)) (b, spec')"
    by (rule min_by_key_le)
  then show ?thesis by (auto simp: less_eq_prod_def)
qed

lemma least_loaded_None: "least_loaded members load t = None \<longleftrightarrow> (\<forall>m. \<not> subscribes members m t)"
  by (auto simp: least_loaded_def min_by_key_None subscribes_def)

subsection \<open>What is kept\<close>

definition claims :: "members \<Rightarrow> (topic_id, int) btree \<Rightarrow> member_id \<Rightarrow> topic_id \<Rightarrow> int \<Rightarrow> bool" where
  "claims members topics m t p \<longleftrightarrow>
     (\<exists>spec ps count. (m, spec) \<in> set members \<and> (t, ps) \<in> set (ms_previous spec) \<and> bt_get topics t = Some count \<and>
        t \<in> set (ms_subscribed spec) \<and> p \<in> set ps \<and> p < count)"

definition extends :: "owners \<Rightarrow> owners \<Rightarrow> (topic_id \<Rightarrow> int \<Rightarrow> member_id \<Rightarrow> bool) \<Rightarrow> bool" where
  "extends owner owner' P \<longleftrightarrow> (bt_inv owner \<longrightarrow> bt_inv owner') \<and>
     (\<forall>t p m. bt_get owner (t, p) = Some m \<longrightarrow> bt_get owner' (t, p) = Some m) \<and>
     (\<forall>t p m. bt_get owner' (t, p) = Some m \<longrightarrow> bt_get owner (t, p) = Some m \<or> P t p m) \<and>
     (\<forall>t p m. P t p m \<longrightarrow> bt_get owner' (t, p) \<noteq> None)"

lemma extendsD:
  assumes "extends a b P"
  shows "bt_inv a \<Longrightarrow> bt_inv b" "bt_get a (t, p) = Some m \<Longrightarrow> bt_get b (t, p) = Some m"
    "bt_get b (t, p) = Some m \<Longrightarrow> bt_get a (t, p) = Some m \<or> P t p m" "P t p m \<Longrightarrow> bt_get b (t, p) \<noteq> None"
  using assms unfolding extends_def by blast+

lemma extends_refl: "(\<And>t p m. \<not> P t p m) \<Longrightarrow> extends owner owner P"
  by (simp add: extends_def)

lemma extends_trans:
  assumes "extends a b P" and "extends b c Q"
  shows "extends a c (\<lambda>t p m. P t p m \<or> Q t p m)"
proof -
  note a = assms(1) [unfolded extends_def] and b = assms(2) [unfolded extends_def]
  have "bt_get c (t, p) \<noteq> None" if "P t p m" for t p m
  proof -
    obtain m' where "bt_get b (t, p) = Some m'" using a \<open>P t p m\<close> by blast
    then have "bt_get c (t, p) = Some m'" using b by blast
    then show ?thesis by simp
  qed
  moreover have "bt_inv a \<longrightarrow> bt_inv c" using a b by blast
  moreover have "bt_get c (t, p) = Some m" if "bt_get a (t, p) = Some m" for t p m using a b that by blast
  moreover have "bt_get a (t, p) = Some m \<or> P t p m \<or> Q t p m" if "bt_get c (t, p) = Some m" for t p m
    using a b that by blast
  moreover have "bt_get c (t, p) \<noteq> None" if "Q t p m" for t p m using b that by blast
  ultimately show ?thesis unfolding extends_def by blast
qed

lemma extends_fold:
  assumes "\<And>x owner. x \<in> set xs \<Longrightarrow> extends owner (f x owner) (P x)"
  shows "extends owner (fold f xs owner) (\<lambda>t p m. \<exists>x \<in> set xs. P x t p m)"
  using assms
proof (induction xs arbitrary: owner)
  case (Cons x xs)
  have "extends owner (f x owner) (P x)" by (simp add: Cons.prems)
  moreover have "extends (f x owner) (fold f xs (f x owner)) (\<lambda>t p m. \<exists>x \<in> set xs. P x t p m)"
    by (rule Cons.IH) (simp add: Cons.prems)
  ultimately have "extends owner (fold f xs (f x owner)) (\<lambda>t p m. P x t p m \<or> (\<exists>x \<in> set xs. P x t p m))"
    by (rule extends_trans)
  then show ?case by simp
qed (simp add: extends_refl)

lemma extends_keep_partition: "extends owner (keep_partition m t p owner) (\<lambda>t' p' m'. t' = t \<and> p' = p \<and> m' = m)"
  by (auto simp: extends_def keep_partition_def bt_get_insert bt_inv_insert split: option.split)

lemma extends_cong: "extends a b P \<Longrightarrow> (\<And>t p m. P t p m \<longleftrightarrow> Q t p m) \<Longrightarrow> extends a b Q"
  by (simp add: extends_def)

lemma extends_keep_topic:
  "extends owner (keep_topic topics m spec (t, ps) owner)
     (\<lambda>t' p m'. t' = t \<and> m' = m \<and> t \<in> set (ms_subscribed spec) \<and> p \<in> set ps \<and> (\<exists>count. bt_get topics t = Some count \<and> p < count))"
proof (cases "bt_get topics t")
  case None
  then have "keep_topic topics m spec (t, ps) owner = owner" by (simp add: keep_topic_def)
  then show ?thesis using None by (simp add: extends_def)
next
  case (Some count)
  show ?thesis
  proof (cases "t \<in> set (ms_subscribed spec)")
    case True
    have ext: "extends owner (fold (keep_partition m t) (filter (\<lambda>p. p < count) ps) owner)
        (\<lambda>t' p' m'. \<exists>p \<in> set (filter (\<lambda>p. p < count) ps). t' = t \<and> p' = p \<and> m' = m)"
      by (rule extends_fold) (rule extends_keep_partition)
    have eq: "keep_topic topics m spec (t, ps) owner = fold (keep_partition m t) (filter (\<lambda>p. p < count) ps) owner"
      using Some True by (simp add: keep_topic_def)
    show ?thesis unfolding eq by (rule extends_cong [OF ext]) (use Some True in auto)
  next
    case False
    then have "keep_topic topics m spec (t, ps) owner = owner" using Some by (simp add: keep_topic_def)
    then show ?thesis using False by (simp add: extends_def)
  qed
qed

lemma extends_kept: "extends [] (kept_owners members topics) (\<lambda>t p m. claims members topics m t p)"
proof -
  have "extends owner (keep_member topics x owner) (\<lambda>t p m. claims [x] topics m t p)" for x owner
  proof -
    obtain m spec where x: "x = (m, spec)" by fastforce
    let ?P = "\<lambda>y t p m'. t = fst y \<and> m' = m \<and> fst y \<in> set (ms_subscribed spec) \<and> p \<in> set (snd y)
           \<and> (\<exists>count. bt_get topics (fst y) = Some count \<and> p < count)"
    have "extends owner (keep_topic topics m spec y owner) (?P y)" for y owner
      using extends_keep_topic [of owner topics m spec "fst y" "snd y"] by simp
    then have ext: "extends owner (fold (keep_topic topics m spec) (ms_previous spec) owner)
        (\<lambda>t p m'. \<exists>y \<in> set (ms_previous spec). ?P y t p m')"
      by (rule extends_fold)
    have "(\<exists>y \<in> set (ms_previous spec). ?P y t p m') \<longleftrightarrow> claims [x] topics m' t p" for t p m'
    proof
      assume "claims [x] topics m' t p"
      then obtain ps count where "(t, ps) \<in> set (ms_previous spec)" "?P (t, ps) t p m'" by (auto simp: claims_def x)
      then show "\<exists>y \<in> set (ms_previous spec). ?P y t p m'" by (rule bexI [rotated])
    qed (auto simp: claims_def x)
    then show ?thesis unfolding keep_member_def x prod.case by (intro extends_cong [OF ext]) (simp add: x)
  qed
  then have "extends [] (kept_owners members topics) (\<lambda>t p m. \<exists>x \<in> set members. claims [x] topics m t p)"
    unfolding kept_owners_def by (rule extends_fold)
  moreover have "(\<exists>x \<in> set members. claims [x] topics m t p) \<longleftrightarrow> claims members topics m t p" for t p m
    unfolding claims_def by auto
  ultimately show ?thesis by (rule extends_cong)
qed

lemma kept_ownersD:
  "bt_inv (kept_owners members topics)"
  "bt_get (kept_owners members topics) (t, p) = Some m \<Longrightarrow> claims members topics m t p"
  "claims members topics m t p \<Longrightarrow> bt_get (kept_owners members topics) (t, p) \<noteq> None"
proof -
  note x = extendsD [OF extends_kept [of members topics]]
  show "bt_inv (kept_owners members topics)" by (rule x(1)) (simp add: bt_inv_def)
  show "claims members topics m t p" if "bt_get (kept_owners members topics) (t, p) = Some m"
    using x(3) [OF that] by (simp add: bt_get_def)
  show "bt_get (kept_owners members topics) (t, p) \<noteq> None" if "claims members topics m t p"
    using x(4) [OF that] .
qed

subsection \<open>Filling and balancing\<close>

definition covered :: "members \<Rightarrow> (topic_id \<times> int) list \<Rightarrow> owners \<Rightarrow> bool" where
  "covered members tps owner \<longleftrightarrow>
     (\<forall>(t, p) \<in> set tps. (\<exists>m. subscribes members m t) \<longrightarrow> bt_get owner (t, p) \<noteq> None)"

definition state_inv :: "members \<Rightarrow> (topic_id, int) btree \<Rightarrow> owners \<times> loads \<Rightarrow> bool" where
  "state_inv members topics st \<longleftrightarrow> owners_inv members topics (fst st) \<and> loads_inv members (fst st) (snd st)"

lemma loads_invD: "loads_inv members owner load \<Longrightarrow> m \<in> fst ` set members \<Longrightarrow> load_of load m = owned_count owner m"
  by (auto simp: loads_inv_def load_of_def or_default_def)

lemma loads_invD2: "loads_inv members owner load \<Longrightarrow> m \<in> fst ` set members \<Longrightarrow> load m = Some (owned_count owner m)"
  unfolding loads_inv_def by blast

lemma fill_partition_step:
  assumes inv: "state_inv members topics st" and t: "bt_get topics t = Some count" "0 \<le> p" "p < count"
  shows "state_inv members topics (fill_partition members t p st)"
    and "bt_get (fst st) k \<noteq> None \<Longrightarrow> bt_get (fst (fill_partition members t p st)) k \<noteq> None"
    and "subscribes members m t \<Longrightarrow> bt_get (fst (fill_partition members t p st)) (t, p) \<noteq> None"
proof -
  obtain owner load where st: "st = (owner, load)" by fastforce
  have o: "owners_inv members topics owner" and l: "loads_inv members owner load"
    using inv by (simp_all add: state_inv_def st)
  have "state_inv members topics (fill_partition members t p st) \<and>
      (bt_get (fst st) k \<noteq> None \<longrightarrow> bt_get (fst (fill_partition members t p st)) k \<noteq> None) \<and>
      (subscribes members m t \<longrightarrow> bt_get (fst (fill_partition members t p st)) (t, p) \<noteq> None)"
  proof (cases "bt_get owner (t, p)")
    case (Some own)
    then have "fill_partition members t p st = st" by (simp add: fill_partition_def st)
    then show ?thesis using inv Some by (simp add: st)
  next
    case n: None
    show ?thesis
    proof (cases "least_loaded members load t")
      case None
      then have "fill_partition members t p st = st" using n by (simp add: fill_partition_def st)
      moreover have "\<not> subscribes members m t" using None least_loaded_None by blast
      ultimately show ?thesis using inv by simp
    next
      case (Some to)
      have sub: "subscribes members to t" using Some by (rule least_loaded_subscribes)
      have to: "load_of load to = owned_count owner to" using l subscribes_member [OF sub] by (rule loads_invD)
      have "loads_inv members (bt_insert (t, p) to owner) (load(to \<mapsto> load_of load to + 1))"
        unfolding loads_inv_def
      proof
        fix m' assume "m' \<in> fst ` set members"
        then have "load m' = Some (owned_count owner m')" by (rule loads_invD2 [OF l])
        then show "(load(to \<mapsto> load_of load to + 1)) m' = Some (owned_count (bt_insert (t, p) to owner) m')"
          by (simp add: owned_count_new [OF n] to)
      qed
      moreover have "owners_inv members topics (bt_insert (t, p) to owner)" by (rule owners_inv_insert [OF o sub t])
      moreover have "fill_partition members t p st = (bt_insert (t, p) to owner, load(to \<mapsto> load_of load to + 1))"
        using n Some by (simp add: fill_partition_def st)
      ultimately show ?thesis by (simp add: state_inv_def st bt_get_insert)
    qed
  qed
  then show "state_inv members topics (fill_partition members t p st)"
    and "bt_get (fst st) k \<noteq> None \<Longrightarrow> bt_get (fst (fill_partition members t p st)) k \<noteq> None"
    and "subscribes members m t \<Longrightarrow> bt_get (fst (fill_partition members t p st)) (t, p) \<noteq> None"
    by blast+
qed

lemma fold_fill_partition:
  assumes "state_inv members topics st" and "\<forall>(t, p) \<in> set tps. \<exists>count. bt_get topics t = Some count \<and> 0 \<le> p \<and> p < count"
  shows "state_inv members topics (fold (\<lambda>(t, p). fill_partition members t p) tps st)"
    and "covered members tps (fst (fold (\<lambda>(t, p). fill_partition members t p) tps st))"
    and "bt_get (fst st) k \<noteq> None \<Longrightarrow> bt_get (fst (fold (\<lambda>(t, p). fill_partition members t p) tps st)) k \<noteq> None"
proof -
  have "state_inv members topics (fold (\<lambda>(t, p). fill_partition members t p) tps st) \<and>
      covered members tps (fst (fold (\<lambda>(t, p). fill_partition members t p) tps st)) \<and>
      (\<forall>k. bt_get (fst st) k \<noteq> None \<longrightarrow> bt_get (fst (fold (\<lambda>(t, p). fill_partition members t p) tps st)) k \<noteq> None)"
    using assms
  proof (induction tps arbitrary: st)
    case (Cons x tps)
    obtain t p where x: "x = (t, p)" by fastforce
    obtain count where c: "bt_get topics t = Some count" "0 \<le> p" "p < count" using Cons.prems(2) x by auto
    let ?st = "fill_partition members t p st"
    note step = fill_partition_step [OF Cons.prems(1) c]
    note ih = Cons.IH [OF step(1)]
    have rest: "\<forall>(t, p) \<in> set tps. \<exists>count. bt_get topics t = Some count \<and> 0 \<le> p \<and> p < count" using Cons.prems(2) by simp
    have "covered members (x # tps) (fst (fold (\<lambda>(t, p). fill_partition members t p) tps ?st))"
      using ih [OF rest] step(3) by (auto simp: covered_def x)
    then show ?case using ih [OF rest] step(2) by (simp add: x)
  qed (simp add: covered_def)
  then show "state_inv members topics (fold (\<lambda>(t, p). fill_partition members t p) tps st)"
    and "covered members tps (fst (fold (\<lambda>(t, p). fill_partition members t p) tps st))"
    and "bt_get (fst st) k \<noteq> None \<Longrightarrow> bt_get (fst (fold (\<lambda>(t, p). fill_partition members t p) tps st)) k \<noteq> None"
    by blast+
qed

definition all_partitions :: "(topic_id, int) btree \<Rightarrow> (topic_id \<times> int) list" where
  "all_partitions topics = concat (map (\<lambda>(t, count). map (Pair t) [0 .. count - 1]) topics)"

lemma fill_topics_flat:
  "fold (fill_topic members) topics st = fold (\<lambda>(t, p). fill_partition members t p) (all_partitions topics) st"
proof (induction topics arbitrary: st)
  case (Cons x topics)
  obtain t count where x: "x = (t, count)" by fastforce
  have "fold (fill_partition members t) ps st = fold (\<lambda>(t, p). fill_partition members t p) (map (Pair t) ps) st" for ps st
    by (induction ps arbitrary: st) simp_all
  then show ?case using Cons by (simp add: all_partitions_def x fill_topic_def)
qed (simp add: all_partitions_def)

lemma all_partitions_in:
  "bt_inv topics \<Longrightarrow> (t, p) \<in> set (all_partitions topics) \<longleftrightarrow> (\<exists>count. bt_get topics t = Some count \<and> 0 \<le> p \<and> p < count)"
  by (force simp: all_partitions_def bt_get_in)

lemma move_state_inv:
  assumes inv: "state_inv members topics (owner, load)" and mv: "improving_move members owner load = Some (k, src, dst)"
  shows "state_inv members topics (bt_insert k dst owner, move_load src dst load)"
proof -
  note m = improving_moveD [OF mv]
  obtain t p where k: "k = (t, p)" by fastforce
  have o: "owners_inv members topics owner" and l: "loads_inv members owner load" using inv by (simp_all add: state_inv_def)
  have own: "bt_get owner (t, p) = Some src" using m(1) owners_invD(1) [OF o] by (simp add: bt_get_in k)
  have sub: "subscribes members dst t" using m(2) k by (simp add: least_loaded_subscribes)
  have ne: "src \<noteq> dst" using m(3) by auto
  obtain count where c: "bt_get topics t = Some count" "0 \<le> p" "p < count" using owners_invD(3) [OF o own] by blast
  have "owners_inv members topics (bt_insert k dst owner)" unfolding k by (rule owners_inv_insert [OF o sub c])
  moreover have "loads_inv members (bt_insert k dst owner) (move_load src dst load)"
    unfolding loads_inv_def
  proof
    fix m' assume m': "m' \<in> fst ` set members"
    have "load_of load src = owned_count owner src" using subscribes_member [OF owners_invD(2) [OF o own]] by (rule loads_invD [OF l])
    moreover have "load_of load dst = owned_count owner dst" using subscribes_member [OF sub] by (rule loads_invD [OF l])
    moreover have "load m' = Some (owned_count owner m')" using m' by (rule loads_invD2 [OF l])
    ultimately show "move_load src dst load m' = Some (owned_count (bt_insert k dst owner) m')"
      using ne by (simp add: k owned_count_move [OF own ne] move_load_def load_of_def Let_def)
  qed
  ultimately show ?thesis by (simp add: state_inv_def)
qed

lemma balance_result:
  assumes "state_inv members topics (owner, load)"
  shows "state_inv members topics (balance members owner load)"
    and "improving_move members (fst (balance members owner load)) (snd (balance members owner load)) = None"
    and "bt_get (fst (balance members owner load)) k \<noteq> None \<longleftrightarrow> bt_get owner k \<noteq> None"
proof -
  have "state_inv members topics (balance members owner load) \<and>
    improving_move members (fst (balance members owner load)) (snd (balance members owner load)) = None \<and>
    (bt_get (fst (balance members owner load)) k \<noteq> None \<longleftrightarrow> bt_get owner k \<noteq> None)"
    using assms
  proof (induction members owner load rule: balance.induct)
    case (1 members owner load)
    show ?case
    proof (cases "improving_move members owner load")
      case None
      then show ?thesis using 1(2) by (subst (1 2 3 4) balance.simps) simp
    next
      case (Some x)
      obtain k' src dst where x: "x = (k', src, dst)" by (metis prod_cases3)
      have mv: "improving_move members owner load = Some (k', src, dst)" using Some x by simp
      have "bt_get owner k' \<noteq> None"
        using improving_moveD(1) [OF mv] 1(2) by (auto simp: state_inv_def owners_inv_def bt_get_in)
      then show ?thesis
        using 1(1) [OF Some x [symmetric] refl] move_state_inv [OF 1(2) mv]
        by (subst (1 2 3 4) balance.simps) (auto simp: mv bt_get_insert)
    qed
  qed
  then show "state_inv members topics (balance members owner load)"
    and "improving_move members (fst (balance members owner load)) (snd (balance members owner load)) = None"
    and "bt_get (fst (balance members owner load)) k \<noteq> None \<longleftrightarrow> bt_get owner k \<noteq> None"
    by blast+
qed

section \<open>The owners that uniform ends with\<close>

definition wf_previous :: "members \<Rightarrow> bool" where
  "wf_previous members \<longleftrightarrow> (\<forall>(m, spec) \<in> set members. \<forall>(t, ps) \<in> set (ms_previous spec). \<forall>p \<in> set ps. 0 \<le> p)"

lemma wf_previousD: "wf_previous members \<Longrightarrow> claims members topics m t p \<Longrightarrow> 0 \<le> p"
  unfolding wf_previous_def claims_def by fastforce

lemma claims_subscribes: "claims members topics m t p \<Longrightarrow> subscribes members m t"
  unfolding claims_def subscribes_def subscribers_def by force

lemma kept_state_inv:
  assumes "wf_previous members"
  shows "state_inv members topics (kept_owners members topics, kept_loads members (kept_owners members topics))"
proof -
  have "owners_inv members topics (kept_owners members topics)"
    unfolding owners_inv_def
  proof (intro conjI allI impI)
    show "bt_inv (kept_owners members topics)" by (rule kept_ownersD)
    fix t p m assume "bt_get (kept_owners members topics) (t, p) = Some m"
    then have c: "claims members topics m t p" by (rule kept_ownersD)
    then show "subscribes members m t" by (rule claims_subscribes)
    show "\<exists>count. bt_get topics t = Some count \<and> 0 \<le> p \<and> p < count"
      using c wf_previousD [OF assms c] unfolding claims_def by blast
  qed
  then show ?thesis by (simp add: state_inv_def loads_inv_def kept_loads_count [OF kept_ownersD(1)])
qed

lemma uniform_owners_result:
  assumes wf: "wf_previous members" and tp: "bt_inv topics"
  shows "state_inv members topics (uniform_owners members topics)"
    and "improving_move members (fst (uniform_owners members topics)) (snd (uniform_owners members topics)) = None"
    and "covered members (all_partitions topics) (fst (uniform_owners members topics))"
proof -
  let ?kept = "(kept_owners members topics, kept_loads members (kept_owners members topics))"
  let ?filled = "fold (\<lambda>(t, p). fill_partition members t p) (all_partitions topics) ?kept"
  have "\<forall>(t, p) \<in> set (all_partitions topics). \<exists>count. bt_get topics t = Some count \<and> 0 \<le> p \<and> p < count"
    using all_partitions_in [OF tp] by blast
  note f = fold_fill_partition [OF kept_state_inv [OF wf] this]
  have u: "uniform_owners members topics = balance members (fst ?filled) (snd ?filled)"
    unfolding uniform_owners_def Let_def fill_topics_flat by (simp add: split_beta)
  have inv: "state_inv members topics (fst ?filled, snd ?filled)" using f(1) by simp
  show "state_inv members topics (uniform_owners members topics)"
    and "improving_move members (fst (uniform_owners members topics)) (snd (uniform_owners members topics)) = None"
    unfolding u by (rule balance_result [OF inv])+
  show "covered members (all_partitions topics) (fst (uniform_owners members topics))"
    using f(2) balance_result(3) [OF inv] unfolding u covered_def by blast
qed

lemma fold_move_step_Some: "best \<noteq> None \<Longrightarrow> fold (move_step members load) ks best \<noteq> None"
  by (induction ks arbitrary: best) (auto simp: move_step_def Let_def split: option.splits)

lemma no_improving_move:
  assumes "improving_move members owner load = None" and "(k, src) \<in> set owner"
    and "least_loaded members load (fst k) = Some dst"
  shows "load_of load src \<le> load_of load dst + 1"
proof (rule ccontr)
  assume gap: "\<not> load_of load src \<le> load_of load dst + 1"
  have "fold (move_step members load) owner best \<noteq> None" for best
    using assms(2)
  proof (induction owner arbitrary: best)
    case (Cons x owner)
    show ?case
    proof (cases "x = (k, src)")
      case True
      have "move_step members load x best \<noteq> None"
        using assms(3) gap by (auto simp: True move_step_def Let_def split: option.split)
      then show ?thesis using fold_move_step_Some by simp
    qed (use Cons in simp)
  qed simp
  from this [of None] assms(1) show False by (simp add: improving_move_def)
qed

section \<open>From owners to assignments\<close>

definition assigned_to :: "assignment \<Rightarrow> member_id \<Rightarrow> topic_id \<Rightarrow> int \<Rightarrow> bool" where
  "assigned_to a m t p \<longleftrightarrow> (\<exists>ps xs. bt_get a m = Some ps \<and> bt_get ps t = Some xs \<and> p \<in> set xs)"

definition assignment_inv :: "assignment \<Rightarrow> bool" where
  "assignment_inv a \<longleftrightarrow> bt_inv a \<and> (\<forall>m ps. bt_get a m = Some ps \<longrightarrow> bt_inv ps)"

lemma assign_owned_to:
  "assigned_to (assign_owned ((t, p), m) a) m' t' p' \<longleftrightarrow> assigned_to a m' t' p' \<or> m' = m \<and> t' = t \<and> p' = p"
  by (cases "bt_get a m"; cases "bt_get (or_default [] (bt_get a m)) t")
    (auto simp: assigned_to_def assign_owned_def Let_def bt_get_insert or_default_def set_vec_insert bt_get_Cons)

lemma fold_assign_owned:
  "assigned_to (fold assign_owned ks a) m t p \<longleftrightarrow> assigned_to a m t p \<or> ((t, p), m) \<in> set ks"
proof (induction ks arbitrary: a)
  case (Cons x ks)
  obtain t' p' m' where "x = ((t', p'), m')" by (metis prod.exhaust)
  then show ?case using Cons by (auto simp: assign_owned_to)
qed simp

lemma assign_owned_inv: "assignment_inv a \<Longrightarrow> assignment_inv (assign_owned ((t, p), m) a)"
  by (cases "bt_get a m")
    (simp_all add: assignment_inv_def assign_owned_def Let_def bt_get_insert bt_inv_insert or_default_def)

lemma fold_assign_owned_inv: "assignment_inv a \<Longrightarrow> assignment_inv (fold assign_owned ks a)"
proof (induction ks arbitrary: a)
  case (Cons x ks)
  obtain t' p' m' where "x = ((t', p'), m')" by (metis prod.exhaust)
  then show ?case using Cons by (simp add: assign_owned_inv)
qed simp

lemma nothing_assigned_inv: "bt_inv members \<Longrightarrow> assignment_inv (nothing_assigned members)"
proof -
  assume "bt_inv members"
  moreover have "map fst (nothing_assigned members) = map fst members" by (simp add: nothing_assigned_def split_beta)
  moreover have "bt_get (nothing_assigned members) m = Some ps \<Longrightarrow> ps = []" for m ps
    by (auto simp: bt_get_def nothing_assigned_def dest!: map_of_SomeD)
  ultimately show ?thesis unfolding assignment_inv_def bt_inv_def by (metis list.simps(8) sorted_wrt.simps(1))
qed

lemma nothing_assigned_to: "\<not> assigned_to (nothing_assigned members) m t p"
  by (auto simp: assigned_to_def bt_get_def nothing_assigned_def dest!: map_of_SomeD)

lemma uniform_assigned_to:
  assumes "wf_previous members" and "bt_inv topics"
  shows "assigned_to (uniform_assign members topics) m t p \<longleftrightarrow> bt_get (fst (uniform_owners members topics)) (t, p) = Some m"
proof -
  have "bt_inv (fst (uniform_owners members topics))"
    using uniform_owners_result(1) [OF assms] by (simp add: state_inv_def owners_inv_def)
  then show ?thesis by (simp add: uniform_assign_def fold_assign_owned nothing_assigned_to bt_get_in)
qed

lemma keys_assign_owned: "set (map fst (assign_owned ((t, p), m) a)) = insert m (set (map fst a))"
  by (simp only: assign_owned_def Let_def prod.case set_keys_insert)

lemma keys_fold_assign_owned: "set (map fst (fold assign_owned ks a)) = snd ` set ks \<union> set (map fst a)"
proof (induction ks arbitrary: a)
  case (Cons x ks)
  obtain t' p' m' where "x = ((t', p'), m')" by (metis prod.exhaust)
  then show ?case using Cons keys_assign_owned [of t' p' m' a] by auto
qed simp

lemma uniform_keys:
  assumes "bt_inv members" and "wf_previous members" and "bt_inv topics"
  shows "bt_keys (uniform_assign members topics) = bt_keys members"
proof -
  let ?o = "fst (uniform_owners members topics)"
  have o: "owners_inv members topics ?o" using uniform_owners_result(1) [OF assms(2,3)] by (simp add: state_inv_def)
  have "snd ` set ?o \<subseteq> fst ` set members"
  proof
    fix m assume "m \<in> snd ` set ?o"
    then obtain t p where "((t, p), m) \<in> set ?o" by auto
    then show "m \<in> fst ` set members"
      using o by (intro subscribes_member owners_invD(2) [OF o]) (simp add: owners_invD(1) bt_get_in)
  qed
  then have "set (bt_keys (uniform_assign members topics)) = set (bt_keys members)"
    unfolding uniform_assign_def bt_keys_def keys_fold_assign_owned by (auto simp: nothing_assigned_def split_beta)
  moreover have "bt_inv (uniform_assign members topics)"
    using fold_assign_owned_inv [OF nothing_assigned_inv [OF assms(1)]] by (simp add: uniform_assign_def assignment_inv_def)
  ultimately show ?thesis using assms(1) by (intro strict_sorted_unique) (simp_all add: bt.keys_sorted)
qed

definition assigned_count :: "assignment \<Rightarrow> member_id \<Rightarrow> nat" where
  "assigned_count a m = card {(t, p). assigned_to a m t p}"

lemma uniform_count:
  assumes "wf_previous members" and "bt_inv topics"
  shows "assigned_count (uniform_assign members topics) m = owned_count (fst (uniform_owners members topics)) m"
proof -
  have "{(t, p). assigned_to (uniform_assign members topics) m t p} = {k. bt_get (fst (uniform_owners members topics)) k = Some m}"
    using uniform_assigned_to [OF assms] by auto
  then show ?thesis by (simp add: assigned_count_def owned_count_def)
qed

section \<open>Uniform again over its own result\<close>

definition with_previous :: "assignment \<Rightarrow> members \<Rightarrow> members" where
  "with_previous a members = map (\<lambda>(m, spec). (m, spec\<lparr>ms_previous := or_default [] (bt_get a m)\<rparr>)) members"

lemma subscribers_with_previous: "subscribers (with_previous a members) t = with_previous a (subscribers members t)"
  by (induction members) (auto simp: subscribers_def with_previous_def)

lemma subscribes_with_previous [simp]: "subscribes (with_previous a members) m t = subscribes members m t"
  unfolding subscribes_def subscribers_with_previous by (force simp: with_previous_def)

lemma min_by_key_map: "(\<And>x. f (g x) = f' x) \<Longrightarrow> min_by_key f (map g xs) = map_option g (min_by_key f' xs)"
  by (induction xs) (auto split: option.split)

lemma least_loaded_with_previous [simp]: "least_loaded (with_previous a members) load t = least_loaded members load t"
proof -
  let ?g = "\<lambda>(m, spec). (m, spec\<lparr>ms_previous := or_default [] (bt_get a m)\<rparr>)"
  have "min_by_key (\<lambda>(m, _). (load_of load m, m)) (map ?g (subscribers members t))
      = map_option ?g (min_by_key (\<lambda>(m, _). (load_of load m, m)) (subscribers members t))"
    by (rule min_by_key_map) (simp add: split_beta)
  moreover have "subscribers (with_previous a members) t = map ?g (subscribers members t)"
    by (simp only: subscribers_with_previous) (simp only: with_previous_def)
  ultimately show ?thesis by (simp add: least_loaded_def option.map_comp o_def split_beta)
qed

lemma min_by_key_cong: "(\<And>x. x \<in> set xs \<Longrightarrow> f x = g x) \<Longrightarrow> min_by_key f xs = min_by_key g xs"
proof (induction xs)
  case (Cons x xs)
  have "min_by_key g xs = Some y \<Longrightarrow> f y = g y" for y using Cons.prems min_by_key_mem [of g xs y] by simp
  then show ?case using Cons by (simp split: option.split)
qed simp

lemma improving_move_cong:
  assumes "\<And>m. m \<in> fst ` set members \<union> snd ` set owner \<Longrightarrow> load_of load m = load_of load' m"
  shows "improving_move members owner load = improving_move members owner load'"
proof -
  have ll: "least_loaded members load t = least_loaded members load' t" for t
  proof -
    have "min_by_key (\<lambda>(m, _). (load_of load m, m)) (subscribers members t)
        = min_by_key (\<lambda>(m, _). (load_of load' m, m)) (subscribers members t)"
      by (rule min_by_key_cong) (use assms in \<open>force simp: subscribers_def\<close>)
    then show ?thesis unfolding least_loaded_def by simp
  qed
  have "move_step members load x best = move_step members load' x best" if "x \<in> set owner" for x best
  proof -
    obtain k src where x: "x = (k, src)" by fastforce
    have src: "load_of load src = load_of load' src" using that x by (intro assms) force
    show ?thesis
    proof (cases "least_loaded members load' (fst k)")
      case None
      then show ?thesis by (simp add: move_step_def ll x)
    next
      case (Some dst)
      have "load_of load dst = load_of load' dst"
        using subscribes_member [OF least_loaded_subscribes [OF Some]] by (intro assms) simp
      then show ?thesis using src Some by (simp add: move_step_def ll x)
    qed
  qed
  then have "fold (move_step members load) owner None = fold (move_step members load') owner None"
    by (intro fold_cong refl) (rule HOL.ext)
  then show ?thesis by (simp only: improving_move_def)
qed

lemma improving_move_with_previous [simp]: "improving_move (with_previous a members) owner load = improving_move members owner load"
  unfolding improving_move_def move_step_def by simp

lemma fill_covered:
  assumes "covered members tps owner"
  shows "fold (\<lambda>(t, p). fill_partition members t p) tps (owner, load) = (owner, load)"
  using assms
proof (induction tps)
  case (Cons x tps)
  obtain t p where x: "x = (t, p)" by fastforce
  have "fill_partition members t p (owner, load) = (owner, load)"
  proof (cases "bt_get owner (t, p)")
    case None
    then have "\<forall>m. \<not> subscribes members m t" using Cons.prems x unfolding covered_def by simp
    then have "least_loaded members load t = None" by (simp add: least_loaded_None)
    then show ?thesis using None by (simp add: fill_partition_def)
  qed (simp add: fill_partition_def)
  moreover have "covered members tps owner" using Cons.prems unfolding covered_def by simp
  ultimately show ?case using Cons.IH by (simp add: x)
qed simp

lemma uniform_stable_owners:
  assumes inv: "bt_inv members" and wf: "wf_previous members" and tp: "bt_inv topics"
  shows "fst (uniform_owners (with_previous (uniform_assign members topics) members) topics) = fst (uniform_owners members topics)"
proof -
  let ?a = "uniform_assign members topics" and ?o = "fst (uniform_owners members topics)"
  let ?members = "with_previous ?a members"
  note res = uniform_owners_result [OF wf tp]
  have o: "owners_inv members topics ?o" and l: "loads_inv members ?o (snd (uniform_owners members topics))"
    using res(1) by (simp_all add: state_inv_def)
  have ai: "assignment_inv ?a"
    unfolding uniform_assign_def by (intro fold_assign_owned_inv nothing_assigned_inv inv)
  have claim: "claims ?members topics m t p \<longleftrightarrow> bt_get ?o (t, p) = Some m" for m t p
  proof
    assume "claims ?members topics m t p"
    then obtain ps where *: "(t, ps) \<in> set (or_default [] (bt_get ?a m))" "p \<in> set ps"
      by (auto simp: claims_def with_previous_def)
    have "assigned_to ?a m t p"
    proof (cases "bt_get ?a m")
      case (Some ps')
      moreover have "bt_inv ps'" using ai Some unfolding assignment_inv_def by blast
      ultimately show ?thesis using * unfolding assigned_to_def by (auto simp: or_default_def bt_get_in)
    qed (use * in \<open>simp add: or_default_def\<close>)
    then show "bt_get ?o (t, p) = Some m" by (simp add: uniform_assigned_to [OF wf tp])
  next
    assume own: "bt_get ?o (t, p) = Some m"
    then have "assigned_to ?a m t p" by (simp add: uniform_assigned_to [OF wf tp])
    then obtain ps xs where ps: "bt_get ?a m = Some ps" "bt_get ps t = Some xs" "p \<in> set xs"
      unfolding assigned_to_def by blast
    then have txs: "(t, xs) \<in> set ps" unfolding bt_get_def by (intro map_of_SomeD)
    obtain spec where "(m, spec) \<in> set members" "t \<in> set (ms_subscribed spec)"
      using owners_invD(2) [OF o own] by (auto simp: subscribes_def subscribers_def)
    then have "(m, spec\<lparr>ms_previous := ps\<rparr>) \<in> set ?members" "t \<in> set (ms_subscribed (spec\<lparr>ms_previous := ps\<rparr>))"
      using ps(1) by (force simp: with_previous_def or_default_def)+
    moreover have "(t, xs) \<in> set (ms_previous (spec\<lparr>ms_previous := ps\<rparr>))" using txs by simp
    ultimately show "claims ?members topics m t p"
      using ps(3) owners_invD(3) [OF o own] unfolding claims_def by blast
  qed
  have kept: "kept_owners ?members topics = ?o"
  proof (rule bt_ext [OF kept_ownersD(1) owners_invD(1) [OF o]])
    fix k :: "topic_id \<times> int"
    obtain t p where k: "k = (t, p)" by fastforce
    show "bt_get (kept_owners ?members topics) k = bt_get ?o k"
    proof (cases "bt_get ?o (t, p)")
      case None
      then show ?thesis
        using kept_ownersD(2) [of ?members topics t p] unfolding k claim by (cases "bt_get (kept_owners ?members topics) (t, p)") simp_all
    next
      case (Some m)
      then have "bt_get (kept_owners ?members topics) (t, p) \<noteq> None" by (intro kept_ownersD(3)) (simp only: claim)
      then obtain m' where "bt_get (kept_owners ?members topics) (t, p) = Some m'" by blast
      then show ?thesis using kept_ownersD(2) [of ?members topics t p m'] Some unfolding k claim by simp
    qed
  qed
  have keys: "fst ` set ?members = fst ` set members" by (force simp: with_previous_def)
  have loads: "load_of (kept_loads ?members ?o) m = load_of (snd (uniform_owners members topics)) m"
    if "m \<in> fst ` set members \<union> snd ` set ?o" for m
  proof -
    have "m \<in> fst ` set members"
      using that subscribes_member [OF owners_invD(2) [OF o]] by (auto simp: bt_get_in [OF owners_invD(1) [OF o]])
    then show ?thesis
      using kept_loads_count [OF owners_invD(1) [OF o], of m ?members] keys loads_invD [OF l, of m]
      by (simp add: load_of_def or_default_def)
  qed
  have "covered ?members (all_partitions topics) ?o" using res(3) unfolding covered_def by simp
  then have "fold (fill_topic ?members) topics (?o, kept_loads ?members ?o) = (?o, kept_loads ?members ?o)"
    unfolding fill_topics_flat by (rule fill_covered)
  moreover have "improving_move members ?o (kept_loads ?members ?o) = None"
    using res(2) improving_move_cong [OF loads] by simp
  ultimately show ?thesis
    unfolding uniform_owners_def [of ?members] Let_def kept by (simp add: balance.simps)
qed

section \<open>Ranges\<close>

definition range_start :: "int \<Rightarrow> int \<Rightarrow> int \<Rightarrow> int" where
  "range_start quota extra i = i * quota + min i extra"

lemma range_start_next: "range_start quota extra (i + 1) = range_start quota extra i + (quota + (if i < extra then 1 else 0))"
  by (simp add: range_start_def algebra_simps min_def)

definition share :: "int \<Rightarrow> int \<Rightarrow> int \<Rightarrow> member_id list \<Rightarrow> member_id \<Rightarrow> int \<Rightarrow> bool" where
  "share quota extra i ms m p \<longleftrightarrow>
     (\<exists>j < length ms. ms ! j = m \<and> range_start quota extra (i + int j) \<le> p \<and> p < range_start quota extra (i + int j + 1))"

lemma share_Cons:
  "share quota extra i (m' # ms) m p \<longleftrightarrow>
     m' = m \<and> range_start quota extra i \<le> p \<and> p < range_start quota extra (i + 1) \<or> share quota extra (i + 1) ms m p"
proof -
  have "share quota extra i (m' # ms) m p \<longleftrightarrow>
      (m' = m \<and> range_start quota extra i \<le> p \<and> p < range_start quota extra (i + 1)) \<or>
      (\<exists>j < length ms. ms ! j = m \<and> range_start quota extra (i + int (Suc j)) \<le> p \<and> p < range_start quota extra (i + int (Suc j) + 1))"
    unfolding share_def length_Cons Ex_less_Suc2 by simp
  moreover have "i + int (Suc j) = i + 1 + int j" for j by simp
  ultimately show ?thesis unfolding share_def by (simp only:)
qed

definition holds_keys :: "member_id set \<Rightarrow> assignment \<Rightarrow> bool" where
  "holds_keys ms a \<longleftrightarrow> (\<forall>m. m \<in> ms \<longrightarrow> bt_get a m \<noteq> None)"

lemma assigned_to_insert:
  assumes "bt_get a m' = Some ps"
  shows "assigned_to (bt_insert m' (bt_insert t xs ps) a) m t' p
           \<longleftrightarrow> (if m = m' \<and> t' = t then p \<in> set xs else assigned_to a m t' p)"
  using assms by (cases "m = m'"; cases "t' = t") (simp_all add: assigned_to_def bt_get_insert)

lemma assigned_to_get:
  assumes "bt_get a m = Some ps"
  shows "assigned_to a m t p \<longleftrightarrow> p \<in> set (or_default [] (bt_get ps t))"
  using assms by (cases "bt_get ps t") (simp_all add: assigned_to_def or_default_def)

lemma range_members_share:
  assumes "holds_keys K a" and "set ms \<subseteq> K"
  shows "assigned_to (range_members t quota extra i (range_start quota extra i) ms a) m t' p
           \<longleftrightarrow> assigned_to a m t' p \<or> t' = t \<and> share quota extra i ms m p"
    and "holds_keys K (range_members t quota extra i (range_start quota extra i) ms a)"
proof -
  have "(assigned_to (range_members t quota extra i (range_start quota extra i) ms a) m t' p
           \<longleftrightarrow> assigned_to a m t' p \<or> t' = t \<and> share quota extra i ms m p) \<and>
      holds_keys K (range_members t quota extra i (range_start quota extra i) ms a)"
    using assms
  proof (induction ms arbitrary: a i)
    case Nil
    then show ?case by (simp add: share_def)
  next
    case (Cons m' ms)
    let ?w = "quota + (if i < extra then 1 else 0)"
    obtain ps where ps: "bt_get a m' = Some ps" using Cons.prems by (auto simp: holds_keys_def)
    let ?xs = "fold vec_insert [range_start quota extra i .. range_start quota extra i + ?w - 1] (or_default [] (bt_get ps t))"
    let ?a = "if 0 < ?w then bt_insert m' (bt_insert t ?xs ps) a else a"
    have rec: "range_members t quota extra i (range_start quota extra i) (m' # ms) a
        = range_members t quota extra (i + 1) (range_start quota extra (i + 1)) ms ?a"
      by (simp add: ps range_start_next Let_def)
    have keys: "holds_keys K ?a" using Cons.prems(1) by (auto simp: holds_keys_def bt_get_insert)
    have "set ?xs = {range_start quota extra i ..< range_start quota extra (i + 1)} \<union> set (or_default [] (bt_get ps t))"
      by (auto simp: set_fold_vec_insert range_start_next)
    then have xs: "p \<in> set ?xs \<longleftrightarrow> range_start quota extra i \<le> p \<and> p < range_start quota extra (i + 1) \<or> assigned_to a m' t p"
      unfolding assigned_to_get [OF ps] by simp
    have a: "assigned_to ?a m t' p \<longleftrightarrow> assigned_to a m t' p \<or>
        (t' = t \<and> m' = m \<and> range_start quota extra i \<le> p \<and> p < range_start quota extra (i + 1))"
    proof (cases "0 < ?w")
      case True
      then have "assigned_to ?a m t' p \<longleftrightarrow> (if m = m' \<and> t' = t then p \<in> set ?xs else assigned_to a m t' p)"
        by (simp only: if_True assigned_to_insert [OF ps])
      note eq = this
      show ?thesis
      proof (cases "m = m' \<and> t' = t")
        case True
        then show ?thesis unfolding eq xs by auto
      next
        case False
        then show ?thesis unfolding eq by (simp only: if_False) blast
      qed
    next
      case False
      then have "\<not> (range_start quota extra i \<le> p \<and> p < range_start quota extra (i + 1))"
        unfolding range_start_next by linarith
      then show ?thesis using False by (simp only: if_False) blast
    qed
    have "set ms \<subseteq> K" using Cons.prems(2) by simp
    from Cons.IH [OF keys this, of "i + 1"] show ?case unfolding rec share_Cons a by blast
  qed
  then show "assigned_to (range_members t quota extra i (range_start quota extra i) ms a) m t' p
           \<longleftrightarrow> assigned_to a m t' p \<or> t' = t \<and> share quota extra i ms m p"
    and "holds_keys K (range_members t quota extra i (range_start quota extra i) ms a)"
    by blast+
qed

definition topic_share :: "members \<Rightarrow> topic_id \<Rightarrow> int \<Rightarrow> member_id \<Rightarrow> int \<Rightarrow> bool" where
  "topic_share members t n m p \<longleftrightarrow>
     (let subs = map fst (subscribers members t); c = int (length subs)
      in fits_s 4 c \<and> share (n sdiv c) (n smod c) 0 subs m p)"

lemma sdiv_nonneg: "0 \<le> n \<Longrightarrow> 0 < c \<Longrightarrow> n sdiv c = n div c \<and> n smod c = n mod (c :: int)"
  by (cases "n = 0") (simp_all add: signed_divide_int_def signed_modulo_int_def minus_div_mult_eq_mod)

lemma range_topic_share:
  assumes keys: "holds_keys (fst ` set members) a" and n: "0 \<le> n"
  shows "assigned_to (range_topic members (t, n) a) m t' p \<longleftrightarrow> assigned_to a m t' p \<or> t' = t \<and> topic_share members t n m p"
    and "holds_keys (fst ` set members) (range_topic members (t, n) a)"
proof -
  let ?subs = "map fst (subscribers members t)"
  let ?c = "int (length ?subs)"
  have sub: "set ?subs \<subseteq> fst ` set members" by (auto simp: subscribers_def)
  have "(assigned_to (range_topic members (t, n) a) m t' p \<longleftrightarrow> assigned_to a m t' p \<or> t' = t \<and> topic_share members t n m p) \<and>
    holds_keys (fst ` set members) (range_topic members (t, n) a)"
  proof (cases "\<not> fits_s 4 ?c \<or> ?c = 0")
    case True
    moreover have "?c = 0 \<Longrightarrow> \<not> share q e 0 ?subs m p" for q e by (auto simp: share_def)
    ultimately show ?thesis using keys by (auto simp: range_topic_def topic_share_def Let_def)
  next
    case False
    then have "0 \<le> n smod ?c" using n sdiv_nonneg [of n ?c] by simp
    then have z: "range_start (n sdiv ?c) (n smod ?c) 0 = 0" by (simp add: range_start_def)
    have "range_topic members (t, n) a = range_members t (n sdiv ?c) (n smod ?c) 0 0 ?subs a"
      using False by (simp add: range_topic_def Let_def)
    then show ?thesis
      using False range_members_share [OF keys sub, of t "n sdiv ?c" "n smod ?c" 0] unfolding z
      by (simp add: topic_share_def Let_def)
  qed
  then show "assigned_to (range_topic members (t, n) a) m t' p \<longleftrightarrow> assigned_to a m t' p \<or> t' = t \<and> topic_share members t n m p"
    and "holds_keys (fst ` set members) (range_topic members (t, n) a)" by blast+
qed

lemma range_fold:
  assumes "holds_keys (fst ` set members) a" and "\<forall>(t, n) \<in> set topics. 0 \<le> n"
  shows "assigned_to (fold (range_topic members) topics a) m t p
    \<longleftrightarrow> assigned_to a m t p \<or> (\<exists>n. (t, n) \<in> set topics \<and> topic_share members t n m p)"
  using assms
proof (induction topics arbitrary: a)
  case (Cons x topics)
  obtain t' n' where x: "x = (t', n')" by fastforce
  then have "0 \<le> n'" using Cons.prems(2) by simp
  note step = range_topic_share [OF Cons.prems(1) this]
  show ?case using Cons.IH [OF step(2)] Cons.prems(2) step(1) by (auto simp: x)
qed simp

lemma holds_keys_nothing: "holds_keys (fst ` set members) (nothing_assigned members)"
  by (induction members) (auto simp: holds_keys_def nothing_assigned_def bt_get_def)

lemma range_assigned_to:
  assumes "\<forall>(t, n) \<in> set topics. 0 \<le> n" and "bt_inv topics"
  shows "assigned_to (range_assign members topics) m t p \<longleftrightarrow> (\<exists>n. bt_get topics t = Some n \<and> topic_share members t n m p)"
  unfolding range_assign_def range_fold [OF holds_keys_nothing assms(1)]
  using assms(2) by (simp add: nothing_assigned_to bt_get_in)

lemma range_start_mono: "0 \<le> q \<Longrightarrow> i \<le> j \<Longrightarrow> range_start q e i \<le> range_start q e j"
  unfolding range_start_def by (intro add_mono mult_right_mono) auto

lemma range_start_split:
  assumes "range_start q e 0 \<le> p" and "p < range_start q e (int c)"
  shows "\<exists>j < c. range_start q e (int j) \<le> p \<and> p < range_start q e (int j + 1)"
  using assms
proof (induction c)
  case (Suc c)
  show ?case
  proof (cases "p < range_start q e (int c)")
    case True
    with Suc show ?thesis using less_SucI by blast
  next
    case False
    then show ?thesis using Suc.prems by (intro exI [of _ c]) (simp add: add.commute)
  qed
qed simp

lemma range_start_unique:
  assumes "0 \<le> q" and "range_start q e (int i) \<le> p" "p < range_start q e (int i + 1)"
    and "range_start q e (int j) \<le> p" "p < range_start q e (int j + 1)"
  shows "i = j"
proof (rule ccontr)
  assume "i \<noteq> j"
  then consider "int i + 1 \<le> int j" | "int j + 1 \<le> int i" by linarith
  then show False
  proof cases
    case 1
    from range_start_mono [OF assms(1) this, of e] assms(3,4) show False by linarith
  next
    case 2
    from range_start_mono [OF assms(1) this, of e] assms(2,5) show False by linarith
  qed
qed

lemma range_start_ends:
  assumes "0 \<le> n" and "0 < c"
  shows "range_start (n div c) (n mod c) 0 = 0 \<and> range_start (n div c) (n mod c) c = n"
  using assms pos_mod_bound [of c n] by (simp add: range_start_def)

lemma topic_share_unique:
  assumes n: "0 \<le> n" and p: "0 \<le> p" "p < n" and subs: "subscribers members t \<noteq> []" and inv: "bt_inv members"
    and fit: "int (length members) < 2 ^ 31"
  shows "\<exists>!m. topic_share members t n m p"
proof -
  let ?subs = "map fst (subscribers members t)"
  let ?c = "int (length ?subs)"
  let ?q = "n div ?c" and ?e = "n mod ?c"
  have c: "0 < ?c" using subs by simp
  have d: "n sdiv ?c = ?q" "n smod ?c = ?e" using sdiv_nonneg [OF n c] by simp_all
  have "length ?subs \<le> length members" by (simp add: subscribers_def)
  then have "?c < 2 ^ 31" using fit by linarith
  then have fits: "fits_s 4 ?c" by (simp add: fits_s_def)
  have q: "0 \<le> ?q" using n c by (simp add: pos_imp_zdiv_nonneg_iff)
  have ends: "range_start ?q ?e 0 = 0" "range_start ?q ?e ?c = n"
    using range_start_ends [OF n c] by simp_all
  then obtain j where j: "j < length ?subs" "range_start ?q ?e (int j) \<le> p" "p < range_start ?q ?e (int j + 1)"
    using range_start_split [of ?q ?e p "length ?subs"] p by auto
  show ?thesis
  proof (rule ex1I)
    show "topic_share members t n (?subs ! j) p"
      unfolding topic_share_def Let_def d using fits j by (auto simp: share_def)
    fix m assume "topic_share members t n m p"
    then obtain i where i: "i < length ?subs" "?subs ! i = m" "range_start ?q ?e (int i) \<le> p" "p < range_start ?q ?e (int i + 1)"
      unfolding topic_share_def Let_def d share_def by auto
    then show "m = ?subs ! j" using range_start_unique [OF q i(3,4) j(2,3)] by simp
  qed
qed

lemma share_bounds:
  assumes "0 \<le> q" and "share q e 0 ms m p"
  shows "range_start q e 0 \<le> p \<and> p < range_start q e (int (length ms)) \<and> m \<in> set ms"
proof -
  obtain j where j: "j < length ms" "ms ! j = m" "range_start q e (int j) \<le> p" "p < range_start q e (int j + 1)"
    using assms(2) by (auto simp: share_def)
  have "range_start q e 0 \<le> range_start q e (int j)" "range_start q e (int j + 1) \<le> range_start q e (int (length ms))"
    using j(1) by (intro range_start_mono [OF assms(1)]; simp)+
  then show ?thesis using j by auto
qed

lemma topic_share_bounds:
  assumes n: "0 \<le> n" and sh: "topic_share members t n m p"
  shows "subscribes members m t \<and> 0 \<le> p \<and> p < n"
proof -
  let ?subs = "map fst (subscribers members t)"
  let ?c = "int (length ?subs)"
  have sh: "share (n sdiv ?c) (n smod ?c) 0 ?subs m p" using sh by (simp add: topic_share_def Let_def)
  then have c: "0 < ?c" by (auto simp: share_def)
  have "range_start (n div ?c) (n mod ?c) 0 = 0" "range_start (n div ?c) (n mod ?c) ?c = n"
    using range_start_ends [OF n c] by simp_all
  moreover have "0 \<le> n div ?c" using n c by (simp add: pos_imp_zdiv_nonneg_iff)
  ultimately show ?thesis
    using share_bounds [of "n div ?c" "n mod ?c" ?subs m p] sh sdiv_nonneg [OF n c] by (simp add: subscribes_def)
qed

section \<open>Properties\<close>

definition sample_members :: members where
  "sample_members =
     [(''a'', \<lparr>ms_subscribed = [[1]], ms_previous = [([1], [0, 1, 2])]\<rparr>),
      (''b'', \<lparr>ms_subscribed = [[1]], ms_previous = []\<rparr>)]"

definition sample_topics :: "(topic_id, int) btree" where
  "sample_topics = [([1], 3)]"

lemma sample_group_ok:
  "bt_inv sample_members" "wf_previous sample_members" "bt_inv sample_topics" "\<forall>(t, n) \<in> set sample_topics. 0 \<le> n"
  by (simp_all add: sample_members_def sample_topics_def bt_inv_def wf_previous_def)

text \<open>
  C17. The uniform assignor ends with a correct and balanced assignment: it answers for exactly the
  members, every partition of a topic somebody subscribes to is assigned to exactly one member,
  nobody is given a topic it is not subscribed to or a partition the topic does not have, and a
  member holds at most one partition more than any other subscriber of a topic it holds.
\<close>

theorem uniform_assignment_correct:
  assumes "bt_inv members" and "wf_previous members" and "bt_inv topics" and "a = uniform_assign members topics"
  shows "bt_keys a = bt_keys members \<and>
    (\<forall>t n p. bt_get topics t = Some n \<and> 0 \<le> p \<and> p < n \<and> (\<exists>m. subscribes members m t) \<longrightarrow> (\<exists>!m. assigned_to a m t p)) \<and>
    (\<forall>m t p. assigned_to a m t p \<longrightarrow> subscribes members m t \<and> (\<exists>n. bt_get topics t = Some n \<and> 0 \<le> p \<and> p < n)) \<and>
    (\<forall>m m' t p. assigned_to a m t p \<and> subscribes members m' t \<longrightarrow> assigned_count a m \<le> assigned_count a m' + 1)"
proof (intro conjI allI impI)
  let ?o = "fst (uniform_owners members topics)" and ?l = "snd (uniform_owners members topics)"
  note res = uniform_owners_result [OF assms(2,3)]
  have o: "owners_inv members topics ?o" and l: "loads_inv members ?o ?l" using res(1) by (simp_all add: state_inv_def)
  have to: "assigned_to a m t p \<longleftrightarrow> bt_get ?o (t, p) = Some m" for m t p
    unfolding assms(4) by (rule uniform_assigned_to [OF assms(2,3)])
  show "bt_keys a = bt_keys members" unfolding assms(4) by (rule uniform_keys [OF assms(1-3)])
  show "\<exists>!m. assigned_to a m t p" if "bt_get topics t = Some n \<and> 0 \<le> p \<and> p < n \<and> (\<exists>m. subscribes members m t)" for t n p
  proof -
    have "(t, p) \<in> set (all_partitions topics)" using that all_partitions_in [OF assms(3)] by blast
    then have "bt_get ?o (t, p) \<noteq> None" using res(3) that unfolding covered_def by blast
    then show ?thesis unfolding to by auto
  qed
  show "subscribes members m t" "\<exists>n. bt_get topics t = Some n \<and> 0 \<le> p \<and> p < n" if "assigned_to a m t p" for m t p
    using that owners_invD [OF o] unfolding to by blast+
  show "assigned_count a m \<le> assigned_count a m' + 1" if h: "assigned_to a m t p \<and> subscribes members m' t" for m m' t p
  proof -
    have own: "bt_get ?o (t, p) = Some m" using h to by blast
    then have mem: "((t, p), m) \<in> set ?o" by (simp add: bt_get_in [OF owners_invD(1) [OF o]])
    obtain d where d: "least_loaded members ?l t = Some d"
      using h least_loaded_None [of members ?l t] by (cases "least_loaded members ?l t") auto
    have "load_of ?l m \<le> load_of ?l d + 1" using no_improving_move [OF res(2) mem] d by simp
    also have "load_of ?l d \<le> load_of ?l m'" using d h least_loaded_le by blast
    finally have "load_of ?l m \<le> load_of ?l m' + 1" by simp
    moreover have "load_of ?l m = owned_count ?o m" "load_of ?l m' = owned_count ?o m'"
      using subscribes_member [OF owners_invD(2) [OF o own]] h subscribes_member [of members m' t] loads_invD [OF l] by blast+
    ultimately show ?thesis unfolding assms(4) uniform_count [OF assms(2,3)] by simp
  qed
qed

theorem uniform_assignment_correct_witness:
  "\<exists>!m. assigned_to (uniform_assign sample_members sample_topics) m [1] 2"
proof -
  have sub: "subscribes sample_members ''a'' [1]" by (simp add: subscribes_def subscribers_def sample_members_def)
  have top: "bt_get sample_topics [1] = Some 3" by (simp add: sample_topics_def bt_get_def)
  have "\<forall>t n p. bt_get sample_topics t = Some n \<and> 0 \<le> p \<and> p < n \<and> (\<exists>m. subscribes sample_members m t)
      \<longrightarrow> (\<exists>!m. assigned_to (uniform_assign sample_members sample_topics) m t p)"
    using uniform_assignment_correct [OF sample_group_ok(1-3) refl] by (elim conjE)
  from this [rule_format, of "[1]" 3 2] sub top show ?thesis by auto
qed

text \<open>
  C26. The uniform assignor is stable: run again on the same members and topics with its own result as
  the previous target, on any replica, it returns that result, so that no partition moves without a
  change of membership, subscriptions or topics.
\<close>

theorem uniform_assignment_stable:
  assumes "bt_inv members" and "wf_previous members" and "bt_inv topics"
  shows "uniform_assign (with_previous (uniform_assign members topics) members) topics = uniform_assign members topics"
proof -
  have "nothing_assigned (with_previous x members) = nothing_assigned members" for x
    by (simp add: nothing_assigned_def with_previous_def split_beta)
  then show ?thesis
    unfolding uniform_assign_def [of "with_previous _ _"] uniform_stable_owners [OF assms] by (simp add: uniform_assign_def)
qed

theorem uniform_assignment_stable_witness:
  "uniform_assign (with_previous (uniform_assign sample_members sample_topics) sample_members) sample_topics
     = uniform_assign sample_members sample_topics"
  by (rule uniform_assignment_stable [OF sample_group_ok(1-3)])

text \<open>
  C28. The range assignor gives every partition of a topic with subscribers to exactly one of them, and
  to no one else; the \<open>j\<close>-th subscriber in member order holds the contiguous range from
  \<open>j * q + min j r\<close> on, where \<open>q\<close> and \<open>r\<close> are quotient and remainder of partitions by subscribers.
\<close>

theorem range_assignment_correct:
  assumes "bt_inv members" and "bt_inv topics" and "\<forall>(t, n) \<in> set topics. 0 \<le> n" and "int (length members) < 2 ^ 31"
    and "bt_get topics t = Some n" and "subs = map fst (subscribers members t)" and "c = int (length subs)"
  shows "(0 \<le> p \<and> p < n \<and> subs \<noteq> [] \<longrightarrow> (\<exists>!m. assigned_to (range_assign members topics) m t p)) \<and>
    (assigned_to (range_assign members topics) m t p \<longrightarrow> m \<in> set subs \<and> 0 \<le> p \<and> p < n) \<and>
    (assigned_to (range_assign members topics) m t p \<longleftrightarrow>
       (\<exists>j < length subs. subs ! j = m \<and> range_start (n div c) (n mod c) (int j) \<le> p \<and> p < range_start (n div c) (n mod c) (int j + 1)))"
proof -
  have n: "0 \<le> n" using assms(2,3,5) by (auto simp: bt_get_in)
  have to: "assigned_to (range_assign members topics) m t p \<longleftrightarrow> topic_share members t n m p" for m
    using range_assigned_to [OF assms(3,2)] assms(5) by simp
  have "length subs \<le> length members" by (simp add: assms(6) subscribers_def)
  then have fits: "fits_s 4 c" using assms(4,7) by (simp add: fits_s_def)
  have "topic_share members t n m p \<longleftrightarrow> (\<exists>j < length subs. subs ! j = m \<and>
      range_start (n div c) (n mod c) (int j) \<le> p \<and> p < range_start (n div c) (n mod c) (int j + 1))"
  proof (cases "subs = []")
    case True
    then show ?thesis using assms(6) by (simp add: topic_share_def share_def Let_def)
  next
    case False
    then have "n sdiv c = n div c" "n smod c = n mod c" using sdiv_nonneg [OF n, of c] assms(7) by simp_all
    then show ?thesis using fits by (simp add: topic_share_def share_def Let_def assms(6) [symmetric] assms(7) [symmetric])
  qed
  moreover have "0 \<le> p \<and> p < n \<and> subs \<noteq> [] \<longrightarrow> (\<exists>!m. topic_share members t n m p)"
    using topic_share_unique [OF n _ _ _ assms(1,4)] assms(6) by simp
  moreover have "topic_share members t n m p \<longrightarrow> m \<in> set subs \<and> 0 \<le> p \<and> p < n"
    using topic_share_bounds [OF n] assms(6) by (auto simp: subscribes_def)
  ultimately show ?thesis unfolding to by blast
qed

theorem range_assignment_correct_witness:
  "assigned_to (range_assign sample_members sample_topics) ''b'' [1] 2"
proof -
  have "bt_get sample_topics [1] = Some 3" by (simp add: sample_topics_def bt_get_def)
  note r = range_assignment_correct [OF sample_group_ok(1,3,4) _ this refl refl, of 2 "''b''"]
  have subs: "map fst (subscribers sample_members [1]) = [''a'', ''b'']" by (simp add: sample_members_def subscribers_def)
  have "int (length sample_members) < 2 ^ 31" by (simp add: sample_members_def)
  from r [OF this, unfolded subs]
  have "assigned_to (range_assign sample_members sample_topics) ''b'' [1] 2 \<longleftrightarrow>
      (\<exists>j < Suc (Suc 0). [''a'', ''b''] ! j = ''b'' \<and> range_start 1 1 (int j) \<le> 2 \<and> (2 :: int) < range_start 1 1 (int j + 1))"
    by (elim conjE) simp
  also have "\<dots>" by (intro exI [of _ 1]) (simp add: range_start_def)
  finally show ?thesis .
qed

end
