(* ===== verification/GroupDoc.thy ===== *)
theory GroupDoc
  imports BTreeMap "HOL-Library.Signed_Division"
begin

text \<open>
  The documents a classic consumer group is made of (\<open>tansu-storage/src/group.rs\<close>): a member's own object, the
  generation that names the members, and the assignment of a generation. Fields of a document this binary does not
  know, which it carries along, are not modelled.
\<close>

datatype consumer_group_state =
    Group_Unknown | Group_PreparingRebalance | Group_CompletingRebalance | Group_Stable | Group_Dead | Group_Empty
  | Group_Assigning | Group_Reconciling

text \<open>\<open>JoinGroupResponseMember\<close>: how a member is shown to the leader.\<close>

record join_response_member =
  jr_member_id :: string
  jr_group_instance_id :: "string option"
  jr_metadata :: bytes

record member_doc =
  md_seq :: "64 word"
  md_last_contact_ms :: int
  md_session_timeout_ms :: int
  md_rebalance_timeout_ms :: "int option"
  md_group_instance_id :: "string option"
  md_protocol_name :: "string option"
  md_join_response :: join_response_member

definition member_doc_bumped :: "member_doc \<Rightarrow> member_doc" where
  "member_doc_bumped m = m\<lparr>md_seq := md_seq m + 1\<rparr>"

definition member_doc_lapses_after_ms :: "member_doc \<Rightarrow> int" where
  "member_doc_lapses_after_ms m = sat_i64 (md_session_timeout_ms m + md_session_timeout_ms m sdiv 2)"

definition member_doc_is_expired :: "int \<Rightarrow> member_doc \<Rightarrow> bool" where
  "member_doc_is_expired now_ms m \<longleftrightarrow> sat_i64 (now_ms - md_last_contact_ms m) > member_doc_lapses_after_ms m"

record member_ref =
  mr_group_instance_id :: "string option"

record generation_doc =
  gd_seq :: "64 word"
  gd_generation_id :: int
  gd_protocol_type :: "string option"
  gd_protocol_name :: "string option"
  gd_leader :: "string option"
  gd_members :: "(string, member_ref) btree"
  gd_members_changed_at_ms :: int
  gd_state_since_ms :: int
  gd_swept_at_ms :: int
  gd_session_timeout_ms :: int
  gd_rebalance_timeout_ms :: "int option"
  gd_skip_assignment :: "bool option"
  gd_inception_ms :: int
  gd_consumer_since_ms :: "int option"

definition is_converted :: "generation_doc \<Rightarrow> bool" where
  "is_converted g \<longleftrightarrow> gd_consumer_since_ms g \<noteq> None"

definition generation_bumped :: "generation_doc \<Rightarrow> generation_doc" where
  "generation_bumped g = g\<lparr>gd_seq := gd_seq g + 1\<rparr>"

definition generation_state :: "bool \<Rightarrow> generation_doc \<Rightarrow> consumer_group_state" where
  "generation_state assignment_present g =
     (if gd_members g = [] then Group_Empty
      else if gd_leader g = None then Group_Assigning
      else if assignment_present then Group_Stable
      else Group_CompletingRebalance)"

record assignment_doc =
  ad_generation_id :: int
  ad_leader :: string
  ad_protocol_type :: string
  ad_protocol_name :: string
  ad_assignments :: "(string, bytes) btree"
  ad_assigned_at_ms :: int

end
