(* ===== verification/ConsumerGroup.thy ===== *)
theory ConsumerGroup
  imports Assignor GroupDoc
begin

text \<open>
  Consumer groups of the consumer protocol: the group document of \<open>tansu-storage/src/consumer_group.rs\<close>
  and the heartbeat of \<open>tansu-broker/src/coordinator/group/consumer.rs\<close>, a function of the document as
  read, the request, the topics resolved, the liveness known and the clock. The regular expression
  engine is the argument \<open>compile\<close>, a fresh member mid the argument \<open>new_id\<close>. Fields of the document this
  binary does not know, which it carries along, are not modelled.
\<close>

section \<open>The document\<close>

datatype member_state = Stable | UnrevokedPartitions | UnreleasedPartitions

record subscribed_topic =
  st_name :: string
  st_partitions :: int

record classic_member =
  cl_session_timeout_ms :: int
  cl_protocol_name :: string
  cl_protocols :: "string list"
  cl_metadata :: bytes

record consumer_member =
  member_epoch :: int
  previous_member_epoch :: int
  member_state :: member_state
  instance_id :: "string option"
  rack_id :: "string option"
  client_id :: string
  client_host :: string
  subscribed_topic_names :: "string list"
  subscribed_topic_regex :: "string option"
  server_assignor :: "string option"
  rebalance_timeout_ms :: int
  session_timeout_ms :: int
  last_contact_ms :: int
  revocation_deadline_ms :: "int option"
  assigned :: partitions
  pending_revocation :: partitions
  target :: partitions
  classic :: "classic_member option"

record consumer_group =
  g_seq :: "64 word"
  group_epoch :: int
  assignment_epoch :: int
  assignor :: "string option"
  g_members :: "(member_id, consumer_member) btree"
  topics :: "(topic_id, subscribed_topic) btree"
  classic_generation :: "int option"
  created_ms :: int

definition member_default :: consumer_member where
  "member_default = \<lparr> member_epoch = 0, previous_member_epoch = 0, member_state = Stable, instance_id = None,
     rack_id = None, client_id = [], client_host = [], subscribed_topic_names = [], subscribed_topic_regex = None,
     server_assignor = None, rebalance_timeout_ms = 0, session_timeout_ms = 0, last_contact_ms = 0,
     revocation_deadline_ms = None, assigned = [], pending_revocation = [], target = [], classic = None \<rparr>"

definition group_default :: consumer_group where
  "group_default = \<lparr> g_seq = 0, group_epoch = 0, assignment_epoch = 0, assignor = None, g_members = [],
     topics = [], classic_generation = None, created_ms = 0 \<rparr>"

definition CONSUMER_SESSION_TIMEOUT_MS :: int where "CONSUMER_SESSION_TIMEOUT_MS = 45000"
definition CONSUMER_HEARTBEAT_INTERVAL_MS :: int where "CONSUMER_HEARTBEAT_INTERVAL_MS = 5000"
definition LEAVING_STATIC_MEMBER_EPOCH :: int where "LEAVING_STATIC_MEMBER_EPOCH = -2"
definition DEFAULT_REBALANCE_TIMEOUT_MS :: int where "DEFAULT_REBALANCE_TIMEOUT_MS = 300000"

definition lapses_after_ms :: "consumer_member \<Rightarrow> int" where
  "lapses_after_ms m = sat_i64 (session_timeout_ms m + session_timeout_ms m sdiv 2)"

definition member_is_expired :: "int \<Rightarrow> consumer_member \<Rightarrow> bool" where
  "member_is_expired now_ms m \<longleftrightarrow> sat_i64 (now_ms - last_contact_ms m) > lapses_after_ms m"

definition is_revocation_overdue :: "int \<Rightarrow> consumer_member \<Rightarrow> bool" where
  "is_revocation_overdue now_ms m \<longleftrightarrow> member_state m = UnrevokedPartitions \<and>
     is_some_and (revocation_deadline_ms m) (\<lambda>deadline. now_ms > deadline)"

definition is_leaving_static :: "consumer_member \<Rightarrow> bool" where
  "is_leaving_static m \<longleftrightarrow> member_epoch m = LEAVING_STATIC_MEMBER_EPOCH"

definition bumped :: "consumer_group \<Rightarrow> consumer_group" where
  "bumped g = g\<lparr>g_seq := g_seq g + 1\<rparr>"

type_synonym contact_stamps = "(member_id, int list) btree"

definition with_contacts :: "contact_stamps \<Rightarrow> consumer_group \<Rightarrow> consumer_group" where
  "with_contacts stamps g = g\<lparr>g_members := map (\<lambda>(mid, m). (mid,
     case Option.bind (bt_get stamps mid) next_back of
       None \<Rightarrow> m
     | Some latest \<Rightarrow> m\<lparr>last_contact_ms := max (last_contact_ms m) latest\<rparr>)) (g_members g)\<rparr>"

definition live_members :: "int \<Rightarrow> consumer_group \<Rightarrow> (member_id, consumer_member) btree" where
  "live_members now_ms g = filter (\<lambda>(_, m). \<not> member_is_expired now_ms m) (g_members g)"

definition has_live_members :: "int \<Rightarrow> consumer_group \<Rightarrow> bool" where
  "has_live_members now_ms g \<longleftrightarrow> live_members now_ms g \<noteq> []"

definition group_state :: "int \<Rightarrow> consumer_group \<Rightarrow> consumer_group_state" where
  "group_state now_ms g =
     (if \<not> has_live_members now_ms g then Group_Empty
      else if group_epoch g > assignment_epoch g then Group_Assigning
      else if list_ex (\<lambda>(_, m). member_state m \<noteq> Stable \<or>
             member_epoch m \<noteq> assignment_epoch g \<and> \<not> is_leaving_static m) (live_members now_ms g)
        then Group_Reconciling
      else Group_Stable)"

text \<open>\<open>ConsumerGroupDescribe\<close>: what a group reports of itself.\<close>

type_synonym described_assignment = "(topic_id \<times> string \<times> int list) list"

record described_member =
  dm_member_id :: member_id
  dm_instance_id :: "string option"
  dm_rack_id :: "string option"
  dm_member_epoch :: int
  dm_client_id :: string
  dm_client_host :: string
  dm_names :: "string list"
  dm_regex :: "string option"
  dm_member_type :: int
  dm_assignment :: described_assignment
  dm_target :: described_assignment

record described_group =
  dg_group_id :: string
  dg_state :: consumer_group_state
  dg_group_epoch :: int
  dg_assignment_epoch :: int
  dg_assignor_name :: string
  dg_members :: "described_member list"

definition CONSUMER_MEMBER_TYPE :: int where "CONSUMER_MEMBER_TYPE = 1"
definition CLASSIC_MEMBER_TYPE :: int where "CLASSIC_MEMBER_TYPE = 0"

definition described_partitions :: "consumer_group \<Rightarrow> partitions \<Rightarrow> described_assignment" where
  "described_partitions g ps = map (\<lambda>(t, xs). (t, unwrap_or [] (map_option st_name (bt_get (topics g) t)), xs)) ps"

definition described_member_of :: "consumer_group \<Rightarrow> member_id \<times> consumer_member \<Rightarrow> described_member" where
  "described_member_of g = (\<lambda>(mid, m).
     \<lparr> dm_member_id = mid, dm_instance_id = instance_id m, dm_rack_id = rack_id m, dm_member_epoch = member_epoch m,
       dm_client_id = client_id m, dm_client_host = client_host m, dm_names = subscribed_topic_names m,
       dm_regex = subscribed_topic_regex m,
       dm_member_type = (if classic m \<noteq> None then CLASSIC_MEMBER_TYPE else CONSUMER_MEMBER_TYPE),
       dm_assignment = described_partitions g (assigned m), dm_target = described_partitions g (target m) \<rparr>)"

definition described :: "string \<Rightarrow> int \<Rightarrow> consumer_group \<Rightarrow> described_group" where
  "described group_id now_ms g =
     \<lparr> dg_group_id = group_id, dg_state = group_state now_ms g, dg_group_epoch = group_epoch g,
       dg_assignment_epoch = assignment_epoch g, dg_assignor_name = unwrap_or [] (assignor g),
       dg_members = map (described_member_of g) (live_members now_ms g) \<rparr>"

text \<open>\<open>flatten\<close> and \<open>grouped\<close>: partitions by topic, and as a set of pairs.\<close>

definition flatten :: "partitions \<Rightarrow> (topic_id \<times> int) list" where
  "flatten ps = fold vec_insert (concat (map (\<lambda>(t, xs). map (Pair t) xs) ps)) []"

definition grouped :: "(topic_id \<times> int) list \<Rightarrow> partitions" where
  "grouped pairs = fold (\<lambda>(t, p). bt_update t [] (vec_insert p)) pairs []"

section \<open>The request\<close>

record heartbeat_request =
  rq_member_id :: member_id
  rq_member_epoch :: int
  rq_instance_id :: "string option"
  rq_rack_id :: "string option"
  rq_rebalance_timeout_ms :: int
  rq_subscribed_topic_names :: "string list option"
  rq_subscribed_topic_regex :: "string option"
  rq_server_assignor :: "string option"
  rq_topic_partitions :: "(topic_id \<times> int list option) list option"

record client =
  c_id :: string
  c_host :: string

datatype migration_policy = Disabled | Upgrade

record group_config =
  cf_session_timeout_ms :: int
  cf_heartbeat_interval_ms :: int
  cf_max_size :: "nat option"
  cf_migration :: migration_policy

definition config_default :: group_config where
  "config_default = \<lparr> cf_session_timeout_ms = CONSUMER_SESSION_TIMEOUT_MS,
     cf_heartbeat_interval_ms = CONSUMER_HEARTBEAT_INTERVAL_MS, cf_max_size = None, cf_migration = Upgrade \<rparr>"

record liveness =
  contacts :: "(member_id, int) btree"
  listed :: bool

datatype group_error =
    UnreleasedInstanceId | UnknownMemberId | InvalidRequest | GroupMaxSizeReached | FencedMemberEpoch
  | InvalidRegularExpression | UnsupportedAssignor | FencedInstanceId | InconsistentGroupProtocol
  | MemberIdRequired | StaleMemberEpoch | IllegalGeneration | RebalanceInProgress | GroupIdNotFound | UnknownServerError
  | CoordinatorLoadInProgress

record heartbeat_response =
  rs_member_id :: "member_id option"
  rs_member_epoch :: int
  rs_heartbeat_interval_ms :: int
  rs_assignment :: "(topic_id \<times> int list) list option"

record 'r transition =
  tr_group :: consumer_group
  tr_changed :: bool
  tr_renew :: bool
  tr_member_id :: member_id
  tr_response :: 'r

type_synonym compiler = "string \<Rightarrow> (string \<Rightarrow> bool) option"
type_synonym resolved = "(string, topic_id \<times> int) btree"

definition known_contact_ms :: "liveness \<Rightarrow> member_id \<Rightarrow> consumer_member \<Rightarrow> int" where
  "known_contact_ms l mid m =
     (case bt_get (contacts l) mid of None \<Rightarrow> last_contact_ms m | Some contact \<Rightarrow> max (last_contact_ms m) contact)"

definition is_expired :: "liveness \<Rightarrow> int \<Rightarrow> member_id \<Rightarrow> consumer_member \<Rightarrow> bool" where
  "is_expired l now_ms mid m \<longleftrightarrow> sat_i64 (now_ms - known_contact_ms l mid m) > lapses_after_ms m"

text \<open>The pattern is compiled inside an anchored group; \<open>compile_ok\<close> is \<open>topic_pattern(regex).ok()\<close>.\<close>

definition topic_pattern :: "compiler \<Rightarrow> string \<Rightarrow> group_error + (string \<Rightarrow> bool)" where
  "topic_pattern compile regex = ok_or InvalidRegularExpression (compile (''^(?:'' @ regex @ '')$''))"

definition compile_ok :: "compiler \<Rightarrow> string \<Rightarrow> (string \<Rightarrow> bool) option" where
  "compile_ok compile regex = (case topic_pattern compile regex of Inl _ \<Rightarrow> None | Inr p \<Rightarrow> Some p)"

definition requested_regex :: "heartbeat_request \<Rightarrow> string option option" where
  "requested_regex rq = map_option (\<lambda>regex. if regex = [] then None else Some regex) (rq_subscribed_topic_regex rq)"

record subscriptions =
  sub_names :: "string list"
  sub_patterns :: "(string \<Rightarrow> bool) list"

definition subscriptions_include :: "subscriptions \<Rightarrow> string \<Rightarrow> bool" where
  "subscriptions_include s name \<longleftrightarrow> name \<in> set (sub_names s) \<or> list_ex (\<lambda>pattern. pattern name) (sub_patterns s)"

definition subscriptions_of :: "compiler \<Rightarrow> consumer_group option \<Rightarrow> heartbeat_request \<Rightarrow> subscriptions" where
  "subscriptions_of compile held rq =
     (let members = (case held of None \<Rightarrow> [] | Some g \<Rightarrow> g_members g);
          others = map snd (filter (\<lambda>(mid, _). mid \<noteq> rq_member_id rq) members);
          sender = bt_get members (rq_member_id rq);
          own_names = (case sender of
             Some m \<Rightarrow> if rq_subscribed_topic_names rq = None then subscribed_topic_names m else []
           | None \<Rightarrow> []);
          own_regex = (case requested_regex rq of Some regex \<Rightarrow> regex | None \<Rightarrow> Option.bind sender subscribed_topic_regex)
      in \<lparr> sub_names = fold vec_insert (concat (map subscribed_topic_names others) @ own_names @
             unwrap_or [] (rq_subscribed_topic_names rq)) [],
           sub_patterns = List.map_filter (compile_ok compile)
             (fold vec_insert (List.map_filter subscribed_topic_regex others @
                (case own_regex of None \<Rightarrow> [] | Some regex \<Rightarrow> [regex])) []) \<rparr>)"

definition owned_from_request :: "heartbeat_request \<Rightarrow> partitions option" where
  "owned_from_request rq = map_option (\<lambda>ts. grouped (concat (map (\<lambda>(t, ps). map (Pair t) (unwrap_or [] ps)) ts)))
     (rq_topic_partitions rq)"

section \<open>The heartbeat\<close>

definition sweep_members :: "liveness \<Rightarrow> int \<Rightarrow> consumer_group \<Rightarrow> bool \<times> consumer_group" where
  "sweep_members l now_ms g =
     (let kept = filter (\<lambda>(mid, m). \<not> (is_revocation_overdue now_ms m \<or> listed l \<and> is_expired l now_ms mid m)) (g_members g)
      in (length kept \<noteq> length (g_members g), g\<lparr>g_members := kept\<rparr>))"

text \<open>\<open>Iterator::max_by\<close>: of the greatest elements, the last.\<close>

fun max_by :: "('a \<Rightarrow> 'a \<Rightarrow> bool) \<Rightarrow> 'a list \<Rightarrow> 'a option" where
  "max_by le [] = None"
| "max_by le (x # xs) = Some (fold (\<lambda>y best. if le best y then y else best) xs x)"

definition count_vote :: "member_id \<times> consumer_member \<Rightarrow> (string, nat) btree \<Rightarrow> (string, nat) btree" where
  "count_vote im votes = (case server_assignor (snd im) of None \<Rightarrow> votes | Some a \<Rightarrow> bt_update a 0 Suc votes)"

definition preferred_assignor :: "consumer_group \<Rightarrow> string" where
  "preferred_assignor g =
     (case max_by (\<lambda>(a, a_votes) (b, b_votes). a_votes < b_votes \<or> a_votes = b_votes \<and> b \<le> a)
             (fold count_vote (g_members g) []) of
        None \<Rightarrow> UNIFORM
      | Some (a, _) \<Rightarrow> a)"

definition topics_by_name :: "consumer_group \<Rightarrow> (string, topic_id) btree" where
  "topics_by_name g = fold (\<lambda>(t, topic). bt_insert (st_name topic) t) (topics g) []"

definition spec_of :: "compiler \<Rightarrow> (string, topic_id) btree \<Rightarrow> consumer_member \<Rightarrow> member_spec" where
  "spec_of compile by_name m =
     (let pattern = Option.bind (subscribed_topic_regex m) (compile_ok compile)
      in \<lparr> ms_subscribed = fold vec_insert (List.map_filter (bt_get by_name) (subscribed_topic_names m) @
             map snd (filter (\<lambda>(name, _). is_some_and pattern (\<lambda>p. p name)) by_name)) [],
           ms_previous = target m \<rparr>)"

definition retarget :: "compiler \<Rightarrow> consumer_group \<Rightarrow> consumer_group" where
  "retarget compile g =
     (let epoch = sat_i32 (group_epoch g + 1);
          by_name = topics_by_name g;
          specs = map (\<lambda>(mid, m). (mid, spec_of compile by_name m)) (g_members g);
          counts = map (\<lambda>(t, topic). (t, st_partitions topic)) (topics g);
          chosen = preferred_assignor g;
          targets = assign chosen specs counts
      in g\<lparr>group_epoch := epoch,
           g_members := map (\<lambda>(mid, m). (mid, m\<lparr>target := unwrap_or [] (bt_get targets mid)\<rparr>)) (g_members g),
           assignor := Some chosen, assignment_epoch := epoch\<rparr>)"

definition resolved_topics :: "resolved \<Rightarrow> (topic_id, subscribed_topic) btree" where
  "resolved_topics res = fold (\<lambda>(name, t, n). bt_insert t \<lparr> st_name = name, st_partitions = n \<rparr>) res []"

definition refresh_topics :: "resolved \<Rightarrow> consumer_group \<Rightarrow> bool \<times> consumer_group" where
  "refresh_topics res g =
     (let fresh = resolved_topics res
      in if fresh = topics g then (False, g) else (True, g\<lparr>topics := fresh\<rparr>))"

definition owned_by_others :: "consumer_group \<Rightarrow> member_id \<Rightarrow> (topic_id \<times> int) list" where
  "owned_by_others g mid =
     fold vec_insert (concat (map (\<lambda>(_, m). flatten (assigned m) @ flatten (pending_revocation m))
       (filter (\<lambda>(other, _). other \<noteq> mid) (g_members g)))) []"

definition still_owns :: "partitions option \<Rightarrow> partitions \<Rightarrow> bool" where
  "still_owns owned revoking \<longleftrightarrow> is_none_or owned (\<lambda>ps. list_ex (\<lambda>x. x \<in> set (flatten revoking)) (flatten ps))"

definition next_assignment ::
    "int \<Rightarrow> (topic_id \<times> int) list \<Rightarrow> partitions option \<Rightarrow> int \<Rightarrow> consumer_member \<Rightarrow> consumer_member" where
  "next_assignment target_epoch taken owned now_ms m =
     (let current = flatten (assigned m);
          tgt = flatten (target m);
          kept = filter (\<lambda>x. x \<in> set tgt) current;
          revoking = grouped (filter (\<lambda>x. x \<notin> set tgt) current)
      in if revoking \<noteq> [] \<and> still_owns owned revoking then
           (if member_state m \<noteq> UnrevokedPartitions
            then m\<lparr>revocation_deadline_ms := Some (sat_i64 (now_ms + rebalance_timeout_ms m))\<rparr> else m)
             \<lparr>member_state := UnrevokedPartitions, assigned := grouped kept, pending_revocation := revoking\<rparr>
         else
           (let wanted = filter (\<lambda>x. x \<notin> set current) tgt;
                free = filter (\<lambda>x. x \<notin> set taken) wanted;
                unreleased = filter (\<lambda>x. x \<in> set taken) wanted
            in (if member_epoch m \<noteq> target_epoch
                then m\<lparr>previous_member_epoch := member_epoch m, member_epoch := target_epoch\<rparr> else m)
                 \<lparr>member_state := (if unreleased = [] then Stable else UnreleasedPartitions),
                  assigned := grouped (kept @ free), pending_revocation := [], revocation_deadline_ms := None\<rparr>))"

definition member_moves :: "int \<Rightarrow> partitions option \<Rightarrow> consumer_member \<Rightarrow> bool" where
  "member_moves target_epoch owned m =
     (case member_state m of
        Stable \<Rightarrow> member_epoch m \<noteq> target_epoch
      | UnrevokedPartitions \<Rightarrow> \<not> still_owns owned (pending_revocation m)
      | UnreleasedPartitions \<Rightarrow> True)"

definition put_member :: "member_id \<Rightarrow> consumer_member \<Rightarrow> consumer_group \<Rightarrow> consumer_group" where
  "put_member mid m g = g\<lparr>g_members := bt_insert mid m (g_members g)\<rparr>"

definition reconcile_member :: "member_id \<Rightarrow> partitions option \<Rightarrow> int \<Rightarrow> consumer_group \<Rightarrow> consumer_group" where
  "reconcile_member mid owned now_ms g =
     (case bt_get (g_members g) mid of
        None \<Rightarrow> g
      | Some m \<Rightarrow>
          if member_moves (assignment_epoch g) owned m
          then put_member mid (next_assignment (assignment_epoch g) (owned_by_others g mid) owned now_ms m) g
          else g)"

definition new_member :: "heartbeat_request \<Rightarrow> client \<Rightarrow> group_config \<Rightarrow> consumer_member" where
  "new_member rq client config = member_default\<lparr>member_epoch := 0, previous_member_epoch := -1,
     instance_id := rq_instance_id rq, client_id := c_id client, client_host := c_host client,
     rebalance_timeout_ms := DEFAULT_REBALANCE_TIMEOUT_MS, session_timeout_ms := cf_session_timeout_ms config\<rparr>"

definition join_member ::
    "member_id \<Rightarrow> heartbeat_request \<Rightarrow> client \<Rightarrow> group_config \<Rightarrow> consumer_group
      \<Rightarrow> group_error + (member_id \<times> bool \<times> consumer_group)" where
  "join_member new_id rq client config g =
     (let mid = (if rq_member_id rq = [] then new_id else rq_member_id rq);
          predecessor = (case rq_instance_id rq of
             None \<Rightarrow> None
           | Some instance \<Rightarrow>
               List.find (\<lambda>(other, m). other \<noteq> mid \<and> instance_id m = Some instance) (g_members g))
      in case predecessor of
           Some (previous_id, replaced) \<Rightarrow>
             if \<not> is_leaving_static replaced then Inl UnreleasedInstanceId
             else
               Inr (mid, False, g\<lparr>g_members := bt_insert mid
                 (replaced\<lparr>member_epoch := 0, previous_member_epoch := 0, member_state := Stable, classic := None,
                    pending_revocation := [], revocation_deadline_ms := None,
                    client_id := c_id client, client_host := c_host client\<rparr>)
                 (bt_remove previous_id (g_members g))\<rparr>)
         | None \<Rightarrow>
             (case bt_get (g_members g) mid of
                Some m \<Rightarrow>
                  Inr (mid, False, put_member mid (m\<lparr>member_epoch := 0, previous_member_epoch := 0, member_state := Stable,
                    classic := None, assigned := [], pending_revocation := [], revocation_deadline_ms := None\<rparr>) g)
              | None \<Rightarrow>
                  if rq_subscribed_topic_names rq = None \<and> Option.bind (requested_regex rq) (\<lambda>r. r) = None
                  then Inl InvalidRequest
                  else if is_some_and (cf_max_size config) (\<lambda>max_size. length (g_members g) \<ge> max_size)
                  then Inl GroupMaxSizeReached
                  else Inr (mid, True, put_member mid (new_member rq client config) g)))"

definition validate_epoch :: "consumer_group \<Rightarrow> heartbeat_request \<Rightarrow> partitions option \<Rightarrow> group_error option" where
  "validate_epoch g rq owned =
     (case bt_get (g_members g) (rq_member_id rq) of
        None \<Rightarrow> Some UnknownMemberId
      | Some m \<Rightarrow>
          if rq_member_epoch rq > member_epoch m then Some FencedMemberEpoch
          else if rq_member_epoch rq < member_epoch m \<and>
            \<not> (rq_member_epoch rq = previous_member_epoch m \<and>
               is_some_and owned (\<lambda>ps. list_all (\<lambda>x. x \<in> set (flatten (assigned m))) (flatten ps)))
          then Some FencedMemberEpoch
          else None)"

definition update_subscription :: "heartbeat_request \<Rightarrow> consumer_member \<Rightarrow> bool \<times> consumer_member" where
  "update_subscription rq m =
     (case rq_subscribed_topic_names rq of
        None \<Rightarrow> (False, m)
      | Some requested \<Rightarrow>
          (let names = fold vec_insert requested []
           in if names \<noteq> subscribed_topic_names m then (True, m\<lparr>subscribed_topic_names := names\<rparr>) else (False, m)))"

definition update_regex :: "compiler \<Rightarrow> heartbeat_request \<Rightarrow> bool \<times> consumer_member \<Rightarrow> group_error + (bool \<times> consumer_member)" where
  "update_regex compile rq bm = (case bm of (resubscribed, m) \<Rightarrow>
     (case requested_regex rq of
        None \<Rightarrow> Inr (resubscribed, m)
      | Some regex \<Rightarrow>
          rbind (case regex of None \<Rightarrow> Inr () | Some r \<Rightarrow> rbind (topic_pattern compile r) (\<lambda>_. Inr ())) (\<lambda>_.
            if subscribed_topic_regex m \<noteq> regex then Inr (True, m\<lparr>subscribed_topic_regex := regex\<rparr>)
            else Inr (resubscribed, m))))"

definition update_assignor :: "heartbeat_request \<Rightarrow> bool \<times> consumer_member \<Rightarrow> group_error + (bool \<times> consumer_member)" where
  "update_assignor rq bm = (case bm of (resubscribed, m) \<Rightarrow>
     (case rq_server_assignor rq of
        None \<Rightarrow> Inr (resubscribed, m)
      | Some a \<Rightarrow>
          if \<not> assignor_is_supported a then Inl UnsupportedAssignor
          else if server_assignor m \<noteq> Some a then Inr (True, m\<lparr>server_assignor := Some a\<rparr>)
          else Inr (resubscribed, m)))"

definition update_identity :: "heartbeat_request \<Rightarrow> client \<Rightarrow> group_config \<Rightarrow> consumer_member \<Rightarrow> consumer_member" where
  "update_identity rq client config m =
     (let m = m\<lparr>session_timeout_ms := cf_session_timeout_ms config\<rparr>;
          m = (if c_host client \<noteq> [] then m\<lparr>client_host := c_host client\<rparr> else m);
          m = (case rq_rack_id rq of None \<Rightarrow> m | Some rack \<Rightarrow> m\<lparr>rack_id := Some rack\<rparr>)
      in if rq_rebalance_timeout_ms rq > 0 then m\<lparr>rebalance_timeout_ms := rq_rebalance_timeout_ms rq\<rparr> else m)"

definition update_member ::
    "compiler \<Rightarrow> heartbeat_request \<Rightarrow> client \<Rightarrow> group_config \<Rightarrow> consumer_member \<Rightarrow> group_error + (bool \<times> consumer_member)" where
  "update_member compile rq client config m =
     rbind (update_regex compile rq (update_subscription rq (update_identity rq client config m))) (update_assignor rq)"

definition leave_member :: "heartbeat_request \<Rightarrow> int \<Rightarrow> consumer_group \<Rightarrow> group_error + (bool \<times> consumer_group)" where
  "leave_member rq now_ms g =
     (case bt_get (g_members g) (rq_member_id rq) of
        None \<Rightarrow> Inl UnknownMemberId
      | Some m \<Rightarrow>
          if rq_member_epoch rq = LEAVING_STATIC_MEMBER_EPOCH \<and> instance_id m \<noteq> None
          then Inr (False, put_member (rq_member_id rq) (m\<lparr>member_epoch := LEAVING_STATIC_MEMBER_EPOCH, last_contact_ms := now_ms\<rparr>) g)
          else Inr (True, g\<lparr>g_members := bt_remove (rq_member_id rq) (g_members g)\<rparr>))"

definition retarget_if :: "bool \<Rightarrow> compiler \<Rightarrow> consumer_group \<Rightarrow> consumer_group" where
  "retarget_if rebalance compile g = (if rebalance then retarget compile g else g)"

text \<open>The member the request is for: who joins under which id, or whose epoch is in order.\<close>

definition admit ::
    "member_id \<Rightarrow> heartbeat_request \<Rightarrow> client \<Rightarrow> group_config \<Rightarrow> partitions option \<Rightarrow> consumer_group
      \<Rightarrow> group_error + (member_id \<times> bool \<times> consumer_group)" where
  "admit new_id rq client config owned g =
     (if rq_member_epoch rq = 0 then join_member new_id rq client config g
      else case validate_epoch g rq owned of
             Some err \<Rightarrow> Inl err
           | None \<Rightarrow> Inr (rq_member_id rq, False, g))"

definition update_in :: "compiler \<Rightarrow> heartbeat_request \<Rightarrow> client \<Rightarrow> group_config \<Rightarrow> member_id \<Rightarrow> consumer_group \<Rightarrow> group_error + (bool \<times> consumer_group)" where
  "update_in compile rq client config mid g =
     (case bt_get (g_members g) mid of
        None \<Rightarrow> Inr (False, g)
      | Some m \<Rightarrow> rbind (update_member compile rq client config m) (\<lambda>(resubscribed, m'). Inr (resubscribed, put_member mid m' g)))"

definition refresh_by :: "resolved option \<Rightarrow> consumer_group \<Rightarrow> bool \<times> consumer_group" where
  "refresh_by res g = (case res of None \<Rightarrow> (False, g) | Some r \<Rightarrow> refresh_topics r g)"

definition answer ::
    "consumer_group \<Rightarrow> heartbeat_request \<Rightarrow> liveness \<Rightarrow> group_config \<Rightarrow> partitions option \<Rightarrow> int \<Rightarrow> member_id \<Rightarrow> consumer_group
      \<Rightarrow> group_error + heartbeat_response transition" where
  "answer prior rq l config owned now_ms mid g =
     (case bt_get (g_members g) mid of
        None \<Rightarrow> Inl UnknownMemberId
      | Some m \<Rightarrow>
          (let renewal_due = sat_i64 (now_ms - known_contact_ms l mid m) \<ge> session_timeout_ms m sdiv 2;
               send = rq_member_epoch rq \<noteq> member_epoch m \<or>
                 map_option assigned (bt_get (g_members prior) mid) \<noteq> Some (assigned m) \<or>
                 is_some_and owned (\<lambda>ps. ps \<noteq> assigned m);
               changed = (g \<noteq> prior)
           in Inr \<lparr> tr_group = (if changed then put_member mid (m\<lparr>last_contact_ms := now_ms\<rparr>) g else g),
                    tr_changed = changed, tr_renew = (renewal_due \<and> \<not> changed), tr_member_id = mid,
                    tr_response = \<lparr> rs_member_id = Some mid, rs_member_epoch = member_epoch m,
                      rs_heartbeat_interval_ms = cf_heartbeat_interval_ms config,
                      rs_assignment = (if send then Some (assigned m) else None) \<rparr> \<rparr>))"

definition heartbeat_apply ::
    "compiler \<Rightarrow> member_id \<Rightarrow> consumer_group option \<Rightarrow> heartbeat_request \<Rightarrow> client \<Rightarrow> resolved option \<Rightarrow> liveness
      \<Rightarrow> group_config \<Rightarrow> int \<Rightarrow> group_error + heartbeat_response transition" where
  "heartbeat_apply compile new_id held rq client res l config now_ms =
     (let prior = unwrap_or (group_default\<lparr>created_ms := now_ms\<rparr>) held;
          owned = owned_from_request rq;
          (swept, g) = sweep_members l now_ms prior
      in if rq_member_epoch rq = -1 \<or> rq_member_epoch rq = LEAVING_STATIC_MEMBER_EPOCH then
           rbind (leave_member rq now_ms g) (\<lambda>(left, g).
             let g = retarget_if (swept \<or> left) compile g
             in Inr \<lparr> tr_group = g, tr_changed = (g \<noteq> prior), tr_renew = False, tr_member_id = [],
                      tr_response = \<lparr> rs_member_id = Some (rq_member_id rq), rs_member_epoch = rq_member_epoch rq,
                        rs_heartbeat_interval_ms = 0, rs_assignment = None \<rparr> \<rparr>)
         else
           rbind (admit new_id rq client config owned g) (\<lambda>(mid, joined, g).
           rbind (update_in compile rq client config mid g) (\<lambda>(resubscribed, g).
             let (moved, g) = refresh_by res g;
                 g = retarget_if (swept \<or> joined \<or> resubscribed \<or> moved) compile g;
                 g = reconcile_member mid owned now_ms g
             in answer prior rq l config owned now_ms mid g)))"


section \<open>The coordinator around it\<close>

text \<open>A heartbeat for a group with no document is a member whose group is gone.\<close>

definition heartbeat_step ::
    "compiler \<Rightarrow> member_id \<Rightarrow> consumer_group option \<Rightarrow> heartbeat_request \<Rightarrow> client \<Rightarrow> resolved option \<Rightarrow> liveness
      \<Rightarrow> group_config \<Rightarrow> int \<Rightarrow> group_error + heartbeat_response transition" where
  "heartbeat_step compile new_id held rq client res l config now_ms =
     (if held = None \<and> rq_member_epoch rq \<noteq> 0 then Inl UnknownMemberId
      else heartbeat_apply compile new_id held rq client res l config now_ms)"

record topic_metadata =
  tm_error_code :: int
  tm_internal :: "bool option"
  tm_name :: "string option"
  tm_topic_id :: "topic_id option"
  tm_partitions :: "int list option"

text \<open>\<open>metadata\<close> is the answer of the storage, for the topics named or for all; \<open>i32::try_from\<close> drops a topic of more
  partitions than fit.\<close>

definition resolve_topics :: "(string list option \<Rightarrow> topic_metadata list) \<Rightarrow> subscriptions \<Rightarrow> resolved" where
  "resolve_topics metadata s =
     (if sub_patterns s = [] \<and> sub_names s = [] then []
      else fold (\<lambda>topic res.
             let n = int (length (unwrap_or [] (tm_partitions topic)))
             in case (tm_name topic, tm_topic_id topic) of
                  (Some name, Some t) \<Rightarrow>
                    if tm_error_code topic = 0 \<and> tm_internal topic \<noteq> Some True \<and> subscriptions_include s name \<and> fits_s 4 n
                    then bt_insert name (t, n) res else res
                | _ \<Rightarrow> res)
             (metadata (if sub_patterns s \<noteq> [] then None else Some (sub_names s))) [])"

definition consumer_liveness :: "int option \<Rightarrow> member_id \<Rightarrow> contact_stamps option \<Rightarrow> liveness" where
  "consumer_liveness noted mid stamps =
     (let newest = fold (\<lambda>(m, ss) acc. case next_back ss of None \<Rightarrow> acc | Some stamp \<Rightarrow> bt_insert m stamp acc) (unwrap_or [] stamps) []
      in \<lparr> contacts = (case noted of
             None \<Rightarrow> newest
           | Some at_ms \<Rightarrow> bt_insert mid (case bt_get newest mid of None \<Rightarrow> at_ms | Some contact \<Rightarrow> max contact at_ms) newest),
           listed = (stamps \<noteq> None) \<rparr>)"

text \<open>The stamps no reader will ask about again.\<close>

definition stale_stamps :: "consumer_group \<Rightarrow> contact_stamps \<Rightarrow> (member_id \<times> int) list" where
  "stale_stamps g stamps = concat (map (\<lambda>(mid, ss).
     let kept = (if bt_get (g_members g) mid \<noteq> None then next_back ss else None)
     in map (Pair mid) (filter (\<lambda>stamp. Some stamp \<noteq> kept) ss)) stamps)"

definition CONSUMER_METADATA_REFRESH_MS :: int where "CONSUMER_METADATA_REFRESH_MS = 5000"

definition consumer_metadata_due :: "int option \<Rightarrow> heartbeat_request \<Rightarrow> int \<Rightarrow> bool" where
  "consumer_metadata_due noted rq now_ms \<longleftrightarrow> rq_member_epoch rq = 0 \<or> rq_subscribed_topic_names rq \<noteq> None \<or>
     rq_subscribed_topic_regex rq \<noteq> None \<or>
     is_none_or noted (\<lambda>noted_ms. sat_i64 (now_ms - noted_ms) \<ge> CONSUMER_METADATA_REFRESH_MS)"

definition MAX_GENERATION_CAS_ATTEMPTS :: nat where "MAX_GENERATION_CAS_ATTEMPTS = 64"

datatype update_answer = Updated | Outdated | Vanished | UpdateFailed

text \<open>What one attempt meets: the clock, the document read, the sender's noted renewal, the topics resolved when
  asked for, and the store's answer to the write.\<close>

record cas_attempt =
  ca_now_ms :: int
  ca_held :: "consumer_group option"
  ca_noted :: "int option"
  ca_metadata :: "string list option \<Rightarrow> topic_metadata list"
  ca_update :: update_answer

datatype 'r outcome = Answered 'r "consumer_group option" "(member_id \<times> int) option" | Refused group_error | StoreFailed

fun consumer_transition ::
    "(consumer_group option \<Rightarrow> resolved option \<Rightarrow> liveness \<Rightarrow> int \<Rightarrow> group_error + 'r transition) \<Rightarrow> (consumer_group option \<Rightarrow> subscriptions)
      \<Rightarrow> member_id \<Rightarrow> contact_stamps option \<Rightarrow> nat \<Rightarrow> cas_attempt list \<Rightarrow> 'r outcome option" where
  "consumer_transition step subs mid stamps conflicts [] = None"
| "consumer_transition step subs mid stamps conflicts (a # as) =
     (let res = (if stamps = None then None else Some (resolve_topics (ca_metadata a) (subs (ca_held a))))
      in case step (ca_held a) res (consumer_liveness (ca_noted a) mid stamps) (ca_now_ms a) of
           Inl err \<Rightarrow> Some (Refused err)
         | Inr tr \<Rightarrow>
             if \<not> tr_changed tr then
               Some (Answered (tr_response tr) None
                 (if tr_renew tr \<and> tr_member_id tr \<noteq> [] then Some (tr_member_id tr, ca_now_ms a) else None))
             else
               (case ca_update a of
                  Updated \<Rightarrow> Some (Answered (tr_response tr) (Some (bumped (tr_group tr))) None)
                | UpdateFailed \<Rightarrow> Some StoreFailed
                | _ \<Rightarrow>
                    if conflicts \<ge> MAX_GENERATION_CAS_ATTEMPTS then Some (Refused CoordinatorLoadInProgress)
                    else consumer_transition step subs mid stamps (conflicts + 1) as))"

text \<open>\<open>admission\<close> is what \<open>consumer_join_admission\<close> answered for the group.\<close>

definition consumer_heartbeat ::
    "compiler \<Rightarrow> member_id \<Rightarrow> group_config \<Rightarrow> client \<Rightarrow> heartbeat_request \<Rightarrow> group_error option \<Rightarrow> contact_stamps \<Rightarrow> int option \<Rightarrow> int
      \<Rightarrow> cas_attempt list \<Rightarrow> heartbeat_response outcome option" where
  "consumer_heartbeat compile new_id config client rq admission stamps noted now_ms as =
     (case (if rq_member_epoch rq = 0 then admission else None) of
        Some err \<Rightarrow> Some (Refused err)
      | None \<Rightarrow>
          consumer_transition (\<lambda>held res l now. heartbeat_step compile new_id held rq client res l config now)
            (\<lambda>held. subscriptions_of compile held rq) (rq_member_id rq)
            (if consumer_metadata_due noted rq now_ms then Some stamps else None) 0 as)"

section \<open>The contract of an assignor\<close>

definition wf_topics :: "(topic_id, int) btree \<Rightarrow> bool" where
  "wf_topics ts \<longleftrightarrow> bt_inv ts \<and> (\<forall>(t, n) \<in> set ts. 0 \<le> n)"

text \<open>What \<open>retarget\<close> relies on: no partition has two owners, and a target names partitions that can exist.\<close>

locale partition_assignor =
  fixes asg :: "members \<Rightarrow> (topic_id, int) btree \<Rightarrow> assignment"
  assumes result_inv: "bt_inv ms \<Longrightarrow> wf_previous ms \<Longrightarrow> wf_topics ts \<Longrightarrow> assignment_inv (asg ms ts)"
    and one_owner: "bt_inv ms \<Longrightarrow> wf_previous ms \<Longrightarrow> wf_topics ts \<Longrightarrow>
      assigned_to (asg ms ts) m t p \<Longrightarrow> assigned_to (asg ms ts) m' t p \<Longrightarrow> m = m'"
    and partition_nonneg: "bt_inv ms \<Longrightarrow> wf_previous ms \<Longrightarrow> wf_topics ts \<Longrightarrow>
      assigned_to (asg ms ts) m t p \<Longrightarrow> 0 \<le> p"
begin

lemma target_pair:
  assumes "bt_inv ms" "wf_previous ms" "wf_topics ts"
    and "(t, xs) \<in> set (unwrap_or [] (bt_get (asg ms ts) m))" and "p \<in> set xs"
  shows "assigned_to (asg ms ts) m t p"
proof -
  obtain ps where ps: "bt_get (asg ms ts) m = Some ps" "(t, xs) \<in> set ps"
    using assms(4) by (cases "bt_get (asg ms ts) m") auto
  then have "bt_inv ps" using result_inv [OF assms(1-3)] by (auto simp: assignment_inv_def)
  then have "bt_get ps t = Some xs" using ps(2) by (simp add: bt_get_in)
  then show ?thesis using ps(1) assms(5) by (auto simp: assigned_to_def)
qed

end

lemma range_members_inv: "assignment_inv a \<Longrightarrow> assignment_inv (range_members t q e i n ms a)"
proof (induction ms arbitrary: i n a)
  case (Cons m ms)
  have step: "assignment_inv (case bt_get a m of None \<Rightarrow> a
    | Some ps \<Rightarrow> bt_insert m (bt_insert t (v ps) ps) a)" for v
    using Cons.prems by (auto simp: assignment_inv_def bt_get_insert bt_inv_insert split: option.split)
  show ?case using Cons.IH Cons.prems step by (simp add: Let_def)
qed simp

lemma range_assign_inv: "bt_inv ms \<Longrightarrow> assignment_inv (range_assign ms ts)"
proof -
  assume "bt_inv ms"
  have "assignment_inv a \<Longrightarrow> assignment_inv (fold (range_topic ms) ts a)" for a
    by (induction ts arbitrary: a) (auto simp: range_topic_def Let_def range_members_inv split_beta)
  then show ?thesis unfolding range_assign_def using nothing_assigned_inv [OF \<open>bt_inv ms\<close>] by blast
qed

lemma topic_share_single:
  assumes n: "0 \<le> n" and sh: "topic_share ms t n m p" "topic_share ms t n m' p"
  shows "m = m'"
proof -
  let ?subs = "map fst (subscribers ms t)"
  let ?c = "int (length ?subs)"
  have sh: "share (n sdiv ?c) (n smod ?c) 0 ?subs m p" "share (n sdiv ?c) (n smod ?c) 0 ?subs m' p"
    using sh by (simp_all add: topic_share_def Let_def)
  then have c: "0 < ?c" by (auto simp: share_def)
  have q: "0 \<le> n div ?c" using n c by (simp add: pos_imp_zdiv_nonneg_iff)
  obtain i j where "?subs ! i = m" "range_start (n div ?c) (n mod ?c) (int i) \<le> p" "p < range_start (n div ?c) (n mod ?c) (int i + 1)"
      "?subs ! j = m'" "range_start (n div ?c) (n mod ?c) (int j) \<le> p" "p < range_start (n div ?c) (n mod ?c) (int j + 1)"
    using sh sdiv_nonneg [OF n c] by (auto simp: share_def)
  with range_start_unique [OF q] show ?thesis by blast
qed

interpretation uniform: partition_assignor uniform_assign
proof
  fix ms ts m m' t p
  assume ms: "bt_inv ms" and prev: "wf_previous ms" and ts: "wf_topics ts"
  have inv: "bt_inv ts" using ts by (simp add: wf_topics_def)
  show "assignment_inv (uniform_assign ms ts)"
    unfolding uniform_assign_def by (intro fold_assign_owned_inv nothing_assigned_inv ms)
  note to = uniform_assigned_to [OF prev inv]
  show "m = m'" if "assigned_to (uniform_assign ms ts) m t p" "assigned_to (uniform_assign ms ts) m' t p"
    using that by (simp add: to)
  show "0 \<le> p" if "assigned_to (uniform_assign ms ts) m t p"
  proof -
    have "owners_inv ms ts (fst (uniform_owners ms ts))"
      using uniform_owners_result(1) [OF prev inv] by (simp add: state_inv_def)
    then show ?thesis using that owners_invD unfolding to by blast
  qed
qed

interpretation ranged: partition_assignor range_assign
proof
  fix ms :: members and ts :: "(topic_id, int) btree" and m m' :: member_id and t :: topic_id and p :: int
  assume ms: "bt_inv ms" and ts: "wf_topics ts"
  have inv: "bt_inv ts" and pos: "\<forall>(t, n) \<in> set ts. 0 \<le> n" using ts by (simp_all add: wf_topics_def)
  show "assignment_inv (range_assign ms ts)" by (rule range_assign_inv [OF ms])
  note to = range_assigned_to [OF pos inv]
  have n: "0 \<le> n" if "bt_get ts t = Some n" for n using that pos bt_get_in [OF inv] by fastforce
  show "m = m'" if "assigned_to (range_assign ms ts) m t p" "assigned_to (range_assign ms ts) m' t p"
    using that n topic_share_single unfolding to by fastforce
  show "0 \<le> p" if "assigned_to (range_assign ms ts) m t p"
    using that n topic_share_bounds unfolding to by blast
qed

interpretation chosen: partition_assignor "assign name" for name
proof
  fix ms ts m m' t p
  assume a: "bt_inv ms" "wf_previous ms" "wf_topics ts"
  show "assignment_inv (assign name ms ts)"
    using uniform.result_inv [OF a] ranged.result_inv [OF a] by (simp add: assign_def)
  show "m = m'" if "assigned_to (assign name ms ts) m t p" "assigned_to (assign name ms ts) m' t p"
    using that uniform.one_owner [OF a] ranged.one_owner [OF a] by (auto simp: assign_def split: if_splits)
  show "0 \<le> p" if "assigned_to (assign name ms ts) m t p"
    using that uniform.partition_nonneg [OF a] ranged.partition_nonneg [OF a] by (auto simp: assign_def split: if_splits)
qed

section \<open>Partitions as sets of pairs\<close>

definition pairs :: "partitions \<Rightarrow> (topic_id \<times> int) set" where
  "pairs ps = {(t, p). \<exists>xs. (t, xs) \<in> set ps \<and> p \<in> set xs}"

lemma set_flatten [simp]: "set (flatten ps) = pairs ps"
  by (auto simp: flatten_def set_fold_vec_insert pairs_def)

lemma pairs_code [code]: "pairs ps = set (flatten ps)"
  by simp

lemma pairs_Nil [simp]: "pairs [] = {}"
  by (simp add: pairs_def)

lemma grouped_inv:
  assumes "bt_inv acc"
  shows "bt_inv (fold (\<lambda>(t, p). bt_update t [] (vec_insert p)) xs acc)"
  using assms by (induction xs arbitrary: acc) (auto simp: bt_inv_update split_beta)

lemma pairs_get: "bt_inv ps \<Longrightarrow> pairs ps = {(t, p). \<exists>xs. bt_get ps t = Some xs \<and> p \<in> set xs}"
  by (simp add: pairs_def bt_get_in)

lemma pairs_update: "bt_inv acc \<Longrightarrow> pairs (bt_update t [] (vec_insert p) acc) = insert (t, p) (pairs acc)"
  by (cases "bt_get acc t") (auto simp: pairs_get bt_inv_update set_vec_insert split: if_splits)

lemma pairs_fold_grouped:
  "bt_inv acc \<Longrightarrow> pairs (fold (\<lambda>(t, p). bt_update t [] (vec_insert p)) xs acc) = set xs \<union> pairs acc"
  by (induction xs arbitrary: acc) (auto simp: pairs_update bt_inv_update)

lemma pairs_grouped [simp]: "pairs (grouped xs) = set xs"
  by (simp add: grouped_def pairs_fold_grouped)

lemma grouped_Nil_iff: "grouped xs = [] \<longleftrightarrow> xs = []"
proof
  assume "grouped xs = []"
  then have "pairs (grouped xs) = {}" by simp
  then show "xs = []" by simp
qed (simp add: grouped_def)

lemma still_owns_iff: "still_owns owned revoking \<longleftrightarrow> (\<forall>ps. owned = Some ps \<longrightarrow> pairs ps \<inter> pairs revoking \<noteq> {})"
  by (cases owned) (auto simp: still_owns_def is_none_or_def list_ex_iff)

definition held_by :: "consumer_member \<Rightarrow> (topic_id \<times> int) set" where
  "held_by m = pairs (assigned m) \<union> pairs (pending_revocation m)"

lemma set_owned_by_others:
  assumes "bt_inv (g_members g)"
  shows "set (owned_by_others g mid) = \<Union> {held_by m | m other. other \<noteq> mid \<and> bt_get (g_members g) other = Some m}"
  using assms by (auto simp: owned_by_others_def set_fold_vec_insert held_by_def bt_get_in) 


section \<open>The invariant of the document\<close>

definition EPOCH_MAX :: int where "EPOCH_MAX = 2 ^ 31 - 1"

text \<open>A member of a group whose targets were computed at \<open>e\<close>. The last clause leaves out epoch 0, at which a member
  rejoins, and the epoch the saturating addition ends at.\<close>

definition member_inv :: "int \<Rightarrow> consumer_member \<Rightarrow> bool" where
  "member_inv e m \<longleftrightarrow>
     (member_state m \<noteq> UnrevokedPartitions \<longrightarrow> pending_revocation m = []) \<and>
     pairs (assigned m) \<inter> pairs (pending_revocation m) = {} \<and>
     (\<forall>(t, p) \<in> pairs (target m). 0 \<le> p) \<and>
     member_epoch m \<le> e \<and>
     (1 \<le> e \<and> e < EPOCH_MAX \<and> member_state m = Stable \<and> member_epoch m = e \<longrightarrow> pairs (assigned m) = pairs (target m))"

definition apart :: "(consumer_member \<Rightarrow> (topic_id \<times> int) set) \<Rightarrow> (member_id, consumer_member) btree \<Rightarrow> bool" where
  "apart f ms \<longleftrightarrow> (\<forall>c d mc md. bt_get ms c = Some mc \<and> bt_get ms d = Some md \<and> c \<noteq> d \<longrightarrow> f mc \<inter> f md = {})"

definition targets :: "consumer_member \<Rightarrow> (topic_id \<times> int) set" where
  "targets m = pairs (target m)"

definition group_inv :: "consumer_group \<Rightarrow> bool" where
  "group_inv g \<longleftrightarrow> bt_inv (g_members g) \<and>
     bt_inv (topics g) \<and> (\<forall>(t, topic) \<in> set (topics g). 0 \<le> st_partitions topic) \<and>
     group_epoch g = assignment_epoch g \<and> 0 \<le> assignment_epoch g \<and> assignment_epoch g \<le> EPOCH_MAX \<and>
     (\<forall>c m. bt_get (g_members g) c = Some m \<longrightarrow> member_inv (assignment_epoch g) m) \<and>
     apart held_by (g_members g) \<and> apart targets (g_members g)"

lemma apartD: "apart f ms \<Longrightarrow> bt_get ms c = Some mc \<Longrightarrow> bt_get ms d = Some md \<Longrightarrow> c \<noteq> d \<Longrightarrow> f mc \<inter> f md = {}"
  by (auto simp: apart_def)

lemma apart_sub:
  assumes "apart f ms"
    and "\<And>c m. bt_get ms' c = Some m \<Longrightarrow> \<exists>m0. bt_get ms (src c) = Some m0 \<and> f m \<subseteq> f m0 \<or> f m = {}"
    and "\<And>c d. bt_get ms' c \<noteq> None \<Longrightarrow> bt_get ms' d \<noteq> None \<Longrightarrow> src c = src d \<Longrightarrow> c = d"
  shows "apart f ms'"
  unfolding apart_def
proof (intro allI impI, elim conjE)
  fix c d mc md assume h: "bt_get ms' c = Some mc" "bt_get ms' d = Some md" "c \<noteq> d"
  then have "src c \<noteq> src d" using assms(3) by auto
  then show "f mc \<inter> f md = {}" using assms(2) [OF h(1)] assms(2) [OF h(2)] apartD [OF assms(1)] by blast
qed

lemma apart_put:
  assumes "apart f ms" and "\<And>d md. bt_get ms d = Some md \<Longrightarrow> d \<noteq> mid \<Longrightarrow> f m \<inter> f md = {}"
  shows "apart f (bt_insert mid m ms)"
  unfolding apart_def
proof (intro allI impI, elim conjE)
  fix c d mc md assume h: "bt_get (bt_insert mid m ms) c = Some mc" "bt_get (bt_insert mid m ms) d = Some md" "c \<noteq> d"
  then show "f mc \<inter> f md = {}"
    using assms(2) [of c mc] assms(2) [of d md] apartD [OF assms(1)] by (auto simp: bt_get_insert split: if_splits)
qed

lemma group_invD:
  assumes "group_inv g"
  shows "bt_inv (g_members g)" "bt_get (g_members g) c = Some m \<Longrightarrow> member_inv (assignment_epoch g) m"
    "apart held_by (g_members g)" "apart targets (g_members g)" "group_epoch g = assignment_epoch g"
    "0 \<le> assignment_epoch g" "assignment_epoch g \<le> EPOCH_MAX"
  using assms by (auto simp: group_inv_def)

lemma group_inv_put:
  assumes "group_inv g" and "member_inv (assignment_epoch g) m"
    and "\<And>d md. bt_get (g_members g) d = Some md \<Longrightarrow> d \<noteq> mid \<Longrightarrow> held_by m \<inter> held_by md = {} \<and> targets m \<inter> targets md = {}"
  shows "group_inv (put_member mid m g)"
  using assms by (auto simp: group_inv_def put_member_def bt_inv_insert bt_get_insert intro!: apart_put)

text \<open>A change of one member that neither takes nor is promised anything more.\<close>

lemma group_inv_put_less:
  assumes "group_inv g" and "member_inv (assignment_epoch g) m" and "bt_get (g_members g) mid = Some m0"
    and "held_by m \<subseteq> held_by m0" and "targets m \<subseteq> targets m0"
  shows "group_inv (put_member mid m g)"
  using assms(4,5) apartD [OF group_invD(3) [OF assms(1)] assms(3)] apartD [OF group_invD(4) [OF assms(1)] assms(3)]
  by (intro group_inv_put assms(1,2)) blast

lemma get_put_member: "bt_get (g_members (put_member mid m g)) c = (if c = mid then Some m else bt_get (g_members g) c)"
  by (simp add: put_member_def bt_get_insert)

lemma put_member_fields [simp]:
  "assignment_epoch (put_member mid m g) = assignment_epoch g" "topics (put_member mid m g) = topics g"
  "group_epoch (put_member mid m g) = group_epoch g"
  by (simp_all add: put_member_def)

section \<open>Reconciling one member\<close>

lemma next_assignment_fields [simp]: "target (next_assignment e taken owned now_ms m) = target m"
  by (simp add: next_assignment_def Let_def)

text \<open>The two outcomes: the member gives up what is not in its target, or moves to the epoch.\<close>

definition must_revoke :: "partitions option \<Rightarrow> consumer_member \<Rightarrow> bool" where
  "must_revoke owned m \<longleftrightarrow> pairs (assigned m) - targets m \<noteq> {} \<and>
     (\<forall>ps. owned = Some ps \<longrightarrow> pairs ps \<inter> (pairs (assigned m) - targets m) \<noteq> {})"

lemma revoking_pairs: "{x \<in> pairs (assigned m). x \<notin> pairs (target m)} = pairs (assigned m) - targets m"
  by (auto simp: targets_def)

lemma must_revoke_guard:
  "(grouped (filter (\<lambda>x. x \<notin> pairs (target m)) (flatten (assigned m))) \<noteq> [] \<and>
     still_owns owned (grouped (filter (\<lambda>x. x \<notin> pairs (target m)) (flatten (assigned m))))) \<longleftrightarrow> must_revoke owned m"
  by (simp add: grouped_Nil_iff still_owns_iff must_revoke_def revoking_pairs filter_empty_conv) (auto simp: targets_def)

lemma next_assignment_revoke:
  assumes "must_revoke owned m" and m': "m' = next_assignment e taken owned now_ms m"
  shows "member_state m' = UnrevokedPartitions" "pairs (assigned m') = pairs (assigned m) \<inter> targets m"
    "pairs (pending_revocation m') = pairs (assigned m) - targets m" "member_epoch m' = member_epoch m"
proof -
  have m': "m' = (if member_state m \<noteq> UnrevokedPartitions
            then m\<lparr>revocation_deadline_ms := Some (sat_i64 (now_ms + rebalance_timeout_ms m))\<rparr> else m)
      \<lparr>member_state := UnrevokedPartitions, assigned := grouped (filter (\<lambda>x. x \<in> pairs (target m)) (flatten (assigned m))),
       pending_revocation := grouped (filter (\<lambda>x. x \<notin> pairs (target m)) (flatten (assigned m)))\<rparr>"
    unfolding m' next_assignment_def Let_def set_flatten must_revoke_guard using assms(1) by (rule if_P)
  show "member_state m' = UnrevokedPartitions" "member_epoch m' = member_epoch m"
    "pairs (pending_revocation m') = pairs (assigned m) - targets m"
    by (simp_all add: m' revoking_pairs)
  show "pairs (assigned m') = pairs (assigned m) \<inter> targets m" by (auto simp: m' targets_def)
qed

lemma next_assignment_advance:
  assumes "\<not> must_revoke owned m" and m': "m' = next_assignment e taken owned now_ms m"
  shows "member_state m' = (if (targets m - pairs (assigned m)) \<inter> set taken = {} then Stable else UnreleasedPartitions)"
    "pairs (assigned m') = pairs (assigned m) \<inter> targets m \<union> (targets m - pairs (assigned m) - set taken)"
    "pending_revocation m' = []" "member_epoch m' = e"
proof -
  let ?wanted = "filter (\<lambda>x. x \<notin> pairs (assigned m)) (flatten (target m))"
  have m': "m' = (if member_epoch m \<noteq> e then m\<lparr>previous_member_epoch := member_epoch m, member_epoch := e\<rparr> else m)
      \<lparr>member_state := (if filter (\<lambda>x. x \<in> set taken) ?wanted = [] then Stable else UnreleasedPartitions),
       assigned := grouped (filter (\<lambda>x. x \<in> pairs (target m)) (flatten (assigned m)) @ filter (\<lambda>x. x \<notin> set taken) ?wanted),
       pending_revocation := [], revocation_deadline_ms := None\<rparr>"
    unfolding m' next_assignment_def Let_def set_flatten must_revoke_guard using assms(1) by (rule if_not_P)
  show "pending_revocation m' = []" "member_epoch m' = e" by (simp_all add: m')
  show "pairs (assigned m') = pairs (assigned m) \<inter> targets m \<union> (targets m - pairs (assigned m) - set taken)"
    by (auto simp: m' targets_def)
  have "filter (\<lambda>x. x \<in> set taken) ?wanted = [] \<longleftrightarrow> (targets m - pairs (assigned m)) \<inter> set taken = {}"
    by (auto simp: filter_empty_conv targets_def)
  then show "member_state m' = (if (targets m - pairs (assigned m)) \<inter> set taken = {} then Stable else UnreleasedPartitions)"
    unfolding m' by simp
qed

lemma next_assignment_held:
  "held_by (next_assignment e taken owned now_ms m) \<subseteq> pairs (assigned m) \<union> (targets m - set taken)"
  using next_assignment_revoke [OF _ refl, of owned m e taken now_ms] next_assignment_advance [OF _ refl, of owned m e taken now_ms]
  by (cases "must_revoke owned m") (auto simp: held_by_def)

lemma next_assignment_inv:
  assumes "member_inv e m"
  shows "member_inv e (next_assignment e taken owned now_ms m)"
proof (cases "must_revoke owned m")
  case True
  then show ?thesis using assms next_assignment_revoke [OF True refl, of e taken now_ms] by (auto simp: member_inv_def)
next
  case False
  then show ?thesis using assms next_assignment_advance [OF False refl, of e taken now_ms]
    by (auto simp: member_inv_def targets_def split: if_splits)
qed

text \<open>What the client still consumes from is never given away: \<open>own\<close> is what it reports, or says nothing about.\<close>

lemma next_assignment_keeps_own:
  assumes "member_inv e m" and "own \<subseteq> held_by m" and "\<forall>ps. owned = Some ps \<longrightarrow> own \<subseteq> pairs ps"
    and "member_moves target_epoch owned m"
  shows "own \<subseteq> held_by (next_assignment target_epoch taken owned now_ms m)"
proof -
  have own: "own \<subseteq> pairs (assigned m)"
    using assms by (cases "member_state m") (fastforce simp: member_inv_def held_by_def member_moves_def still_owns_iff)+
  show ?thesis
  proof (cases "must_revoke owned m")
    case True
    then show ?thesis using own next_assignment_revoke [OF True refl, of target_epoch taken now_ms] by (auto simp: held_by_def)
  next
    case False
    then have "own \<subseteq> targets m" using own assms(3) by (auto simp: must_revoke_def)
    then show ?thesis using own next_assignment_advance [OF False refl, of target_epoch taken now_ms] by (auto simp: held_by_def)
  qed
qed

lemma reconcile_get_other: "c \<noteq> mid \<Longrightarrow> bt_get (g_members (reconcile_member mid owned now_ms g)) c = bt_get (g_members g) c"
  by (auto simp: reconcile_member_def get_put_member split: option.split)

lemma reconcile_fields [simp]:
  "assignment_epoch (reconcile_member mid owned now_ms g) = assignment_epoch g"
  "topics (reconcile_member mid owned now_ms g) = topics g"
  by (auto simp: reconcile_member_def split: option.split)

lemma reconcile_get:
  assumes "bt_get (g_members g) mid = Some m"
  shows "bt_get (g_members (reconcile_member mid owned now_ms g)) mid =
    Some (if member_moves (assignment_epoch g) owned m
          then next_assignment (assignment_epoch g) (owned_by_others g mid) owned now_ms m else m)"
  using assms by (simp add: reconcile_member_def get_put_member)

lemma reconcile_core:
  assumes "group_inv g"
  shows "group_inv (reconcile_member mid owned now_ms g)"
proof (cases "bt_get (g_members g) mid")
  case None
  then show ?thesis using assms by (simp add: reconcile_member_def)
next
  case (Some m)
  let ?m = "next_assignment (assignment_epoch g) (owned_by_others g mid) owned now_ms m"
  have "group_inv (put_member mid ?m g)"
  proof (rule group_inv_put [OF assms])
    show "member_inv (assignment_epoch g) ?m" by (intro next_assignment_inv group_invD(2) [OF assms Some])
    fix d md assume d: "bt_get (g_members g) d = Some md" "d \<noteq> mid"
    have "held_by md \<subseteq> set (owned_by_others g mid)"
      using d by (auto simp: set_owned_by_others [OF group_invD(1) [OF assms]])
    moreover have "held_by m \<inter> held_by md = {}" "targets m \<inter> targets md = {}"
      using apartD [OF group_invD(3) [OF assms] Some d(1)] apartD [OF group_invD(4) [OF assms] Some d(1)] d(2) by auto
    ultimately show "held_by ?m \<inter> held_by md = {} \<and> targets ?m \<inter> targets md = {}"
      using next_assignment_held [of "assignment_epoch g" "owned_by_others g mid" owned now_ms m]
      by (auto simp: held_by_def targets_def)
  qed
  then show ?thesis using Some assms by (simp add: reconcile_member_def)
qed


section \<open>The operations keep the invariant\<close>

text \<open>The document, and what each client consumes from: \<open>own\<close> lies within what the document holds for it.\<close>

definition tracks :: "(member_id \<Rightarrow> (topic_id \<times> int) set) \<Rightarrow> consumer_group \<Rightarrow> bool" where
  "tracks own g \<longleftrightarrow> group_inv g \<and> (\<forall>c m. bt_get (g_members g) c = Some m \<longrightarrow> own c \<subseteq> held_by m)"

lemma tracksD: "tracks own g \<Longrightarrow> group_inv g" "tracks own g \<Longrightarrow> bt_get (g_members g) c = Some m \<Longrightarrow> own c \<subseteq> held_by m"
  by (auto simp: tracks_def)

lemma tracks_sub:
  assumes "tracks own g" and "bt_inv ms" and "\<And>c m. bt_get ms c = Some m \<Longrightarrow> bt_get (g_members g) c = Some m"
  shows "tracks own (g\<lparr>g_members := ms\<rparr>)"
proof -
  have "apart f (g_members g) \<Longrightarrow> apart f ms" for f unfolding apart_def using assms(3) by blast
  then show ?thesis using assms by (simp add: tracks_def group_inv_def) blast
qed

lemma tracks_put:
  assumes "tracks own g" and "member_inv (assignment_epoch g) m" and "own mid \<subseteq> held_by m"
    and "\<And>d md. bt_get (g_members g) d = Some md \<Longrightarrow> d \<noteq> mid \<Longrightarrow> held_by m \<inter> held_by md = {} \<and> targets m \<inter> targets md = {}"
  shows "tracks own (put_member mid m g)"
  using assms group_inv_put [OF tracksD(1) [OF assms(1)] assms(2,4)]
  by (auto simp: tracks_def get_put_member split: if_splits)

lemma tracks_put_less:
  assumes "tracks own g" and "member_inv (assignment_epoch g) m" and "bt_get (g_members g) mid = Some m0"
    and "held_by m \<subseteq> held_by m0" and "targets m \<subseteq> targets m0" and "own mid \<subseteq> held_by m"
  shows "tracks own (put_member mid m g)"
  using assms group_inv_put_less [OF tracksD(1) [OF assms(1)] assms(2-5)]
  by (auto simp: tracks_def get_put_member split: if_splits)

text \<open>Two members alike in everything the invariant reads.\<close>

definition same_place :: "consumer_member \<Rightarrow> consumer_member \<Rightarrow> bool" where
  "same_place m m' \<longleftrightarrow> member_epoch m' = member_epoch m \<and> member_state m' = member_state m \<and> assigned m' = assigned m \<and>
     pending_revocation m' = pending_revocation m \<and> target m' = target m"

lemma same_place_facts:
  assumes "same_place m m'"
  shows "held_by m' = held_by m" "targets m' = targets m" "member_inv e m' = member_inv e m"
  using assms by (auto simp: same_place_def held_by_def targets_def member_inv_def)

lemma tracks_put_same:
  assumes "tracks own g" and "bt_get (g_members g) mid = Some m0" and "same_place m0 m"
  shows "tracks own (put_member mid m g)"
  using tracks_put_less [OF assms(1) _ assms(2)] tracksD(2) [OF assms(1,2)] group_invD(2) [OF tracksD(1) [OF assms(1)] assms(2)]
  by (simp add: same_place_facts [OF assms(3)])

lemma sweep_tracks: "tracks own g \<Longrightarrow> tracks own (snd (sweep_members l now_ms g))"
  unfolding sweep_members_def Let_def snd_conv
  by (rule tracks_sub) (auto simp: group_invD(1) [OF tracksD(1)] bt_inv_filter bt_get_filter split: option.splits if_splits)

lemma fresh_topics_wf:
  assumes "bt_inv acc" and "\<And>t topic. bt_get acc t = Some topic \<Longrightarrow> 0 \<le> st_partitions topic"
    and "\<forall>(name, t, n) \<in> set r. 0 \<le> n" and "fresh = fold (\<lambda>(name, t, n). bt_insert t \<lparr> st_name = name, st_partitions = n \<rparr>) r acc"
  shows "bt_inv fresh \<and> (\<forall>t topic. bt_get fresh t = Some topic \<longrightarrow> 0 \<le> st_partitions topic)"
  using assms
proof (induction r arbitrary: acc)
  case (Cons x r)
  obtain name t n where x: "x = (name, t, n)" by (cases x)
  show ?case
    by (rule Cons.IH [of "bt_insert t \<lparr> st_name = name, st_partitions = n \<rparr> acc"])
      (use Cons.prems in \<open>auto simp: x bt_inv_insert bt_get_insert split: if_splits\<close>)
qed simp

lemma resolved_topics_wf:
  assumes "\<forall>(name, t, n) \<in> set res. 0 \<le> n"
  shows "bt_inv (resolved_topics res)" "\<forall>(t, topic) \<in> set (resolved_topics res). 0 \<le> st_partitions topic"
proof -
  have fresh: "bt_inv (resolved_topics res)" "\<forall>t topic. bt_get (resolved_topics res) t = Some topic \<longrightarrow> 0 \<le> st_partitions topic"
    using fresh_topics_wf [OF bt_inv_Nil _ assms refl] by (simp_all add: resolved_topics_def)
  show "bt_inv (resolved_topics res)" by (rule fresh(1))
  show "\<forall>(t, topic) \<in> set (resolved_topics res). 0 \<le> st_partitions topic"
    using fresh(2) by (auto simp: bt_get_in [OF fresh(1)])
qed

lemma refresh_tracks:
  assumes "tracks own g" and "\<forall>(name, t, n) \<in> set res. 0 \<le> n"
  shows "tracks own (snd (refresh_topics res g))"
proof -
  show ?thesis using assms(1) resolved_topics_wf [OF assms(2)] by (simp add: refresh_topics_def Let_def tracks_def group_inv_def)
qed

lemma retarget_get:
  "bt_get (g_members (retarget compile g)) c = map_option (\<lambda>m. m\<lparr>target := unwrap_or [] (bt_get
     (assign (preferred_assignor g) (map (\<lambda>(mid, m). (mid, spec_of compile (topics_by_name g) m)) (g_members g))
       (map (\<lambda>(t, topic). (t, st_partitions topic)) (topics g))) c)\<rparr>) (bt_get (g_members g) c)"
  by (simp add: retarget_def Let_def bt_get_map)

lemma retarget_epoch: "group_inv g \<Longrightarrow> assignment_epoch (retarget compile g) = min (assignment_epoch g + 1) EPOCH_MAX"
  by (auto simp: retarget_def Let_def group_inv_def sat_i32_def EPOCH_MAX_def)

text \<open>The targets computed: nobody shares a partition.\<close>

definition new_targets :: "compiler \<Rightarrow> consumer_group \<Rightarrow> member_id \<Rightarrow> partitions" where
  "new_targets compile g c = unwrap_or [] (bt_get
     (assign (preferred_assignor g) (map (\<lambda>(mid, m). (mid, spec_of compile (topics_by_name g) m)) (g_members g))
       (map (\<lambda>(t, topic). (t, st_partitions topic)) (topics g))) c)"

lemma wf_specs:
  assumes core: "group_inv g"
  shows "wf_previous (map (\<lambda>(mid, m). (mid, spec_of compile by_name m)) (g_members g))"
proof -
  have "0 \<le> p" if "(c, m) \<in> set (g_members g)" "(t, xs) \<in> set (target m)" "p \<in> set xs" for c m t xs p
  proof -
    have "bt_get (g_members g) c = Some m" using that(1) by (simp add: bt_get_in [OF group_invD(1) [OF core]])
    moreover have "(t, p) \<in> pairs (target m)" using that(2,3) by (auto simp: pairs_def)
    ultimately show ?thesis using group_invD(2) [OF core, of c m] by (auto simp: member_inv_def)
  qed
  then show ?thesis unfolding wf_previous_def spec_of_def Let_def by fastforce
qed

lemma new_targets_apart:
  assumes core: "group_inv g"
  shows "(t, p) \<in> pairs (new_targets compile g c) \<Longrightarrow> 0 \<le> p"
    and "c \<noteq> d \<Longrightarrow> pairs (new_targets compile g c) \<inter> pairs (new_targets compile g d) = {}"
proof -
  let ?ms = "map (\<lambda>(mid, m). (mid, spec_of compile (topics_by_name g) m)) (g_members g)"
  let ?ts = "map (\<lambda>(t, topic). (t, st_partitions topic)) (topics g)"
  have ms: "bt_inv ?ms" using core by (simp add: bt_inv_map group_inv_def)
  have ts: "wf_topics ?ts" using core by (auto simp: wf_topics_def bt_inv_map group_inv_def)
  note prev = wf_specs [OF core, of compile "topics_by_name g"]
  have to: "assigned_to (assign (preferred_assignor g) ?ms ?ts) c t p" if "(t, p) \<in> pairs (new_targets compile g c)" for c t p
    using that chosen.target_pair [OF ms prev ts] unfolding new_targets_def pairs_def by blast
  show "0 \<le> p" if "(t, p) \<in> pairs (new_targets compile g c)"
    by (rule chosen.partition_nonneg [OF ms prev ts to [OF that]])
  show "pairs (new_targets compile g c) \<inter> pairs (new_targets compile g d) = {}" if "c \<noteq> d"
  proof (intro equals0I)
    fix x assume "x \<in> pairs (new_targets compile g c) \<inter> pairs (new_targets compile g d)"
    then have "(fst x, snd x) \<in> pairs (new_targets compile g c)" "(fst x, snd x) \<in> pairs (new_targets compile g d)" by simp_all
    then show False using that chosen.one_owner [OF ms prev ts to to] by blast
  qed
qed

lemma retarget_core:
  assumes core: "group_inv g"
  shows "group_inv (retarget compile g)"
proof -
  have get: "bt_get (g_members (retarget compile g)) c = map_option (\<lambda>m. m\<lparr>target := new_targets compile g c\<rparr>) (bt_get (g_members g) c)" for c
    by (simp add: retarget_get new_targets_def)
  have e: "assignment_epoch (retarget compile g) = min (assignment_epoch g + 1) EPOCH_MAX" by (rule retarget_epoch [OF core])
  have same: "group_epoch (retarget compile g) = assignment_epoch (retarget compile g)" "topics (retarget compile g) = topics g"
    by (simp_all add: retarget_def Let_def)
  have inv: "bt_inv (g_members (retarget compile g))" using core by (simp add: retarget_def Let_def bt_inv_map group_inv_def)
  have "member_inv (assignment_epoch (retarget compile g)) m" if m: "bt_get (g_members (retarget compile g)) c = Some m" for c m
  proof -
    obtain m0 where m0: "bt_get (g_members g) c = Some m0" "m = m0\<lparr>target := new_targets compile g c\<rparr>"
      using m by (auto simp: get)
    then show ?thesis
      using group_invD(2) [OF core m0(1)] group_invD(7) [OF core] new_targets_apart(1) [OF core, of _ _ compile c]
      unfolding e by (auto simp: member_inv_def)
  qed
  moreover have "apart held_by (g_members (retarget compile g))"
    using group_invD(3) [OF core] unfolding apart_def get by (clarsimp simp: held_by_def)
  moreover have "apart targets (g_members (retarget compile g))"
    unfolding apart_def get by (clarsimp simp: targets_def new_targets_apart(2) [OF core])
  ultimately show ?thesis
    using core inv same e group_invD(6) [OF core] unfolding group_inv_def by (auto simp: EPOCH_MAX_def)
qed

lemma retarget_tracks:
  assumes "tracks own g"
  shows "tracks own (retarget_if b compile g)"
proof (cases b)
  case True
  have "own c \<subseteq> held_by m" if "bt_get (g_members (retarget compile g)) c = Some m" for c m
    using that tracksD(2) [OF assms, of c] by (auto simp: retarget_get held_by_def)
  then show ?thesis using True retarget_core [OF tracksD(1) [OF assms]] by (simp add: retarget_if_def tracks_def)
qed (use assms in \<open>simp add: retarget_if_def\<close>)

lemma same_place_trans: "same_place a b \<Longrightarrow> same_place b c \<Longrightarrow> same_place a c"
  by (simp add: same_place_def)

lemma update_steps_same_place:
  "same_place m (snd (update_subscription rq m))"
  "update_regex compile rq bm = Inr bm' \<Longrightarrow> same_place (snd bm) (snd bm')"
  "update_assignor rq bm = Inr bm' \<Longrightarrow> same_place (snd bm) (snd bm')"
  by (auto simp: update_subscription_def update_regex_def update_assignor_def result_simps same_place_def Let_def
      split: option.splits if_splits prod.splits)

lemma update_same_place:
  assumes "update_member compile rq client config m = Inr (b, m')"
  shows "same_place m m'"
proof -
  have "same_place m (update_identity rq client config m)"
    by (simp add: update_identity_def Let_def same_place_def split: option.split)
  moreover obtain bm where "update_regex compile rq (update_subscription rq (update_identity rq client config m)) = Inr bm"
      "update_assignor rq bm = Inr (b, m')"
    using assms by (auto simp: update_member_def result_simps)
  ultimately show ?thesis using update_steps_same_place same_place_trans by (metis snd_conv)
qed

lemma update_tracks:
  assumes "tracks own g" and "update_in compile rq client config mid g = Inr (b, g')"
  shows "tracks own g'"
proof (cases "bt_get (g_members g) mid")
  case None
  then show ?thesis using assms by (simp add: update_in_def)
next
  case (Some m)
  then obtain m' where m': "update_member compile rq client config m = Inr (b, m')" "g' = put_member mid m' g"
    using assms(2) by (auto simp: update_in_def result_simps)
  show ?thesis unfolding m'(2) by (rule tracks_put_same [OF assms(1) Some update_same_place [OF m'(1)]])
qed

lemma leave_tracks:
  assumes "tracks own g" and "leave_member rq now_ms g = Inr (b, g')" and "0 \<le> assignment_epoch g"
  shows "tracks own g'"
proof -
  obtain m where m: "bt_get (g_members g) (rq_member_id rq) = Some m"
    using assms(2) by (auto simp: leave_member_def split: option.splits)
  let ?m = "m\<lparr>member_epoch := LEAVING_STATIC_MEMBER_EPOCH, last_contact_ms := now_ms\<rparr>"
  note inv = group_invD(2) [OF tracksD(1) [OF assms(1)] m]
  have "tracks own (put_member (rq_member_id rq) ?m g)"
    using inv assms(3) tracksD(2) [OF assms(1) m]
    by (intro tracks_put_less [OF assms(1) _ m]) (auto simp: member_inv_def held_by_def targets_def LEAVING_STATIC_MEMBER_EPOCH_def)
  moreover have "tracks own (g\<lparr>g_members := bt_remove (rq_member_id rq) (g_members g)\<rparr>)"
    using group_invD(1) [OF tracksD(1) [OF assms(1)]] by (intro tracks_sub [OF assms(1)]) (auto simp: bt_inv_remove split: if_splits)
  ultimately show ?thesis using assms(2) m by (auto simp: leave_member_def split: if_splits)
qed


text \<open>A client that joins owns nothing yet; a document with members has had a target computed.\<close>

lemma tracks_put_new:
  assumes "tracks own g" and "own mid = {}" and "member_inv (assignment_epoch g) m" and "held_by m = {}"
    and "\<And>d md. bt_get (g_members g) d = Some md \<Longrightarrow> d \<noteq> mid \<Longrightarrow> targets m \<inter> targets md = {}"
  shows "tracks own (put_member mid m g)"
  using assms by (intro tracks_put) auto

lemma new_member_inv: "0 \<le> e \<Longrightarrow> member_inv e (new_member rq client config)"
  and new_member_holds: "held_by (new_member rq client config) = {}" "targets (new_member rq client config) = {}"
  by (simp_all add: new_member_def member_default_def member_inv_def held_by_def targets_def)

lemma join_tracks:
  assumes tr: "tracks own g"
    and join: "join_member new_id rq client config g = Inr (mid, joined, g')"
    and own: "own (if rq_member_id rq = [] then new_id else rq_member_id rq) = {}"
  shows "tracks own g'" and "assignment_epoch g' = assignment_epoch g"
    and "mid = (if rq_member_id rq = [] then new_id else rq_member_id rq)" and "bt_get (g_members g') mid \<noteq> None"
proof -
  let ?id = "if rq_member_id rq = [] then new_id else rq_member_id rq"
  let ?pred = "case rq_instance_id rq of None \<Rightarrow> None
     | Some instance \<Rightarrow> List.find (\<lambda>(other, m). other \<noteq> ?id \<and> instance_id m = Some instance) (g_members g)"
  note core = tracksD(1) [OF tr]
  show "mid = ?id" using join by (auto simp: join_member_def Let_def split: option.splits if_splits prod.splits)
  have "tracks own g' \<and> assignment_epoch g' = assignment_epoch g \<and> bt_get (g_members g') ?id \<noteq> None"
  proof (cases ?pred)
    case (Some pr)
    obtain pid m where pr: "pr = (pid, m)" by (cases pr)
    have "(pid, m) \<in> set (g_members g)" "pid \<noteq> ?id"
      using Some unfolding pr by (auto simp: find_Some_iff in_set_conv_nth split: option.splits)
    then have m: "bt_get (g_members g) pid = Some m" "pid \<noteq> ?id" by (simp_all add: bt_get_in [OF group_invD(1) [OF core]])
    let ?m = "m\<lparr>member_epoch := 0, previous_member_epoch := 0, member_state := Stable, classic := None,
      pending_revocation := [], revocation_deadline_ms := None, client_id := c_id client, client_host := c_host client\<rparr>"
    let ?g = "g\<lparr>g_members := bt_remove pid (g_members g)\<rparr>"
    have g': "g' = put_member ?id ?m ?g" "\<not> joined"
      using join Some pr by (auto simp: join_member_def Let_def put_member_def split: if_splits)
    have "tracks own ?g"
      using group_invD(1) [OF core] by (intro tracks_sub [OF tr]) (auto simp: bt_inv_remove split: if_splits)
    moreover have "member_inv (assignment_epoch ?g) ?m"
      using group_invD(2) [OF core m(1)] group_invD(6) [OF core] by (auto simp: member_inv_def)
    moreover have "held_by ?m \<subseteq> held_by m" "targets ?m = targets m" by (auto simp: held_by_def targets_def)
    moreover have "held_by m \<inter> held_by md = {}" "targets m \<inter> targets md = {}" if "bt_get (g_members ?g) d = Some md" for d md
      using that apartD [OF group_invD(3) [OF core] m(1)] apartD [OF group_invD(4) [OF core] m(1)] by (auto split: if_splits)
    ultimately have "tracks own (put_member ?id ?m ?g)"
      using own by (intro tracks_put) (blast, blast, simp, blast)
    then show ?thesis using g' by (simp add: get_put_member)
  next
    case None
    show ?thesis
    proof (cases "bt_get (g_members g) ?id")
      case (Some m)
      let ?m = "m\<lparr>member_epoch := 0, previous_member_epoch := 0, member_state := Stable,
        classic := None, assigned := [], pending_revocation := [], revocation_deadline_ms := None\<rparr>"
      have g': "g' = put_member ?id ?m g" "\<not> joined" using join Some None by (auto simp: join_member_def Let_def)
      have "tracks own (put_member ?id ?m g)"
        using own group_invD(2) [OF core Some] group_invD(6) [OF core] apartD [OF group_invD(4) [OF core] Some]
        by (intro tracks_put_new tr) (auto simp: member_inv_def held_by_def targets_def)
      then show ?thesis using g' by (simp add: get_put_member)
    next
      case new: None
      have g': "g' = put_member ?id (new_member rq client config) g" "joined"
        using join new None by (auto simp: join_member_def Let_def split: if_splits)
      have "tracks own g'"
        unfolding g' using own new_member_inv [OF group_invD(6) [OF core]] new_member_holds
        by (intro tracks_put_new tr) auto
      then show ?thesis using g' by (simp add: get_put_member)
    qed
  qed
  then show "tracks own g'" "assignment_epoch g' = assignment_epoch g"
    "bt_get (g_members g') mid \<noteq> None" using \<open>mid = ?id\<close> by blast+
qed


lemma sweep_fields:
  "sweep_members l now_ms g = (swept, g') \<Longrightarrow> assignment_epoch g' = assignment_epoch g"
  "sweep_members l now_ms g = (swept, g') \<Longrightarrow> g_members g' \<noteq> [] \<Longrightarrow> g_members g \<noteq> []"
  "sweep_members l now_ms g = (swept, g') \<Longrightarrow> bt_inv (g_members g) \<Longrightarrow> bt_get (g_members g') c = Some m \<Longrightarrow> bt_get (g_members g) c = Some m"
  by (auto simp: sweep_members_def Let_def bt_get_filter split: option.splits if_splits)

lemma update_in_get:
  assumes "update_in compile rq client config mid g = Inr (b, g')"
  shows "assignment_epoch g' = assignment_epoch g" "c \<noteq> mid \<Longrightarrow> bt_get (g_members g') c = bt_get (g_members g) c"
    "bt_get (g_members g) mid = Some m \<Longrightarrow> \<exists>m'. bt_get (g_members g') mid = Some m' \<and> same_place m m'"
    "g_members g' \<noteq> [] \<Longrightarrow> g_members g \<noteq> []"
  using assms update_same_place
  by (auto simp: update_in_def result_simps get_put_member split: option.splits if_splits)

lemma refresh_fields:
  "refresh_topics res g = (moved, g') \<Longrightarrow> g_members g' = g_members g"
  "refresh_topics res g = (moved, g') \<Longrightarrow> assignment_epoch g' = assignment_epoch g"
  by (auto simp: refresh_topics_def Let_def split: if_splits)

definition wf_resolved :: "resolved option \<Rightarrow> bool" where
  "wf_resolved res \<longleftrightarrow> is_none_or res (\<lambda>r. \<forall>(name, t, n) \<in> set r. 0 \<le> n)"

lemma refresh_by_tracks:
  assumes "tracks own g" and "wf_resolved res" and "refresh_by res g = (moved, g')"
  shows "tracks own g'"
proof (cases res)
  case None
  then show ?thesis using assms by (simp add: refresh_by_def)
next
  case (Some r)
  then show ?thesis
    using refresh_tracks [OF assms(1), of r] assms(2,3) by (simp add: refresh_by_def wf_resolved_def is_none_or_def)
qed

lemma refresh_by_fields:
  "refresh_by res g = (moved, g') \<Longrightarrow> g_members g' = g_members g"
  "refresh_by res g = (moved, g') \<Longrightarrow> assignment_epoch g' = assignment_epoch g"
  by (auto simp: refresh_by_def refresh_fields split: option.splits)

definition leaving :: "heartbeat_request \<Rightarrow> bool" where
  "leaving rq \<longleftrightarrow> rq_member_epoch rq = -1 \<or> rq_member_epoch rq = LEAVING_STATIC_MEMBER_EPOCH"

text \<open>The steps of a heartbeat that is served.\<close>

lemma heartbeat_elim:
  assumes "heartbeat_apply compile new_id held rq client res l config now_ms = Inr tr" and "\<not> leaving rq"
    and prior: "prior = unwrap_or (group_default\<lparr>created_ms := now_ms\<rparr>) held" and owned: "owned = owned_from_request rq"
  obtains swept g0 mid joined g1 resub g2 moved g3
  where "sweep_members l now_ms prior = (swept, g0)" "admit new_id rq client config owned g0 = Inr (mid, joined, g1)"
    "update_in compile rq client config mid g1 = Inr (resub, g2)" "refresh_by res g2 = (moved, g3)"
    "answer prior rq l config owned now_ms mid
       (reconcile_member mid owned now_ms (retarget_if (swept \<or> joined \<or> resub \<or> moved) compile g3)) = Inr tr"
proof -
  obtain swept g0 where sw: "sweep_members l now_ms prior = (swept, g0)" by (cases "sweep_members l now_ms prior")
  have "rbind (admit new_id rq client config owned g0) (\<lambda>(mid, joined, g).
           rbind (update_in compile rq client config mid g) (\<lambda>(resubscribed, g).
             let (moved, g) = refresh_by res g;
                 g = retarget_if (swept \<or> joined \<or> resubscribed \<or> moved) compile g;
                 g = reconcile_member mid owned now_ms g
             in answer prior rq l config owned now_ms mid g)) = Inr tr"
    using assms(1,2) sw unfolding heartbeat_apply_def leaving_def by (simp add: Let_def prior owned)
  then obtain mid joined g1 resub g2 where adm: "admit new_id rq client config owned g0 = Inr (mid, joined, g1)"
      "update_in compile rq client config mid g1 = Inr (resub, g2)"
      "(case refresh_by res g2 of (moved, g) \<Rightarrow> answer prior rq l config owned now_ms mid
         (reconcile_member mid owned now_ms (retarget_if (swept \<or> joined \<or> resub \<or> moved) compile g))) = Inr tr"
    unfolding Let_def by (auto simp: rbind_Inr_iff)
  obtain moved g3 where "refresh_by res g2 = (moved, g3)" by (cases "refresh_by res g2")
  then show thesis using that [OF sw adm(1,2)] adm(3) by simp
qed

lemma heartbeat_leave_elim:
  assumes "heartbeat_apply compile new_id held rq client res l config now_ms = Inr tr" and "leaving rq"
    and prior: "prior = unwrap_or (group_default\<lparr>created_ms := now_ms\<rparr>) held"
  obtains swept g0 left g1
  where "sweep_members l now_ms prior = (swept, g0)" "leave_member rq now_ms g0 = Inr (left, g1)"
    "tr_group tr = retarget_if (swept \<or> left) compile g1" "rs_assignment (tr_response tr) = None"
    "tr_changed tr = (tr_group tr \<noteq> prior)"
proof -
  obtain swept g0 where sw: "sweep_members l now_ms prior = (swept, g0)" by (cases "sweep_members l now_ms prior")
  then show thesis using assms(1,2) that
    unfolding heartbeat_apply_def leaving_def by (auto simp: Let_def prior result_simps)
qed

lemma answer_elim:
  assumes "answer prior rq l config owned now_ms mid g = Inr tr"
  obtains m m' where "bt_get (g_members g) mid = Some m" "same_place m m'" "bt_get (g_members (tr_group tr)) mid = Some m'"
    "tr_group tr = (if g \<noteq> prior then put_member mid m' g else g)" "tr_changed tr = (g \<noteq> prior)"
    "rs_assignment (tr_response tr) = (if rq_member_epoch rq \<noteq> member_epoch m \<or>
        map_option assigned (bt_get (g_members prior) mid) \<noteq> Some (assigned m) \<or> is_some_and owned (\<lambda>ps. ps \<noteq> assigned m)
      then Some (assigned m) else None)"
    "rs_member_epoch (tr_response tr) = member_epoch m"
proof -
  obtain m where m: "bt_get (g_members g) mid = Some m" using assms by (auto simp: answer_def split: option.splits)
  show thesis
    by (rule that [of m "if g \<noteq> prior then m\<lparr>last_contact_ms := now_ms\<rparr> else m"])
      (use assms m in \<open>auto simp: answer_def Let_def same_place_def get_put_member\<close>)
qed


section \<open>A heartbeat\<close>

definition sender :: "member_id \<Rightarrow> heartbeat_request \<Rightarrow> member_id" where
  "sender new_id rq = (if rq_member_epoch rq = 0 \<and> rq_member_id rq = [] then new_id else rq_member_id rq)"

text \<open>An honest client reports at least what it consumes from, and owns nothing when it joins or leaves.\<close>

definition honest :: "(topic_id \<times> int) set \<Rightarrow> heartbeat_request \<Rightarrow> bool" where
  "honest own rq \<longleftrightarrow> is_none_or (owned_from_request rq) (\<lambda>ps. own \<subseteq> pairs ps) \<and>
     (rq_member_epoch rq = 0 \<or> leaving rq \<longrightarrow> own = {})"

lemma honest_iff:
  "honest own rq \<longleftrightarrow> (\<forall>ps. owned_from_request rq = Some ps \<longrightarrow> own \<subseteq> pairs ps) \<and>
     (rq_member_epoch rq = 0 \<or> leaving rq \<longrightarrow> own = {})"
  by (cases "owned_from_request rq") (auto simp: honest_def is_none_or_def)

lemma admit_tracks:
  assumes tr: "tracks own g"
    and adm: "admit new_id rq client config owned g = Inr (mid, joined, g')" and "honest (own (sender new_id rq)) rq"
  shows "tracks own g'" "assignment_epoch g' = assignment_epoch g"
    "mid = sender new_id rq" "bt_get (g_members g') mid \<noteq> None"
proof -
  have "tracks own g' \<and> assignment_epoch g' = assignment_epoch g \<and>
    mid = sender new_id rq \<and> bt_get (g_members g') mid \<noteq> None"
  proof (cases "rq_member_epoch rq = 0")
    case True
    then have "own (if rq_member_id rq = [] then new_id else rq_member_id rq) = {}" using assms(3) by (simp add: honest_iff sender_def)
    from join_tracks [OF tr _ this] adm True show ?thesis by (auto simp: admit_def sender_def)
  next
    case False
    then show ?thesis using assms
      by (cases "g_members g") (auto simp: admit_def sender_def validate_epoch_def split: option.splits)
  qed
  then show "tracks own g'" "assignment_epoch g' = assignment_epoch g"
    "mid = sender new_id rq" "bt_get (g_members g') mid \<noteq> None" by blast+
qed

lemma group_default_tracks: "tracks own (group_default\<lparr>created_ms := now_ms\<rparr>)"
  by (simp add: tracks_def group_inv_def group_default_def apart_def EPOCH_MAX_def)

lemma reconcile_tracks:
  assumes "tracks own g" and "\<forall>ps. owned = Some ps \<longrightarrow> own mid \<subseteq> pairs ps"
  shows "tracks own (reconcile_member mid owned now_ms g)"
proof -
  have "own c \<subseteq> held_by m'" if m': "bt_get (g_members (reconcile_member mid owned now_ms g)) c = Some m'" for c m'
  proof (cases "c = mid")
    case False
    then show ?thesis using tracksD(2) [OF assms(1)] m' by (simp add: reconcile_get_other)
  next
    case True
    obtain m where m: "bt_get (g_members g) mid = Some m"
      using m' True by (cases "bt_get (g_members g) mid") (simp_all add: reconcile_member_def)
    show ?thesis
      using m' True tracksD(2) [OF assms(1) m] reconcile_get [OF m, of owned now_ms]
        next_assignment_keeps_own [OF group_invD(2) [OF tracksD(1) [OF assms(1)] m] tracksD(2) [OF assms(1) m] assms(2),
          of "assignment_epoch g" "owned_by_others g mid" now_ms]
      by (simp split: if_splits)
  qed
  then show ?thesis using reconcile_core [OF tracksD(1) [OF assms(1)]] by (simp add: tracks_def)
qed

text \<open>What one request does, decided on the document as read, for the heartbeat and for leaving.\<close>

lemma heartbeat_tracks:
  assumes beat: "heartbeat_apply compile new_id held rq client res l config now_ms = Inr tr"
    and prior: "prior = unwrap_or (group_default\<lparr>created_ms := now_ms\<rparr>) held"
    and tr: "tracks own prior" and res: "wf_resolved res"
    and hon: "honest (own (sender new_id rq)) rq"
  shows "tracks own (tr_group tr)"
    and "rs_assignment (tr_response tr) = Some a \<Longrightarrow>
      \<exists>m. bt_get (g_members (tr_group tr)) (sender new_id rq) = Some m \<and> pairs a \<subseteq> held_by m"
proof -
  let ?c = "sender new_id rq"
  have "tracks own (tr_group tr) \<and> (\<forall>a. rs_assignment (tr_response tr) = Some a \<longrightarrow>
      (\<exists>m. bt_get (g_members (tr_group tr)) ?c = Some m \<and> pairs a \<subseteq> held_by m))"
  proof (cases "leaving rq")
    case True
    obtain swept g0 left g1 where s: "sweep_members l now_ms prior = (swept, g0)" "leave_member rq now_ms g0 = Inr (left, g1)"
        "tr_group tr = retarget_if (swept \<or> left) compile g1" "rs_assignment (tr_response tr) = None"
      by (rule heartbeat_leave_elim [OF beat True prior])
    have t0: "tracks own g0" using sweep_tracks [OF tr, of l now_ms] s(1) by simp
    have t1: "tracks own g1" by (rule leave_tracks [OF t0 s(2) group_invD(6) [OF tracksD(1) [OF t0]]])
    show ?thesis using retarget_tracks [OF t1, of "swept \<or> left" compile] s(3,4) by simp
  next
    case False
    obtain swept g0 mid joined g1 resub g2 moved g3 where
        s: "sweep_members l now_ms prior = (swept, g0)"
        "admit new_id rq client config (owned_from_request rq) g0 = Inr (mid, joined, g1)"
        "update_in compile rq client config mid g1 = Inr (resub, g2)" "refresh_by res g2 = (moved, g3)"
        "answer prior rq l config (owned_from_request rq) now_ms mid
           (reconcile_member mid (owned_from_request rq) now_ms (retarget_if (swept \<or> joined \<or> resub \<or> moved) compile g3)) = Inr tr"
      by (rule heartbeat_elim [OF beat False prior refl])
    let ?b = "swept \<or> joined \<or> resub \<or> moved"
    let ?g5 = "reconcile_member mid (owned_from_request rq) now_ms (retarget_if ?b compile g3)"
    have t0: "tracks own g0" using sweep_tracks [OF tr, of l now_ms] s(1) by simp
    note adm = admit_tracks [OF t0 s(2) hon]
    have t3: "tracks own g3" by (rule refresh_by_tracks [OF update_tracks [OF adm(1) s(3)] res s(4)])
    have t5: "tracks own ?g5"
      using hon adm(3) by (intro reconcile_tracks retarget_tracks t3) (simp add: honest_iff)
    obtain m m' where a: "bt_get (g_members ?g5) mid = Some m" "same_place m m'" "bt_get (g_members (tr_group tr)) mid = Some m'"
        "tr_group tr = (if ?g5 \<noteq> prior then put_member mid m' ?g5 else ?g5)"
        "rs_assignment (tr_response tr) = (if rq_member_epoch rq \<noteq> member_epoch m \<or>
          map_option assigned (bt_get (g_members prior) mid) \<noteq> Some (assigned m) \<or>
          is_some_and (owned_from_request rq) (\<lambda>ps. ps \<noteq> assigned m) then Some (assigned m) else None)"
      by (rule answer_elim [OF s(5)])
    have "tracks own (tr_group tr)" using t5 tracks_put_same [OF t5 a(1,2)] unfolding a(4) by presburger
    moreover have "pairs (assigned m) \<subseteq> held_by m'" using a(2) by (auto simp: same_place_def held_by_def)
    ultimately show ?thesis using a(3,5) adm(3) by auto
  qed
  then show "tracks own (tr_group tr)"
    "rs_assignment (tr_response tr) = Some a \<Longrightarrow>
      \<exists>m. bt_get (g_members (tr_group tr)) (sender new_id rq) = Some m \<and> pairs a \<subseteq> held_by m" by blast+
qed


text \<open>A request moves nobody but its sender: what any other member holds it held before.\<close>

lemma admit_others:
  assumes "admit new_id rq client config owned g = Inr (mid, joined, g')"
  shows "mid = sender new_id rq" and "d \<noteq> mid \<Longrightarrow> bt_get (g_members g') d = Some m \<Longrightarrow> bt_get (g_members g) d = Some m"
  using assms by (auto simp: admit_def join_member_def Let_def sender_def get_put_member bt_get_insert
      split: option.splits if_splits prod.splits)

lemma retarget_if_get:
  "bt_get (g_members (retarget_if b compile g)) d = Some m' \<Longrightarrow> \<exists>m. bt_get (g_members g) d = Some m \<and> held_by m' = held_by m"
  by (auto simp: retarget_if_def retarget_get held_by_def split: if_splits)

lemma heartbeat_others:
  assumes beat: "heartbeat_apply compile new_id held rq client res l config now_ms = Inr tr"
    and prior: "prior = unwrap_or (group_default\<lparr>created_ms := now_ms\<rparr>) held" and inv: "bt_inv (g_members prior)"
    and d: "d \<noteq> sender new_id rq" and m': "bt_get (g_members (tr_group tr)) d = Some m'"
  shows "\<exists>m. bt_get (g_members prior) d = Some m \<and> held_by m' = held_by m"
proof (cases "leaving rq")
  case True
  obtain swept g0 left g1 where s: "sweep_members l now_ms prior = (swept, g0)" "leave_member rq now_ms g0 = Inr (left, g1)"
      "tr_group tr = retarget_if (swept \<or> left) compile g1"
    by (rule heartbeat_leave_elim [OF beat True prior])
  obtain m where m: "bt_get (g_members g1) d = Some m" "held_by m' = held_by m" using retarget_if_get m' s(3) by metis
  have "d \<noteq> rq_member_id rq" using d True by (auto simp: sender_def leaving_def LEAVING_STATIC_MEMBER_EPOCH_def)
  then have "bt_get (g_members g0) d = Some m"
    using s(2) m(1) by (auto simp: leave_member_def get_put_member split: option.splits if_splits)
  then show ?thesis using sweep_fields(3) [OF s(1) inv] m(2) by blast
next
  case False
  obtain swept g0 mid joined g1 resub g2 moved g3 where
      s: "sweep_members l now_ms prior = (swept, g0)"
      "admit new_id rq client config (owned_from_request rq) g0 = Inr (mid, joined, g1)"
      "update_in compile rq client config mid g1 = Inr (resub, g2)" "refresh_by res g2 = (moved, g3)"
      "answer prior rq l config (owned_from_request rq) now_ms mid
         (reconcile_member mid (owned_from_request rq) now_ms (retarget_if (swept \<or> joined \<or> resub \<or> moved) compile g3)) = Inr tr"
    by (rule heartbeat_elim [OF beat False prior refl])
  let ?g4 = "retarget_if (swept \<or> joined \<or> resub \<or> moved) compile g3"
  have mid: "d \<noteq> mid" using d admit_others(1) [OF s(2)] by simp
  have "bt_get (g_members (reconcile_member mid (owned_from_request rq) now_ms ?g4)) d = Some m'"
    by (rule answer_elim [OF s(5)]) (use m' mid in \<open>simp add: get_put_member split: if_splits\<close>)
  then have "bt_get (g_members ?g4) d = Some m'" by (simp add: reconcile_get_other [OF mid])
  then obtain m where m: "bt_get (g_members g3) d = Some m" "held_by m' = held_by m" using retarget_if_get by blast
  then have "bt_get (g_members g1) d = Some m"
    using refresh_by_fields(1) [OF s(4)] update_in_get(2) [OF s(3) mid] by simp
  then show ?thesis using sweep_fields(3) [OF s(1) inv admit_others(2) [OF s(2) mid]] m(2) by blast
qed

lemma honest_mono: "honest own rq \<Longrightarrow> own' \<subseteq> own \<Longrightarrow> honest own' rq"
  by (auto simp: honest_iff)

lemma tracks_bumped [simp]: "tracks own (bumped g) = tracks own g" "g_members (bumped g) = g_members g"
  by (simp_all add: tracks_def group_inv_def bumped_def)

lemma tracks_upd:
  assumes "tracks own g" and "\<And>m. bt_get (g_members g) c = Some m \<Longrightarrow> C \<subseteq> held_by m"
  shows "tracks (own(c := C)) g"
  using assms by (auto simp: tracks_def)

lemma heartbeat_unchanged:
  assumes beat: "heartbeat_apply compile new_id held rq client res l config now_ms = Inr tr" and "\<not> tr_changed tr"
    and prior: "prior = unwrap_or (group_default\<lparr>created_ms := now_ms\<rparr>) held"
  shows "tr_group tr = prior"
proof (cases "leaving rq")
  case True
  show ?thesis by (rule heartbeat_leave_elim [OF beat True prior]) (use assms(2) in simp)
next
  case False
  show ?thesis by (rule heartbeat_elim [OF beat False prior refl], erule answer_elim) (use assms(2) in simp)
qed

text \<open>The loop returns: after the last conflict it counts it gives up.\<close>

lemma consumer_transition_returns:
  "MAX_GENERATION_CAS_ATTEMPTS - conflicts < length as \<Longrightarrow> consumer_transition step subs mid stamps conflicts as \<noteq> None"
proof (induction as arbitrary: conflicts)
  case (Cons a as)
  have "conflicts \<ge> MAX_GENERATION_CAS_ATTEMPTS \<or> MAX_GENERATION_CAS_ATTEMPTS - (conflicts + 1) < length as"
    using Cons.prems by auto
  then show ?case using Cons.IH [of "conflicts + 1"] by (auto simp: Let_def split: sum.split update_answer.split)
qed simp

text \<open>What is answered and what is written were decided on one document, the one whose version the write was made under.\<close>

lemma consumer_transition_sound:
  assumes "consumer_transition step subs mid stamps conflicts as = Some (Answered resp written renewed)"
  shows "\<exists>a res l tr. a \<in> set as \<and> step (ca_held a) res l (ca_now_ms a) = Inr tr \<and> resp = tr_response tr \<and>
    (if tr_changed tr then ca_update a = Updated \<and> written = Some (bumped (tr_group tr)) else written = None)"
  using assms
proof (induction as arbitrary: conflicts)
  case (Cons a as)
  let ?res = "if stamps = None then None else Some (resolve_topics (ca_metadata a) (subs (ca_held a)))"
  let ?l = "consumer_liveness (ca_noted a) mid stamps"
  show ?case
  proof (cases "consumer_transition step subs mid stamps (conflicts + 1) as = Some (Answered resp written renewed)")
    case True
    then show ?thesis using Cons.IH by (meson list.set_intros(2))
  next
    case False
    then obtain tr where "step (ca_held a) ?res ?l (ca_now_ms a) = Inr tr" "resp = tr_response tr"
        "if tr_changed tr then ca_update a = Updated \<and> written = Some (bumped (tr_group tr)) else written = None"
      using Cons.prems by (auto simp: Let_def split: sum.splits if_splits update_answer.splits)
    then show ?thesis by (intro exI [of _ a] exI [of _ ?res] exI [of _ ?l] exI [of _ tr]) simp
  qed
qed simp

end
