(* ===== verification/GroupWorld.thy ===== *)
theory GroupWorld
  imports ConsumerGroup
begin

text \<open>
  A consumer group served by several replicas at once: the clients, the decisions in flight and the document under
  compare-and-swap as a step relation, the contract that a request handler must meet for no partition to be consumed twice
  (the locale \<open>group_service\<close>), the heartbeat as an instance of it, and that a group left alone settles.
\<close>

section \<open>Replicas serving one group\<close>

text \<open>
  The group's document is shared through a store that writes on condition of the version read. A replica
  reads the document and decides (\<open>world_read\<close>); what it decided is answered at once when the document does not change
  (\<open>world_reply\<close>) and otherwise written under the version read (\<open>world_commit\<close>), however long after; a conflict, a crash and
  a client that gives up are \<open>world_abandon\<close>. A client sends its next request after the last one is settled, takes up no
  more than it is told, at once or never (a lost answer), and may stop consuming at any time.
\<close>

type_synonym versioned = "(consumer_group \<times> nat) option"

record decision =
  d_group :: consumer_group
  d_changed :: bool
  d_told :: "(topic_id \<times> int) set"

text \<open>What requests a client that consumes from \<open>own\<close> may have decided on a document as read.\<close>

type_synonym decider = "(topic_id \<times> int) set \<Rightarrow> member_id \<Rightarrow> consumer_group option \<Rightarrow> decision \<Rightarrow> bool"

record flight =
  f_read :: versioned
  f_decision :: decision

record group_world =
  w_doc :: versioned
  w_versions :: nat
  w_own :: "member_id \<Rightarrow> (topic_id \<times> int) set"
  w_flight :: "member_id \<Rightarrow> flight option"

inductive world_step :: "decider \<Rightarrow> group_world \<Rightarrow> group_world \<Rightarrow> bool" for decides where
  world_read: "w_flight w c = None \<Longrightarrow> decides (w_own w c) c (map_option fst (w_doc w)) d \<Longrightarrow>
    world_step decides w (w\<lparr>w_flight := (w_flight w)(c \<mapsto> \<lparr> f_read = w_doc w, f_decision = d \<rparr>)\<rparr>)"
| world_reply: "w_flight w c = Some f \<Longrightarrow> \<not> d_changed (f_decision f) \<Longrightarrow> C \<subseteq> w_own w c \<union> d_told (f_decision f) \<Longrightarrow>
    world_step decides w (w\<lparr>w_own := (w_own w)(c := C), w_flight := (w_flight w)(c := None)\<rparr>)"
| world_commit: "w_flight w c = Some f \<Longrightarrow> d_changed (f_decision f) \<Longrightarrow> map_option snd (w_doc w) = map_option snd (f_read f) \<Longrightarrow>
    C \<subseteq> w_own w c \<union> d_told (f_decision f) \<Longrightarrow>
    world_step decides w (w\<lparr>w_doc := Some (bumped (d_group (f_decision f)), w_versions w), w_versions := w_versions w + 1,
      w_own := (w_own w)(c := C), w_flight := (w_flight w)(c := None)\<rparr>)"
| world_abandon: "world_step decides w (w\<lparr>w_flight := (w_flight w)(c := None)\<rparr>)"
| world_stop: "C \<subseteq> w_own w c \<Longrightarrow> world_step decides w (w\<lparr>w_own := (w_own w)(c := C)\<rparr>)"
| world_delete: "world_step decides w (w\<lparr>w_doc := None\<rparr>)"

definition world_start :: group_world where
  "world_start = \<lparr> w_doc = None, w_versions = 0, w_own = (\<lambda>_. {}), w_flight = (\<lambda>_. None) \<rparr>"

definition world_reachable :: "decider \<Rightarrow> group_world \<Rightarrow> bool" where
  "world_reachable decides w \<longleftrightarrow> (world_step decides)\<^sup>*\<^sup>* world_start w"

text \<open>A decision in flight: it was taken on a document that is still the one of its version, by a client that
  holds in the document now, if anything, what it held in the one read.\<close>

definition flight_inv :: "decider \<Rightarrow> group_world \<Rightarrow> member_id \<Rightarrow> flight \<Rightarrow> bool" where
  "flight_inv decides w c f \<longleftrightarrow>
     decides (w_own w c) c (map_option fst (f_read f)) (f_decision f) \<and>
     (\<forall>g v. f_read f = Some (g, v) \<longrightarrow> v < w_versions w \<and> group_inv g \<and> (\<forall>g'. w_doc w = Some (g', v) \<longrightarrow> g' = g)) \<and>
     (\<forall>g v m. w_doc w = Some (g, v) \<and> bt_get (g_members g) c = Some m \<longrightarrow>
        (\<exists>g0 v0 m0. f_read f = Some (g0, v0) \<and> bt_get (g_members g0) c = Some m0 \<and> held_by m = held_by m0))"

definition world_inv :: "decider \<Rightarrow> group_world \<Rightarrow> bool" where
  "world_inv decides w \<longleftrightarrow>
     (\<forall>g v. w_doc w = Some (g, v) \<longrightarrow> tracks (w_own w) g \<and> v < w_versions w) \<and>
     (\<forall>c f. w_flight w c = Some f \<longrightarrow> flight_inv decides w c f)"

definition sound_doc :: "(member_id \<Rightarrow> (topic_id \<times> int) set) \<Rightarrow> consumer_group option \<Rightarrow> bool" where
  "sound_doc own held \<longleftrightarrow> (\<forall>g. held = Some g \<longrightarrow> tracks own g)"

text \<open>
  The contract of a request handler: a decision stays one as its client gives partitions up; it keeps the document sound;
  what it tells the client the new document holds for it; it moves nobody but the client; and a decision that
  changes nothing tells what the document read says.
\<close>

locale group_service =
  fixes decides :: decider
  assumes decides_mono: "decides own c held d \<Longrightarrow> own' \<subseteq> own \<Longrightarrow> decides own' c held d"
    and decides_keeps: "decides (owns c) c held d \<Longrightarrow> sound_doc owns held \<Longrightarrow> sound_doc owns (Some (d_group d))"
    and decides_told: "decides (owns c) c held d \<Longrightarrow> sound_doc owns held \<Longrightarrow> bt_get (g_members (d_group d)) c = Some m \<Longrightarrow>
      d_told d \<subseteq> held_by m"
    and decides_others: "decides own c held d \<Longrightarrow> sound_doc (\<lambda>_. {}) held \<Longrightarrow> e \<noteq> c \<Longrightarrow> bt_get (g_members (d_group d)) e = Some m \<Longrightarrow>
      \<exists>g m0. held = Some g \<and> bt_get (g_members g) e = Some m0 \<and> held_by m = held_by m0"
    and decides_unchanged: "decides own c held d \<Longrightarrow> \<not> d_changed d \<Longrightarrow> d_told d = {} \<or> held = Some (d_group d)"
begin

lemma flight_inv_mono:
  assumes "flight_inv decides w c f" and "w_doc w' = w_doc w" "w_versions w' = w_versions w" "w_own w' c \<subseteq> w_own w c"
  shows "flight_inv decides w' c f"
  using assms decides_mono [OF _ assms(4)] unfolding flight_inv_def by metis

lemma world_docD:
  assumes "world_inv decides w" and "w_doc w = Some (g, v)"
  shows "tracks (w_own w) g" "v < w_versions w"
  using assms by (auto simp: world_inv_def)

lemma world_flightD: "world_inv decides w \<Longrightarrow> w_flight w c = Some f \<Longrightarrow> flight_inv decides w c f"
  by (simp add: world_inv_def)

text \<open>What an answer without a write tells the client it holds in the document now, if it is still a member.\<close>

lemma reply_told:
  assumes inv: "world_inv decides w" and f: "w_flight w c = Some f" and unch: "\<not> d_changed (f_decision f)"
    and doc: "w_doc w = Some (g, v)" "bt_get (g_members g) c = Some m"
  shows "d_told (f_decision f) \<subseteq> held_by m"
proof -
  note fi = world_flightD [OF inv f]
  obtain g0 v0 m0 where r: "f_read f = Some (g0, v0)" "bt_get (g_members g0) c = Some m0" "held_by m = held_by m0" "group_inv g0"
    using fi doc unfolding flight_inv_def by metis
  have d: "decides (w_own w c) c (Some g0) (f_decision f)" using fi r(1) by (simp add: flight_inv_def)
  then have d0: "decides {} c (Some g0) (f_decision f)" using decides_mono by blast
  have "sound_doc (\<lambda>_. {}) (Some g0)" using r(4) by (simp add: sound_doc_def tracks_def)
  then show ?thesis
    using decides_told [of "\<lambda>_. {}", OF d0] decides_unchanged [OF d unch] r(2,3) by auto
qed

lemma commit_document:
  assumes inv: "world_inv decides w" and f: "w_flight w c = Some f"
    and ver: "map_option snd (w_doc w) = map_option snd (f_read f)"
  shows "tracks (w_own w) (d_group (f_decision f))"
    "bt_get (g_members (d_group (f_decision f))) c = Some m \<Longrightarrow> d_told (f_decision f) \<subseteq> held_by m"
    "e \<noteq> c \<Longrightarrow> bt_get (g_members (d_group (f_decision f))) e = Some m \<Longrightarrow>
      \<exists>g v m0. w_doc w = Some (g, v) \<and> bt_get (g_members g) e = Some m0 \<and> held_by m = held_by m0"
proof -
  note fi = world_flightD [OF inv f]
  have same: "w_doc w = f_read f"
  proof (cases "f_read f")
    case None
    then show ?thesis using ver by simp
  next
    case (Some gv)
    obtain g v where gv: "gv = (g, v)" by (cases gv)
    then obtain g' where "w_doc w = Some (g', v)" using ver Some by auto
    then show ?thesis using fi Some gv by (auto simp: flight_inv_def)
  qed
  have d: "decides (w_own w c) c (map_option fst (w_doc w)) (f_decision f)" using fi same by (simp add: flight_inv_def)
  have s: "sound_doc (w_own w) (map_option fst (w_doc w))" using inv by (auto simp: sound_doc_def world_inv_def)
  then have s0: "sound_doc (\<lambda>_. {}) (map_option fst (w_doc w))" by (auto simp: sound_doc_def tracks_def)
  show "tracks (w_own w) (d_group (f_decision f))" using decides_keeps [OF d s] by (simp add: sound_doc_def)
  show "d_told (f_decision f) \<subseteq> held_by m" if "bt_get (g_members (d_group (f_decision f))) c = Some m"
    by (rule decides_told [OF d s that])
  show "\<exists>g v m0. w_doc w = Some (g, v) \<and> bt_get (g_members g) e = Some m0 \<and> held_by m = held_by m0"
    if "e \<noteq> c" "bt_get (g_members (d_group (f_decision f))) e = Some m"
    using decides_others [OF d s0 that] by auto
qed

lemma world_step_inv:
  assumes "world_step decides w w'" and inv: "world_inv decides w"
  shows "world_inv decides w'"
  using assms(1)
proof cases
  case (world_read c d)
  have "flight_inv decides w c \<lparr> f_read = w_doc w, f_decision = d \<rparr>"
    using world_read(3) world_docD [OF inv] tracksD(1) unfolding flight_inv_def by auto
  then show ?thesis
    using inv flight_inv_mono [of w _ _ w'] world_read(1) by (simp add: world_inv_def)
next
  case (world_reply c f C)
  have own: "C \<subseteq> held_by m" if "w_doc w = Some (g, v)" "bt_get (g_members g) c = Some m" for g v m
    using reply_told [OF inv world_reply(2,3) that] tracksD(2) [OF world_docD(1) [OF inv that(1)] that(2)] world_reply(4) by blast
  show ?thesis
    using inv own flight_inv_mono [of w _ _ w'] tracks_upd unfolding world_reply(1) world_inv_def by simp
next
  case (world_commit c f C)
  note d = commit_document [OF inv world_commit(2,4)]
  have own: "C \<subseteq> held_by m" if "bt_get (g_members (d_group (f_decision f))) c = Some m" for m
    using d(2) [OF that] tracksD(2) [OF d(1) that] world_commit(5) by blast
  have "flight_inv decides w' c' f'" if "c' \<noteq> c" "w_flight w c' = Some f'" for c' f'
    using world_flightD [OF inv that(2)] d(3) [OF that(1)] that(1)
    unfolding world_commit(1) flight_inv_def by (simp) (metis less_SucI less_irrefl)
  then show ?thesis using tracks_upd [OF d(1) own] unfolding world_commit(1) world_inv_def by simp
next
  case (world_abandon c)
  then show ?thesis using inv flight_inv_mono [of w _ _ w'] unfolding world_inv_def by simp
next
  case (world_stop C c)
  have "C \<subseteq> held_by m" if "w_doc w = Some (g, v)" "bt_get (g_members g) c = Some m" for g v m
    using tracksD(2) [OF world_docD(1) [OF inv that(1)] that(2)] world_stop(2) by blast
  then show ?thesis
    using inv flight_inv_mono [of w _ _ w'] tracks_upd world_stop(2) unfolding world_stop(1) world_inv_def by simp
next
  case world_delete
  then show ?thesis using inv unfolding world_inv_def flight_inv_def by simp
qed

lemma world_run_inv: "(world_step decides)\<^sup>*\<^sup>* w0 w \<Longrightarrow> world_inv decides w0 \<Longrightarrow> world_inv decides w"
  by (induction rule: rtranclp_induct) (blast dest: world_step_inv)+

lemma world_reachable_inv: "world_reachable decides w \<Longrightarrow> world_inv decides w"
  unfolding world_reachable_def by (erule world_run_inv) (simp add: world_start_def world_inv_def)

lemma consumed_once:
  assumes "world_inv decides w" and "w_doc w = Some (g, v)"
    and "bt_get (g_members g) c = Some mc" and "bt_get (g_members g) e = Some me" and "c \<noteq> e"
  shows "w_own w c \<subseteq> held_by mc" "w_own w c \<inter> w_own w e = {}"
proof -
  note t = world_docD(1) [OF assms(1,2)]
  show "w_own w c \<subseteq> held_by mc" by (rule tracksD(2) [OF t assms(3)])
  then show "w_own w c \<inter> w_own w e = {}"
    using tracksD(2) [OF t assms(4)] apartD [OF group_invD(3) [OF tracksD(1) [OF t]] assms(3,4,5)] by blast
qed

end

text \<open>A request served from the read to the answer with nothing in between.\<close>

definition serve :: "member_id \<Rightarrow> decision \<Rightarrow> (topic_id \<times> int) set \<Rightarrow> group_world \<Rightarrow> group_world" where
  "serve c d C w =
     (if d_changed d then w\<lparr>w_doc := Some (bumped (d_group d), w_versions w), w_versions := w_versions w + 1\<rparr> else w)
       \<lparr>w_own := (w_own w)(c := C), w_flight := (w_flight w)(c := None)\<rparr>"

lemma serve_steps:
  assumes "decides (w_own w c) c (map_option fst (w_doc w)) d" and "C \<subseteq> w_own w c \<union> d_told d"
  shows "(world_step decides)\<^sup>*\<^sup>* w (serve c d C w)"
proof -
  define w1 where "w1 = w\<lparr>w_flight := (w_flight w)(c := None)\<rparr>"
  define w2 where "w2 = w1\<lparr>w_flight := (w_flight w1)(c \<mapsto> \<lparr> f_read = w_doc w, f_decision = d \<rparr>)\<rparr>"
  have s1: "world_step decides w w1" unfolding w1_def by (rule world_abandon)
  have s2: "world_step decides w1 w2" using assms(1) world_read [of w1 c decides d] by (simp add: w1_def w2_def)
  have "world_step decides w2 (serve c d C w)"
  proof (cases "d_changed d")
    case True
    then show ?thesis
      using world_commit [of w2 c "\<lparr> f_read = w_doc w, f_decision = d \<rparr>" C decides] assms(2) by (simp add: serve_def w1_def w2_def)
  next
    case False
    then show ?thesis
      using world_reply [of w2 c "\<lparr> f_read = w_doc w, f_decision = d \<rparr>" C decides] assms(2) by (simp add: serve_def w1_def w2_def)
  qed
  with s1 s2 show ?thesis by (meson converse_rtranclp_into_rtranclp r_into_rtranclp)
qed

lemma world_step_mono: "world_step decides w w' \<Longrightarrow> (\<And>own c held d. decides own c held d \<Longrightarrow> decides' own c held d) \<Longrightarrow> world_step decides' w w'"
proof (induction rule: world_step.induct)
  case (world_commit w c f C)
  show ?case by (rule world_step.world_commit [OF world_commit(1-4)])
qed (auto intro: world_step.intros)

section \<open>Heartbeats\<close>

definition told :: "heartbeat_response transition \<Rightarrow> (topic_id \<times> int) set" where
  "told tr = (case rs_assignment (tr_response tr) of None \<Rightarrow> {} | Some ps \<Rightarrow> pairs ps)"

definition heartbeat_decides :: "compiler \<Rightarrow> decider" where
  "heartbeat_decides compile own c held d \<longleftrightarrow>
     (\<exists>new_id rq client res l config now_ms tr. c = sender new_id rq \<and> honest own rq \<and> wf_resolved res \<and>
        heartbeat_step compile new_id held rq client res l config now_ms = Inr tr \<and>
        d = \<lparr> d_group = tr_group tr, d_changed = tr_changed tr, d_told = told tr \<rparr>)"

lemma prior_sound:
  assumes "sound_doc owns held" and "prior = unwrap_or (group_default\<lparr>created_ms := now_ms\<rparr>) held"
  shows "tracks owns prior"
  using assms group_default_tracks [of owns now_ms] by (cases held) (simp_all add: sound_doc_def)

interpretation heartbeats: group_service "heartbeat_decides compile" for compile
proof
  fix own own' :: "(topic_id \<times> int) set" and c held d
  assume "heartbeat_decides compile own c held d" "own' \<subseteq> own"
  then show "heartbeat_decides compile own' c held d" unfolding heartbeat_decides_def using honest_mono by blast
next
  fix owns :: "member_id \<Rightarrow> (topic_id \<times> int) set" and c held d
  assume "heartbeat_decides compile (owns c) c held d" and s: "sound_doc owns held"
  then obtain new_id rq client res l config now_ms tr where h: "c = sender new_id rq" "honest (owns c) rq" "wf_resolved res"
      "heartbeat_apply compile new_id held rq client res l config now_ms = Inr tr"
      "d = \<lparr> d_group = tr_group tr, d_changed = tr_changed tr, d_told = told tr \<rparr>"
    unfolding heartbeat_decides_def heartbeat_step_def by (auto split: if_splits)
  note t = heartbeat_tracks [OF h(4) refl prior_sound [OF s refl] h(3), folded h(1), OF h(2)]
  show "sound_doc owns (Some (d_group d))" using t(1) by (simp add: sound_doc_def h(5))
  show "d_told d \<subseteq> held_by m" if "bt_get (g_members (d_group d)) c = Some m" for m
    using that t(2) by (cases "rs_assignment (tr_response tr)") (auto simp: told_def h(5))
next
  fix own :: "(topic_id \<times> int) set" and c held d
  assume "heartbeat_decides compile own c held d"
  then obtain new_id rq client res l config now_ms tr where h: "c = sender new_id rq"
      "heartbeat_apply compile new_id held rq client res l config now_ms = Inr tr"
      "d = \<lparr> d_group = tr_group tr, d_changed = tr_changed tr, d_told = told tr \<rparr>" "held \<noteq> None \<or> rq_member_epoch rq = 0"
      "wf_resolved res" "honest {} rq"
    unfolding heartbeat_decides_def heartbeat_step_def using honest_mono [OF _ empty_subsetI] by (auto split: if_splits)
  let ?prior = "unwrap_or (group_default\<lparr>created_ms := now_ms\<rparr>) held"
  show "\<exists>g m0. held = Some g \<and> bt_get (g_members g) e = Some m0 \<and> held_by m = held_by m0"
    if s: "sound_doc (\<lambda>_. {}) held" and e: "e \<noteq> c" "bt_get (g_members (d_group d)) e = Some m" for e m
  proof -
    have "bt_inv (g_members ?prior)" using prior_sound [OF s refl] by (simp add: tracks_def group_inv_def)
    then obtain m0 where "bt_get (g_members ?prior) e = Some m0" "held_by m = held_by m0"
      using heartbeat_others [OF h(2) refl, of e m] e h(1,3) by auto
    then show ?thesis by (cases held) (auto simp: group_default_def)
  qed
  show "d_told d = {} \<or> held = Some (d_group d)" if u: "\<not> d_changed d"
  proof (cases held)
    case (Some g)
    then show ?thesis using heartbeat_unchanged [OF h(2) _ refl] u h(3) by simp
  next
    case None
    then have "tr_group tr = group_default\<lparr>created_ms := now_ms\<rparr>" using heartbeat_unchanged [OF h(2) _ refl] u h(3) by simp
    then have "rs_assignment (tr_response tr) \<noteq> Some a" for a
      using heartbeat_tracks(2) [OF h(2) _ group_default_tracks [of "\<lambda>_. {}" now_ms] h(5), of a] h(6) None
      by (auto simp: group_default_def)
    then show ?thesis by (simp add: told_def h(3) split: option.split)
  qed
qed

section \<open>A group that is left alone settles\<close>

text \<open>One exchange, read to answer, that nothing comes between and whose answer arrives.\<close>

record beat =
  b_new_id :: member_id
  b_request :: heartbeat_request
  b_client :: client
  b_resolved :: "resolved option"
  b_liveness :: liveness
  b_config :: group_config
  b_now_ms :: int

definition b_sender :: "beat \<Rightarrow> member_id" where
  "b_sender b = sender (b_new_id b) (b_request b)"

definition taken_up :: "heartbeat_response transition \<Rightarrow> (topic_id \<times> int) set \<Rightarrow> (topic_id \<times> int) set" where
  "taken_up tr own = (case rs_assignment (tr_response tr) of None \<Rightarrow> own | Some ps \<Rightarrow> pairs ps)"

definition exchange :: "compiler \<Rightarrow> beat \<Rightarrow> group_world \<Rightarrow> group_world" where
  "exchange compile b w =
     (case heartbeat_step compile (b_new_id b) (map_option fst (w_doc w)) (b_request b) (b_client b) (b_resolved b)
             (b_liveness b) (b_config b) (b_now_ms b) of
        Inl _ \<Rightarrow> w
      | Inr tr \<Rightarrow> serve (b_sender b) \<lparr> d_group = tr_group tr, d_changed = tr_changed tr, d_told = told tr \<rparr>
          (taken_up tr (w_own w (b_sender b))) w)"

lemma exchange_steps:
  assumes "honest (w_own w (b_sender b)) (b_request b)" and "wf_resolved (b_resolved b)"
  shows "(world_step (heartbeat_decides compile))\<^sup>*\<^sup>* w (exchange compile b w)"
proof (cases "heartbeat_step compile (b_new_id b) (map_option fst (w_doc w)) (b_request b) (b_client b) (b_resolved b)
    (b_liveness b) (b_config b) (b_now_ms b)")
  case (Inl e)
  then show ?thesis by (simp add: exchange_def)
next
  case (Inr tr)
  let ?c = "b_sender b" and ?d = "\<lparr> d_group = tr_group tr, d_changed = tr_changed tr, d_told = told tr \<rparr>"
  have "heartbeat_decides compile (w_own w ?c) ?c (map_option fst (w_doc w)) ?d"
    unfolding heartbeat_decides_def using assms Inr b_sender_def by blast
  then have "(world_step (heartbeat_decides compile))\<^sup>*\<^sup>* w (serve ?c ?d (taken_up tr (w_own w ?c)) w)"
    by (rule serve_steps) (auto simp: taken_up_def told_def split: option.splits)
  then show ?thesis using Inr by (simp add: exchange_def)
qed

text \<open>A plain heartbeat: the sender is at its epoch, reports what it consumes from, and neither it nor the
  clock nor the topics give the group a reason to rebalance.\<close>

definition plain_beat :: "group_world \<Rightarrow> beat \<Rightarrow> bool" where
  "plain_beat w b \<longleftrightarrow> (let rq = b_request b; c = rq_member_id rq in
     (case w_doc w of
        None \<Rightarrow> False
      | Some (g, _) \<Rightarrow>
          is_some_and (bt_get (g_members g) c) (\<lambda>m. rq_member_epoch rq = member_epoch m \<and> 0 < member_epoch m) \<and>
          \<not> fst (sweep_members (b_liveness b) (b_now_ms b) g) \<and> \<not> fst (refresh_by (b_resolved b) g)) \<and>
     rq_subscribed_topic_names rq = None \<and> rq_subscribed_topic_regex rq = None \<and> rq_server_assignor rq = None \<and>
     is_some_and (owned_from_request rq) (\<lambda>ps. pairs ps = w_own w c) \<and> wf_resolved (b_resolved b))"

fun plain_run :: "compiler \<Rightarrow> group_world \<Rightarrow> beat list \<Rightarrow> bool" where
  "plain_run compile w [] = True"
| "plain_run compile w (b # bs) = (plain_beat w b \<and> plain_run compile (exchange compile b w) bs)"

definition reconciled :: "int \<Rightarrow> (topic_id \<times> int) list \<Rightarrow> partitions \<Rightarrow> int \<Rightarrow> consumer_member \<Rightarrow> consumer_member" where
  "reconciled e taken ps now_ms m = (if member_moves e (Some ps) m then next_assignment e taken (Some ps) now_ms m else m)"

lemma filter_same_length: "length (filter P xs) = length xs \<Longrightarrow> filter P xs = xs"
  by (metis filter_id_conv length_filter_less less_irrefl)

lemma sweep_quiet: "\<not> fst (sweep_members l now_ms g) \<Longrightarrow> sweep_members l now_ms g = (False, g)"
  by (simp add: sweep_members_def Let_def filter_same_length)

lemma refresh_quiet: "\<not> fst (refresh_by res g) \<Longrightarrow> refresh_by res g = (False, g)"
  by (auto simp: refresh_by_def refresh_topics_def Let_def split: option.splits if_splits)

lemma update_plain:
  assumes "rq_subscribed_topic_names rq = None" "rq_subscribed_topic_regex rq = None" "rq_server_assignor rq = None"
    "bt_get (g_members g) c = Some m"
  shows "update_in compile rq client config c g = Inr (False, put_member c (update_identity rq client config m) g)"
  using assms by (simp add: update_in_def update_member_def update_subscription_def update_regex_def update_assignor_def requested_regex_def)

lemma update_identity_same: "same_place m (update_identity rq client config m)"
  by (simp add: update_identity_def Let_def same_place_def split: option.split)

lemma refresh_put: "refresh_by res (put_member c m g) = (let (b, g') = refresh_by res g in (b, put_member c m g'))"
  by (auto simp: refresh_by_def refresh_topics_def put_member_def Let_def split: option.splits)

text \<open>What a plain heartbeat does to the world.\<close>

lemma exchange_plain:
  assumes b: "plain_beat w b" and doc: "w_doc w = Some (g, v)" and c: "c = rq_member_id (b_request b)"
    and m: "bt_get (g_members g) c = Some m" and ps: "owned_from_request (b_request b) = Some ps"
    and inv: "bt_inv (g_members g)"
  obtains g' v' m' m1 taken where "w_doc (exchange compile b w) = Some (g', v')" "assignment_epoch g' = assignment_epoch g"
    "\<forall>d. d \<noteq> c \<longrightarrow> bt_get (g_members g') d = bt_get (g_members g) d" "bt_get (g_members g') c = Some m'"
    "same_place m m1" "set taken = \<Union> {held_by m | m other. other \<noteq> c \<and> bt_get (g_members g) other = Some m}"
    "same_place (reconciled (assignment_epoch g) taken ps (b_now_ms b) m1) m'"
    "w_own (exchange compile b w) = (w_own w)(c := pairs (assigned m'))"
proof -
  let ?rq = "b_request b" and ?now = "b_now_ms b"
  have q: "rq_member_epoch ?rq = member_epoch m" "0 < member_epoch m"
      "\<not> fst (sweep_members (b_liveness b) ?now g)" "\<not> fst (refresh_by (b_resolved b) g)"
      "rq_subscribed_topic_names ?rq = None" "rq_subscribed_topic_regex ?rq = None" "rq_server_assignor ?rq = None"
      "pairs ps = w_own w c"
    using b doc m ps c by (auto simp: plain_beat_def Let_def is_some_and_def)
  define m1 where "m1 = update_identity ?rq (b_client b) (b_config b) m"
  define g1 where "g1 = put_member c m1 g"
  let ?g5 = "reconcile_member c (Some ps) ?now g1"
  have g1: "bt_get (g_members g1) d = (if d = c then Some m1 else bt_get (g_members g) d)" for d
    by (simp add: g1_def get_put_member)
  have step: "heartbeat_step compile (b_new_id b) (map_option fst (w_doc w)) ?rq (b_client b) (b_resolved b) (b_liveness b) (b_config b) ?now
      = answer g ?rq (b_liveness b) (b_config b) (Some ps) ?now c ?g5"
    using q c m
    by (simp add: heartbeat_step_def heartbeat_apply_def doc Let_def ps sweep_quiet admit_def validate_epoch_def LEAVING_STATIC_MEMBER_EPOCH_def
        update_plain refresh_put refresh_quiet retarget_if_def g1_def m1_def)
  have get: "bt_get (g_members ?g5) c = Some (reconciled (assignment_epoch g) (owned_by_others g1 c) ps ?now m1)"
    using reconcile_get [of g1 c m1 "Some ps" ?now] by (simp add: g1 reconciled_def) (simp add: g1_def)
  obtain tr where tr: "answer g ?rq (b_liveness b) (b_config b) (Some ps) ?now c ?g5 = Inr tr"
    using get by (auto simp: answer_def Let_def)
  obtain m2 m' where a: "bt_get (g_members ?g5) c = Some m2" "same_place m2 m'" "bt_get (g_members (tr_group tr)) c = Some m'"
      "tr_group tr = (if ?g5 \<noteq> g then put_member c m' ?g5 else ?g5)" "tr_changed tr = (?g5 \<noteq> g)"
      "rs_assignment (tr_response tr) = (if rq_member_epoch ?rq \<noteq> member_epoch m2 \<or>
        map_option assigned (bt_get (g_members g) c) \<noteq> Some (assigned m2) \<or> is_some_and (Some ps) (\<lambda>ps. ps \<noteq> assigned m2)
      then Some (assigned m2) else None)"
    by (rule answer_elim [OF tr])
  have snd: "b_sender b = c" using q(1,2) c by (simp add: b_sender_def sender_def)
  have own: "w_own (exchange compile b w) = (w_own w)(c := pairs (assigned m'))"
    using a(2,6) q(8) tr step snd
    by (auto simp: exchange_def serve_def taken_up_def same_place_def is_some_and_def split: if_splits)
  have e: "assignment_epoch (tr_group tr) = assignment_epoch g"
    using put_member_fields(1) [of c m' ?g5] reconcile_fields(1) [of c "Some ps" ?now g1] put_member_fields(1) [of c m1 g]
    unfolding a(4) g1_def by presburger
  have others: "bt_get (g_members (tr_group tr)) d = bt_get (g_members g) d" if "d \<noteq> c" for d
    using get_put_member [of c m' ?g5 d] reconcile_get_other [OF that, of "Some ps" ?now g1] g1 [of d] that unfolding a(4) by presburger
  have "?g5 = g \<Longrightarrow> tr_group tr = g" unfolding a(4) by simp
  then obtain g' v' where doc': "w_doc (exchange compile b w) = Some (g', v')" "g' = tr_group tr \<or> g' = bumped (tr_group tr)"
    using tr step a(5) doc by (cases "tr_changed tr") (auto simp: exchange_def serve_def)
  have inv1: "bt_inv (g_members g1)" using inv by (simp add: g1_def put_member_def bt_inv_insert)
  have tk: "set (owned_by_others g1 c) = \<Union> {held_by m | m other. other \<noteq> c \<and> bt_get (g_members g) other = Some m}"
    unfolding set_owned_by_others [OF inv1] g1 by (rule arg_cong [of _ _ Union]) auto
  show thesis
  proof (rule that [OF doc'(1) _ _ _ _ tk _ own, of m1])
    show "assignment_epoch g' = assignment_epoch g" "bt_get (g_members g') c = Some m'"
      using doc'(2) e a(3) by (auto simp: bumped_def)
    show "\<forall>d. d \<noteq> c \<longrightarrow> bt_get (g_members g') d = bt_get (g_members g) d"
      using doc'(2) others by (auto simp: bumped_def)
    show "same_place m m1" unfolding m1_def by (rule update_identity_same)
    show "same_place (reconciled (assignment_epoch g) (owned_by_others g1 c) ps ?now m1) m'" using a(1,2) get by simp
  qed
qed


text \<open>How far a member of a group left alone has come: its client has the assignment; it holds nothing outside its
  target; it is at the epoch with nothing to give up; it holds its target.\<close>

definition settled :: "nat \<Rightarrow> int \<Rightarrow> (topic_id \<times> int) set \<Rightarrow> consumer_member \<Rightarrow> bool" where
  "settled k e own m \<longleftrightarrow>
     (1 \<le> k \<longrightarrow> own = pairs (assigned m)) \<and>
     (2 \<le> k \<longrightarrow> pairs (assigned m) \<subseteq> targets m) \<and>
     (3 \<le> k \<longrightarrow> pending_revocation m = [] \<and> member_epoch m = e) \<and>
     (4 \<le> k \<longrightarrow> member_state m = Stable \<and> pairs (assigned m) = targets m)"

lemma settled_same: "same_place m m' \<Longrightarrow> settled k e own m' = settled k e own m"
  by (simp add: settled_def same_place_def targets_def)

lemma settle_step:
  assumes inv: "member_inv e m" and e: "1 \<le> e" "e < EPOCH_MAX" and s: "settled k e own m" and ps: "pairs ps = own"
    and tk: "k = 3 \<Longrightarrow> set taken \<inter> targets m = {}" and m': "m' = reconciled e taken ps now_ms m"
  shows "settled (min 4 (Suc k)) e (pairs (assigned m')) m'"
proof (cases "member_moves e (Some ps) m")
  case False
  then show ?thesis
    using inv e s ps m' by (cases "member_state m") (auto simp: reconciled_def member_moves_def member_inv_def still_owns_iff settled_def targets_def)
next
  case True
  then have m': "m' = next_assignment e taken (Some ps) now_ms m" by (simp add: m' reconciled_def)
  have t: "targets m' = targets m" by (simp add: m' targets_def)
  show ?thesis
  proof (cases "must_revoke (Some ps) m")
    case revoke: True
    then have "k < 2" using s by (auto simp: must_revoke_def settled_def)
    then show ?thesis using next_assignment_revoke [OF revoke m'] t by (auto simp: settled_def)
  next
    case advance: False
    note a = next_assignment_advance [OF advance m']
    show ?thesis
    proof (cases "3 \<le> k")
      case False
      then show ?thesis using a t by (auto simp: settled_def)
    next
      case k: True
      have "k = 3 \<or> 4 \<le> k" using k by linarith
      then have "(targets m - pairs (assigned m)) \<inter> set taken = {}" using tk s by (auto simp: settled_def)
      then show ?thesis using a t k s by (auto simp: settled_def)
    qed
  qed
qed


definition all_settled :: "(member_id \<Rightarrow> nat) \<Rightarrow> group_world \<Rightarrow> bool" where
  "all_settled k w \<longleftrightarrow> (\<exists>g v. w_doc w = Some (g, v) \<and> assignment_epoch g < EPOCH_MAX \<and>
     (\<forall>c m. bt_get (g_members g) c = Some m \<longrightarrow> settled (k c) (assignment_epoch g) (w_own w c) m))"

definition members_of :: "group_world \<Rightarrow> member_id set" where
  "members_of w = (case w_doc w of None \<Rightarrow> {} | Some (g, _) \<Rightarrow> set (bt_keys (g_members g)))"

definition epoch_of :: "group_world \<Rightarrow> int option" where
  "epoch_of w = map_option (\<lambda>(g, _). assignment_epoch g) (w_doc w)"

lemma plain_beat_reachable:
  assumes "world_reachable (heartbeat_decides compile) w" and "plain_beat w b"
  shows "world_reachable (heartbeat_decides compile) (exchange compile b w)"
proof -
  obtain g v m where g: "w_doc w = Some (g, v)" "bt_get (g_members g) (rq_member_id (b_request b)) = Some m"
      "rq_member_epoch (b_request b) = member_epoch m" "0 < member_epoch m"
    using assms(2) by (auto simp: plain_beat_def Let_def is_some_and_def split: option.splits)
  have "b_sender b = rq_member_id (b_request b)" using g(3,4) by (simp add: b_sender_def sender_def)
  then have "honest (w_own w (b_sender b)) (b_request b)" "wf_resolved (b_resolved b)"
    using assms(2) g(3,4) by (auto simp: plain_beat_def Let_def is_some_and_def honest_iff leaving_def LEAVING_STATIC_MEMBER_EPOCH_def split: option.splits)
  then show ?thesis using exchange_steps assms(1) unfolding world_reachable_def by (meson rtranclp_trans)
qed

lemma settled_mono: "settled k e own m \<Longrightarrow> j \<le> k \<Longrightarrow> settled j e own m"
  by (auto simp: settled_def)

text \<open>A plain heartbeat takes its sender one step further and nobody back.\<close>

lemma plain_beat_settles:
  assumes reach: "world_reachable (heartbeat_decides compile) w" and b: "plain_beat w b" and s: "all_settled k w"
    and c: "c = rq_member_id (b_request b)" and k: "k c = 3 \<Longrightarrow> \<forall>d. 3 \<le> k d"
  shows "all_settled (k(c := min 4 (Suc (k c)))) (exchange compile b w)"
    and "epoch_of (exchange compile b w) = epoch_of w" and "members_of (exchange compile b w) = members_of w"
proof -
  obtain g v where doc: "w_doc w = Some (g, v)" and e: "assignment_epoch g < EPOCH_MAX"
    and all: "\<And>d m. bt_get (g_members g) d = Some m \<Longrightarrow> settled (k d) (assignment_epoch g) (w_own w d) m"
    using s by (auto simp: all_settled_def)
  obtain m ps where m: "bt_get (g_members g) c = Some m" and ps: "owned_from_request (b_request b) = Some ps" "pairs ps = w_own w c"
    using b doc c by (auto simp: plain_beat_def Let_def is_some_and_def split: option.splits)
  have core: "group_inv g" using heartbeats.world_docD(1) [OF heartbeats.world_reachable_inv [OF reach] doc] by (simp add: tracks_def)
  obtain g' v' m1 m' taken where x: "w_doc (exchange compile b w) = Some (g', v')" "assignment_epoch g' = assignment_epoch g"
    "\<forall>d. d \<noteq> c \<longrightarrow> bt_get (g_members g') d = bt_get (g_members g) d" "bt_get (g_members g') c = Some m'"
    "same_place m m1" "set taken = \<Union> {held_by m | m other. other \<noteq> c \<and> bt_get (g_members g) other = Some m}"
    "same_place (reconciled (assignment_epoch g) taken ps (b_now_ms b) m1) m'"
    "w_own (exchange compile b w) = (w_own w)(c := pairs (assigned m'))"
    by (rule exchange_plain [where compile = compile, OF b doc c m ps(1) group_invD(1) [OF core]])
  have "0 < member_epoch m" using b doc c m by (auto simp: plain_beat_def Let_def is_some_and_def)
  then have e1: "1 \<le> assignment_epoch g" using group_invD(2) [OF core m] by (simp add: member_inv_def)
  have free: "set taken \<inter> targets m = {}" if k3: "k c = 3"
  proof -
    have "held_by md \<inter> targets m = {}" if d: "d \<noteq> c" "bt_get (g_members g) d = Some md" for d md
      using settled_mono [OF all [OF d(2)], of 3] k [OF k3] apartD [OF group_invD(4) [OF core] d(2) m d(1)]
      by (auto simp: settled_def held_by_def)
    then show ?thesis unfolding x(6) by blast
  qed
  have "settled (min 4 (Suc (k c))) (assignment_epoch g)
      (pairs (assigned (reconciled (assignment_epoch g) taken ps (b_now_ms b) m1))) (reconciled (assignment_epoch g) taken ps (b_now_ms b) m1)"
    using all [OF m] group_invD(2) [OF core m] free ps(2) e e1
    by (intro settle_step [OF _ _ _ _ _ _ refl, where own = "w_own w c"])
      (simp_all add: settled_same [OF x(5)] same_place_facts [OF x(5)])
  then have "settled (min 4 (Suc (k c))) (assignment_epoch g) (pairs (assigned m')) m'"
    using x(7) by (simp add: settled_same [OF x(7)]) (simp add: same_place_def)
  then have "settled ((k(c := min 4 (Suc (k c)))) d) (assignment_epoch g') (w_own (exchange compile b w) d) md"
    if "bt_get (g_members g') d = Some md" for d md
    using that all x(2,3,4,8) by (cases "d = c") auto
  then show "all_settled (k(c := min 4 (Suc (k c)))) (exchange compile b w)"
    unfolding all_settled_def using x(1,2) e by auto
  show "epoch_of (exchange compile b w) = epoch_of w" by (simp add: epoch_of_def x(1,2) doc)
  have "set (bt_keys h) = {d. bt_get h d \<noteq> None}" for h :: "(member_id, consumer_member) btree"
    by (induction h) (auto simp: bt_keys_def bt_get_def)
  moreover have "bt_get (g_members g') d = None \<longleftrightarrow> bt_get (g_members g) d = None" for d
    using x(3) x(4) m by (cases "d = c") auto
  ultimately show "members_of (exchange compile b w) = members_of w" by (simp add: members_of_def x(1) doc del: not_None_eq)
qed

definition senders :: "beat list \<Rightarrow> member_id set" where
  "senders bs = (\<lambda>b. rq_member_id (b_request b)) ` set bs"

definition exchanges :: "compiler \<Rightarrow> beat list \<Rightarrow> group_world \<Rightarrow> group_world" where
  "exchanges compile bs w = fold (exchange compile) bs w"


lemma all_settled_mono:
  assumes "all_settled k w" and "\<And>c. c \<in> members_of w \<Longrightarrow> j c \<le> k c"
  shows "all_settled j w"
proof -
  obtain g v where g: "w_doc w = Some (g, v)" "assignment_epoch g < EPOCH_MAX"
    "\<And>c m. bt_get (g_members g) c = Some m \<Longrightarrow> settled (k c) (assignment_epoch g) (w_own w c) m"
    using assms(1) by (auto simp: all_settled_def)
  have "c \<in> members_of w" if "bt_get (g_members g) c = Some m" for c m
    using that g(1) by (auto simp: members_of_def bt_keys_def bt_get_def dest: map_of_SomeD intro: rev_image_eqI)
  then show ?thesis unfolding all_settled_def using g assms(2) settled_mono by blast
qed

lemma plain_run_settles:
  assumes "world_reachable (heartbeat_decides compile) w" and "plain_run compile w bs" and "all_settled f w" and "k \<le> 3" and "\<And>d. k \<le> f d"
  shows "all_settled (\<lambda>d. if d \<in> senders bs then Suc k else f d) (exchanges compile bs w)
    \<and> world_reachable (heartbeat_decides compile) (exchanges compile bs w) \<and> members_of (exchanges compile bs w) = members_of w
    \<and> epoch_of (exchanges compile bs w) = epoch_of w"
  using assms
proof (induction bs arbitrary: w f)
  case Nil
  then show ?case by (simp add: exchanges_def senders_def)
next
  case (Cons b bs)
  let ?c = "rq_member_id (b_request b)"
  have b: "plain_beat w b" and run: "plain_run compile (exchange compile b w) bs" using Cons.prems(2) by simp_all
  have low: "all_settled (f(?c := k)) w" by (rule all_settled_mono [OF Cons.prems(3)]) (use Cons.prems(5) in simp)
  have "\<forall>d. 3 \<le> (f(?c := k)) d" if "(f(?c := k)) ?c = 3" using that Cons.prems(5) by auto
  note st = plain_beat_settles [OF Cons.prems(1) b low refl this]
  have "min 4 (Suc ((f(?c := k)) ?c)) = Suc k" using Cons.prems(4) by simp
  then have up: "all_settled (f(?c := Suc k)) (exchange compile b w)" using st(1) by (simp only: fun_upd_upd)
  note reach = plain_beat_reachable [OF Cons.prems(1) b]
  have "\<And>d. k \<le> (f(?c := Suc k)) d" using Cons.prems(5) by simp
  note ih = Cons.IH [OF reach run up Cons.prems(4) this]
  have "(\<lambda>d. if d \<in> senders bs then Suc k else (f(?c := Suc k)) d) = (\<lambda>d. if d \<in> senders (b # bs) then Suc k else f d)"
    by (auto simp: senders_def)
  moreover have "exchanges compile (b # bs) w = exchanges compile bs (exchange compile b w)" by (simp add: exchanges_def)
  ultimately show ?case using ih st(2,3) by simp
qed

lemma plain_round:
  assumes "world_reachable (heartbeat_decides compile) w" and "plain_run compile w bs" and "all_settled (\<lambda>_. k) w" and "k \<le> 3" and "members_of w \<subseteq> senders bs"
  shows "all_settled (\<lambda>_. Suc k) (exchanges compile bs w)" "world_reachable (heartbeat_decides compile) (exchanges compile bs w)"
    "members_of (exchanges compile bs w) = members_of w" "epoch_of (exchanges compile bs w) = epoch_of w"
proof -
  note r = plain_run_settles [OF assms(1-4) order_refl]
  show "world_reachable (heartbeat_decides compile) (exchanges compile bs w)" "members_of (exchanges compile bs w) = members_of w"
    "epoch_of (exchanges compile bs w) = epoch_of w" using r by auto
  show "all_settled (\<lambda>_. Suc k) (exchanges compile bs w)" using r assms(5) by (elim conjE, elim all_settled_mono) auto
qed

lemma plain_run_append: "plain_run compile w (xs @ ys) \<longleftrightarrow> plain_run compile w xs \<and> plain_run compile (exchanges compile xs w) ys"
  by (induction xs arbitrary: w) (auto simp: exchanges_def)

lemma exchanges_append: "exchanges compile (xs @ ys) w = exchanges compile ys (exchanges compile xs w)"
  by (simp add: exchanges_def)

section \<open>Properties\<close>

text \<open>A group to run: two members, one topic of two partitions.\<close>

definition sample_compiler :: compiler where "sample_compiler _ = None"

definition sample_beat :: "member_id \<Rightarrow> int \<Rightarrow> string list option \<Rightarrow> int list \<Rightarrow> beat" where
  "sample_beat mid epoch names owned =
     \<lparr> b_new_id = [],
       b_request = \<lparr> rq_member_id = mid, rq_member_epoch = epoch, rq_instance_id = None, rq_rack_id = None,
         rq_rebalance_timeout_ms = 60000, rq_subscribed_topic_names = names, rq_subscribed_topic_regex = None,
         rq_server_assignor = None, rq_topic_partitions = Some [([7], Some owned)] \<rparr>,
       b_client = \<lparr> c_id = ''c'', c_host = ''/10.0.0.1'' \<rparr>, b_resolved = Some [(''t'', [7], 2)],
       b_liveness = \<lparr> contacts = [], listed = True \<rparr>, b_config = config_default, b_now_ms = 1000 \<rparr>"

definition sample_joins :: "beat list" where
  "sample_joins = [sample_beat ''a'' 0 (Some [''t'']) [], sample_beat ''b'' 0 (Some [''t'']) []]"

definition sample_rounds :: "beat list list" where
  "sample_rounds =
     [[sample_beat ''a'' 1 None [0, 1], sample_beat ''b'' 2 None []],
      [sample_beat ''a'' 1 None [1], sample_beat ''b'' 2 None []],
      [sample_beat ''b'' 2 None [0], sample_beat ''a'' 2 None [1]],
      [sample_beat ''a'' 2 None [1], sample_beat ''b'' 2 None [0]]]"

fun honest_run :: "compiler \<Rightarrow> group_world \<Rightarrow> beat list \<Rightarrow> bool" where
  "honest_run compile w [] = True"
| "honest_run compile w (b # bs) = (honest (w_own w (b_sender b)) (b_request b) \<and> wf_resolved (b_resolved b) \<and>
     honest_run compile (exchange compile b w) bs)"

lemma honest_run_reachable: "honest_run compile w bs \<Longrightarrow> world_reachable (heartbeat_decides compile) w \<Longrightarrow> world_reachable (heartbeat_decides compile) (exchanges compile bs w)"
proof (induction bs arbitrary: w)
  case (Cons b bs)
  then have "world_reachable (heartbeat_decides compile) (exchange compile b w)"
    using exchange_steps unfolding world_reachable_def by (metis honest_run.simps(2) rtranclp_trans)
  then show ?case using Cons by (simp add: exchanges_def)
qed (simp add: exchanges_def)

definition sample_world :: group_world where
  "sample_world = exchanges sample_compiler sample_joins world_start"

definition sample_settled :: group_world where
  "sample_settled = exchanges sample_compiler (concat sample_rounds) sample_world"

lemma sample_reachable: "world_reachable (heartbeat_decides sample_compiler) sample_world"
  unfolding sample_world_def by (rule honest_run_reachable) (code_simp, simp add: world_reachable_def)

lemma sample_settled_reachable: "world_reachable (heartbeat_decides sample_compiler) sample_settled"
  unfolding sample_settled_def by (rule honest_run_reachable [OF _ sample_reachable]) code_simp

text \<open>
  C5. A group left alone settles. From any state reached, four rounds in which every member heartbeats at least once,
  in any order, with nothing to make the group rebalance, end with every member stable at the assignment epoch and
  its client consuming from exactly its target, whatever revocations and unreleased partitions were outstanding.
\<close>

theorem group_left_alone_settles:
  assumes "world_reachable (heartbeat_decides compile) w" and "w_doc w = Some (g, v)" and "assignment_epoch g < EPOCH_MAX"
    and "plain_run compile w (r1 @ r2 @ r3 @ r4)"
    and "members_of w \<subseteq> senders r1" and "members_of w \<subseteq> senders r2" and "members_of w \<subseteq> senders r3" and "members_of w \<subseteq> senders r4"
    and "w' = exchanges compile (r1 @ r2 @ r3 @ r4) w"
  shows "members_of w' = members_of w \<and> (\<exists>g' v'. w_doc w' = Some (g', v') \<and> assignment_epoch g' = assignment_epoch g \<and>
    (\<forall>c m. bt_get (g_members g') c = Some m \<longrightarrow> member_state m = Stable \<and> member_epoch m = assignment_epoch g' \<and>
       pairs (assigned m) = pairs (target m) \<and> w_own w' c = pairs (target m)))"
proof -
  have s0: "all_settled (\<lambda>_. 0) w" using assms(2,3) by (simp add: all_settled_def settled_def)
  let ?w1 = "exchanges compile r1 w"
  let ?w2 = "exchanges compile r2 ?w1"
  let ?w3 = "exchanges compile r3 ?w2"
  have run: "plain_run compile w r1" "plain_run compile ?w1 r2" "plain_run compile ?w2 r3" "plain_run compile ?w3 r4"
    using assms(4) by (simp_all add: plain_run_append)
  note r1 = plain_round [OF assms(1) run(1) s0 _ assms(5), simplified]
  note r2 = plain_round [OF r1(2) run(2) r1(1), simplified, unfolded r1(3), OF assms(6)]
  note r3 = plain_round [OF r2(2) run(3) r2(1), simplified, unfolded r2(3), OF assms(7)]
  note r4 = plain_round [OF r3(2) run(4) r3(1), simplified, unfolded r3(3), OF assms(8)]
  have w': "w' = exchanges compile r4 ?w3" by (simp add: assms(9) exchanges_append)
  show ?thesis
    using r4(1,3,4) r3(4) r2(4) r1(4) assms(2) unfolding w' [symmetric]
    by (auto simp: all_settled_def settled_def epoch_of_def targets_def)
qed


theorem group_left_alone_settles_witness:
  "w_own sample_settled ''a'' = {([7], 1)} \<and> w_own sample_settled ''b'' = {([7], 0)}"
proof -
  define r where "r = (\<lambda>i. sample_rounds ! i)"
  have rounds: "concat sample_rounds = r 0 @ r 1 @ r 2 @ r 3" by (simp add: r_def sample_rounds_def)
  have "map_option (\<lambda>(g, v). assignment_epoch g < EPOCH_MAX) (w_doc sample_world) = Some True" by code_simp
  then obtain g v where doc: "w_doc sample_world = Some (g, v)" "assignment_epoch g < EPOCH_MAX" by auto
  have run: "plain_run sample_compiler sample_world (r 0 @ r 1 @ r 2 @ r 3)" unfolding rounds [symmetric] by code_simp
  have "list_all (\<lambda>bs. members_of sample_world \<subseteq> senders bs) sample_rounds" by code_simp
  then have all: "members_of sample_world \<subseteq> senders (r i)" if "i < 4" for i
    using that by (simp add: r_def list_all_length sample_rounds_def)
  obtain g' v' where s: "w_doc sample_settled = Some (g', v')"
      "\<forall>c m. bt_get (g_members g') c = Some m \<longrightarrow> w_own sample_settled c = pairs (target m)"
    using group_left_alone_settles [OF sample_reachable doc run all all all all refl] unfolding sample_settled_def rounds by auto
  have "map_option (\<lambda>(g, v). map (\<lambda>c. map_option target (bt_get (g_members g) c)) [''a'', ''b'']) (w_doc sample_settled)
      = Some [Some [([7], [1])], Some [([7], [0])]]"
    by code_simp
  then show ?thesis using s by (auto simp: pairs_def)
qed

end
