(* ===== verification/ConsumerProtocol.thy ===== *)
theory ConsumerProtocol
  imports Prelude
begin

text \<open>
  The embedded consumer protocol (\<open>tansu-sans-io/src/consumer.rs\<close> and \<open>consumer/codec.rs\<close>): the subscription a classic
  member sends in its \<open>JoinGroup\<close> and the assignment it is answered with, in their versioned wire layouts. The reader is
  stricter than the writer: it stops at 1024 elements of a sequence and 4096 bytes of a string.
\<close>

section \<open>Types\<close>

record topic_partition =
  tp_topic :: string
  tp_partitions :: "int list"

record subscription =
  cs_topics :: "string list"
  cs_user_data :: "bytes option"
  cs_owned_partitions :: "topic_partition list option"
  cs_generation_id :: "int option"
  cs_rack_id :: "string option"

record member_metadata =
  mm_version :: int
  mm_subscription :: subscription

record member_assignment =
  ma_version :: int
  ma_assigned_partitions :: "topic_partition list"
  ma_user_data :: "bytes option"

datatype codec_error = ReadPastEnd | LengthLimit | NegativeLength | NotUtf8 | UnsupportedVersion | TooLongToWrite

section \<open>Primitives\<close>

definition read_int :: "nat \<Rightarrow> bytes \<Rightarrow> codec_error + (int \<times> bytes)" where
  "read_int n bs = (case take_n n bs of None \<Rightarrow> Inl ReadPastEnd | Some (h, t) \<Rightarrow> Inr (from_be_s h, t))"

definition read_bytes :: "int \<Rightarrow> bytes \<Rightarrow> codec_error + (bytes \<times> bytes)" where
  "read_bytes n bs = (case take_n (nat n) bs of None \<Rightarrow> Inl ReadPastEnd | Some p \<Rightarrow> Inr p)"

definition MAX_SEQUENCE :: int where "MAX_SEQUENCE = 1024"
definition MAX_STRING :: int where "MAX_STRING = 4096"

definition Sequence_encode :: "('a \<Rightarrow> codec_error + bytes) \<Rightarrow> 'a list \<Rightarrow> codec_error + bytes" where
  "Sequence_encode enc xs =
     (if fits_u 4 (int (length xs)) then rbind (encode_all enc xs) (\<lambda>b. Inr (to_be 4 (int (length xs)) @ b))
      else Inl TooLongToWrite)"

definition Sequence_decode :: "(bytes \<Rightarrow> codec_error + ('a \<times> bytes)) \<Rightarrow> bytes \<Rightarrow> codec_error + ('a list \<times> bytes)" where
  "Sequence_decode dec bs = rbind (read_int 4 bs) (\<lambda>(n, rest).
     if n > MAX_SEQUENCE then Inl LengthLimit
     else if n < 0 then Inl NegativeLength
     else decode_many dec (nat n) rest)"

definition U16String_encode :: "string \<Rightarrow> codec_error + bytes" where
  "U16String_encode s =
     (if fits_u 2 (int (length s)) then Inr (to_be 2 (int (length s)) @ bytes_of_str s) else Inl TooLongToWrite)"

definition from_utf8 :: "bytes \<Rightarrow> codec_error + string" where
  "from_utf8 bs = (if utf8_valid bs then Inr (str_of_bytes bs) else Inl NotUtf8)"

text \<open>A negative length is an empty range, and so an empty string.\<close>

definition U16String_decode :: "bytes \<Rightarrow> codec_error + (string \<times> bytes)" where
  "U16String_decode bs = rbind (read_int 2 bs) (\<lambda>(n, rest).
     if n > MAX_STRING then Inl LengthLimit
     else rbind (read_bytes n rest) (\<lambda>(b, rest). rbind (from_utf8 b) (\<lambda>s. Inr (s, rest))))"

definition NullableU16String_encode :: "string option \<Rightarrow> codec_error + bytes" where
  "NullableU16String_encode v = (case v of None \<Rightarrow> Inr (to_be 2 (-1)) | Some s \<Rightarrow> U16String_encode s)"

definition NullableU16String_decode :: "bytes \<Rightarrow> codec_error + (string option \<times> bytes)" where
  "NullableU16String_decode bs = rbind (read_int 2 bs) (\<lambda>(n, rest).
     if n = -1 then Inr (None, rest)
     else if n > MAX_STRING then Inl LengthLimit
     else rbind (read_bytes n rest) (\<lambda>(b, rest). rbind (from_utf8 b) (\<lambda>s. Inr (Some s, rest))))"

definition ProtocolOctets_encode :: "bytes option \<Rightarrow> codec_error + bytes" where
  "ProtocolOctets_encode v =
     (case v of
        None \<Rightarrow> Inr (to_be 4 (-1))
      | Some bs \<Rightarrow> if fits_u 4 (int (length bs)) then Inr (to_be 4 (int (length bs)) @ bs) else Inl TooLongToWrite)"

definition ProtocolOctets_decode :: "bytes \<Rightarrow> codec_error + (bytes option \<times> bytes)" where
  "ProtocolOctets_decode bs = rbind (read_int 4 bs) (\<lambda>(n, rest).
     if n = -1 then Inr (None, rest) else rbind (read_bytes n rest) (\<lambda>(b, rest). Inr (Some b, rest)))"

definition TopicPartition_encode :: "topic_partition \<Rightarrow> codec_error + bytes" where
  "TopicPartition_encode tp = rbind (U16String_encode (tp_topic tp)) (\<lambda>t.
     rbind (Sequence_encode (\<lambda>p. Inr (to_be 4 p)) (tp_partitions tp)) (\<lambda>ps. Inr (t @ ps)))"

definition TopicPartition_decode :: "bytes \<Rightarrow> codec_error + (topic_partition \<times> bytes)" where
  "TopicPartition_decode bs = rbind (U16String_decode bs) (\<lambda>(t, rest).
     rbind (Sequence_decode (read_int 4) rest) (\<lambda>(ps, rest). Inr (\<lparr> tp_topic = t, tp_partitions = ps \<rparr>, rest)))"

section \<open>Subscriptions\<close>

text \<open>The fields of a layout, in its order: what each version writes and reads.\<close>

definition MemberMetadata_encode :: "member_metadata \<Rightarrow> codec_error + bytes" where
  "MemberMetadata_encode m =
     (let v = mm_version m; s = mm_subscription m in
      if v < 0 \<or> 3 < v then Inl UnsupportedVersion
      else rbind (Sequence_encode U16String_encode (cs_topics s)) (\<lambda>topics.
           rbind (ProtocolOctets_encode (cs_user_data s)) (\<lambda>user.
           rbind (if 1 \<le> v then Sequence_encode TopicPartition_encode (unwrap_or [] (cs_owned_partitions s)) else Inr []) (\<lambda>owned.
           rbind (if 3 \<le> v then NullableU16String_encode (cs_rack_id s) else Inr []) (\<lambda>rack.
             Inr (to_be 2 v @ topics @ user @ owned @
                  (if 2 \<le> v then to_be 4 (unwrap_or (-1) (cs_generation_id s)) else []) @ rack))))))"

definition read_if :: "bool \<Rightarrow> (bytes \<Rightarrow> codec_error + ('a \<times> bytes)) \<Rightarrow> bytes \<Rightarrow> codec_error + ('a option \<times> bytes)" where
  "read_if c dec bs = (if c then rbind (dec bs) (\<lambda>(x, rest). Inr (Some x, rest)) else Inr (None, bs))"

definition MemberMetadata_decode :: "bytes \<Rightarrow> codec_error + member_metadata" where
  "MemberMetadata_decode bs = rbind (read_int 2 bs) (\<lambda>(v, rest).
     if v < 0 \<or> 3 < v then Inl UnsupportedVersion
     else rbind (Sequence_decode U16String_decode rest) (\<lambda>(topics, rest).
          rbind (ProtocolOctets_decode rest) (\<lambda>(user, rest).
          rbind (read_if (1 \<le> v) (Sequence_decode TopicPartition_decode) rest) (\<lambda>(owned, rest).
          rbind (read_if (2 \<le> v) (read_int 4) rest) (\<lambda>(gen, rest).
          rbind (read_if (3 \<le> v) NullableU16String_decode rest) (\<lambda>(rack, rest).
            Inr \<lparr> mm_version = v,
                  mm_subscription = \<lparr> cs_topics = topics, cs_user_data = user, cs_owned_partitions = owned,
                    cs_generation_id = gen, cs_rack_id = Option.bind rack (\<lambda>r. r) \<rparr> \<rparr>))))))"

section \<open>Assignments\<close>

definition MemberAssignment_encode :: "member_assignment \<Rightarrow> codec_error + bytes" where
  "MemberAssignment_encode a =
     rbind (Sequence_encode TopicPartition_encode (ma_assigned_partitions a)) (\<lambda>ps.
     rbind (ProtocolOctets_encode (ma_user_data a)) (\<lambda>user. Inr (to_be 2 (ma_version a) @ ps @ user)))"

definition MemberAssignment_decode :: "bytes \<Rightarrow> codec_error + member_assignment" where
  "MemberAssignment_decode bs = rbind (read_int 2 bs) (\<lambda>(v, rest).
     rbind (Sequence_decode TopicPartition_decode rest) (\<lambda>(ps, rest).
     rbind (ProtocolOctets_decode rest) (\<lambda>(user, rest).
       Inr \<lparr> ma_version = v, ma_assigned_partitions = ps, ma_user_data = user \<rparr>)))"

text \<open>\<open>subscribed_topics\<close> of \<open>migration.rs\<close>: what a subscription names, or nothing when it does not parse.\<close>

definition subscribed_topics :: "bytes \<Rightarrow> string list" where
  "subscribed_topics metadata = (case MemberMetadata_decode metadata of Inl _ \<Rightarrow> [] | Inr m \<Rightarrow> cs_topics (mm_subscription m))"

section \<open>Values within the reader's limits\<close>

definition wf_string :: "string \<Rightarrow> bool" where
  "wf_string s \<longleftrightarrow> int (length s) \<le> MAX_STRING \<and> utf8_valid (bytes_of_str s)"

definition wf_list :: "('a \<Rightarrow> bool) \<Rightarrow> 'a list \<Rightarrow> bool" where
  "wf_list ok xs \<longleftrightarrow> int (length xs) \<le> MAX_SEQUENCE \<and> list_all ok xs"

definition wf_topic_partition :: "topic_partition \<Rightarrow> bool" where
  "wf_topic_partition tp \<longleftrightarrow> wf_string (tp_topic tp) \<and> wf_list (fits_s 4) (tp_partitions tp)"

definition wf_octets :: "bytes option \<Rightarrow> bool" where
  "wf_octets v \<longleftrightarrow> is_none_or v (\<lambda>bs. int (length bs) < 2 ^ 31)"

definition wf_metadata :: "member_metadata \<Rightarrow> bool" where
  "wf_metadata m \<longleftrightarrow> (let s = mm_subscription m in
     0 \<le> mm_version m \<and> mm_version m \<le> 3 \<and> wf_list wf_string (cs_topics s) \<and> wf_octets (cs_user_data s) \<and>
     is_none_or (cs_owned_partitions s) (wf_list wf_topic_partition) \<and> is_none_or (cs_generation_id s) (fits_s 4) \<and>
     is_none_or (cs_rack_id s) wf_string)"

definition wf_assignment :: "member_assignment \<Rightarrow> bool" where
  "wf_assignment a \<longleftrightarrow> fits_s 2 (ma_version a) \<and> wf_list wf_topic_partition (ma_assigned_partitions a) \<and> wf_octets (ma_user_data a)"

text \<open>What a reader learns: the fields of the version, present.\<close>

definition metadata_view :: "member_metadata \<Rightarrow> member_metadata" where
  "metadata_view m = (let v = mm_version m; s = mm_subscription m in
     m\<lparr>mm_subscription := s\<lparr>cs_owned_partitions := (if 1 \<le> v then Some (unwrap_or [] (cs_owned_partitions s)) else None),
       cs_generation_id := (if 2 \<le> v then Some (unwrap_or (-1) (cs_generation_id s)) else None),
       cs_rack_id := (if 3 \<le> v then cs_rack_id s else None)\<rparr>\<rparr>)"

section \<open>Round trips\<close>

lemma read_int_to_be [simp]: "fits_s n v \<Longrightarrow> 0 < n \<Longrightarrow> read_int n (to_be n v @ rest) = Inr (v, rest)"
  by (simp add: read_int_def from_be_s_inverse)

lemma read_bytes_append [simp]: "n = int (length b) \<Longrightarrow> read_bytes n (b @ rest) = Inr (b, rest)"
  by (simp add: read_bytes_def)

text \<open>One item: within the limits it is written, and read back.\<close>

locale limited_codec =
  fixes enc :: "'a \<Rightarrow> codec_error + bytes" and ok :: "'a \<Rightarrow> bool" and dec :: "bytes \<Rightarrow> codec_error + ('a \<times> bytes)"
  assumes writes: "ok x \<Longrightarrow> \<exists>b. enc x = Inr b" and reads: "ok x \<Longrightarrow> enc x = Inr b \<Longrightarrow> dec (b @ rest) = Inr (x, rest)"
begin

lemma all_write: "list_all ok xs \<Longrightarrow> \<exists>b. encode_all enc xs = Inr b"
proof (induction xs)
  case (Cons x xs)
  then obtain b b' where "enc x = Inr b" "encode_all enc xs = Inr b'" using writes [of x] by auto
  then show ?case by simp
qed simp

lemma all_read: "list_all ok xs \<Longrightarrow> encode_all enc xs = Inr b \<Longrightarrow> decode_many dec (length xs) (b @ rest) = Inr (xs, rest)"
  by (induction xs arbitrary: b) (auto simp: result_simps reads)

lemma sequence_writes: "wf_list ok xs \<Longrightarrow> \<exists>b. Sequence_encode enc xs = Inr b"
  using all_write [of xs] by (auto simp: wf_list_def Sequence_encode_def MAX_SEQUENCE_def fits_u_def)

lemma sequence_reads: "wf_list ok xs \<Longrightarrow> Sequence_encode enc xs = Inr b \<Longrightarrow> Sequence_decode dec (b @ rest) = Inr (xs, rest)"
proof -
  assume ok: "wf_list ok xs" and "Sequence_encode enc xs = Inr b"
  then obtain body where b: "b = to_be 4 (int (length xs)) @ body" "encode_all enc xs = Inr body"
    by (auto simp: Sequence_encode_def result_simps split: if_splits)
  have "fits_s 4 (int (length xs))" using ok by (simp add: wf_list_def MAX_SEQUENCE_def fits_s_def)
  then show ?thesis using ok all_read [OF _ b(2)] by (simp add: b(1) Sequence_decode_def wf_list_def)
qed

end

interpretation strings: limited_codec U16String_encode wf_string U16String_decode
  by unfold_locales (auto simp: wf_string_def U16String_encode_def U16String_decode_def MAX_STRING_def fits_u_def fits_s_def from_utf8_def split: if_splits)

interpretation partitions: limited_codec "\<lambda>p. Inr (to_be 4 p)" "fits_s 4" "read_int 4"
  by unfold_locales auto

interpretation topic_partitions: limited_codec TopicPartition_encode wf_topic_partition TopicPartition_decode
proof
  fix tp :: topic_partition and b rest
  assume ok: "wf_topic_partition tp"
  then obtain t ps where w: "U16String_encode (tp_topic tp) = Inr t" "Sequence_encode (\<lambda>p. Inr (to_be 4 p)) (tp_partitions tp) = Inr ps"
    using strings.writes [of "tp_topic tp"] partitions.sequence_writes [of "tp_partitions tp"] by (auto simp: wf_topic_partition_def)
  then show "\<exists>b. TopicPartition_encode tp = Inr b" by (simp add: TopicPartition_encode_def)
  assume "TopicPartition_encode tp = Inr b"
  then have "b = t @ ps" using w by (simp add: TopicPartition_encode_def)
  then show "TopicPartition_decode (b @ rest) = Inr (tp, rest)"
    using ok strings.reads [OF _ w(1)] partitions.sequence_reads [OF _ w(2)]
    by (simp add: TopicPartition_decode_def wf_topic_partition_def)
qed

interpretation octets: limited_codec ProtocolOctets_encode wf_octets ProtocolOctets_decode
  by unfold_locales (auto simp: wf_octets_def ProtocolOctets_encode_def ProtocolOctets_decode_def is_none_or_def fits_u_def fits_s_def
      split: option.splits if_splits)

interpretation racks: limited_codec NullableU16String_encode "\<lambda>v. is_none_or v wf_string" NullableU16String_decode
  by unfold_locales (auto simp: wf_string_def NullableU16String_encode_def NullableU16String_decode_def U16String_encode_def
      is_none_or_def MAX_STRING_def fits_u_def fits_s_def from_utf8_def split: option.splits if_splits)


text \<open>An optional field: read when its version has it.\<close>

lemma read_if_simps [simp]: "read_if True dec bs = rbind (dec bs) (\<lambda>(x, rest). Inr (Some x, rest))" "read_if False dec bs = Inr (None, bs)"
  by (simp_all add: read_if_def)

lemma metadata_roundtrip:
  assumes wf: "wf_metadata m"
  shows "\<exists>b. MemberMetadata_encode m = Inr b \<and> (\<forall>rest. MemberMetadata_decode (b @ rest) = Inr (metadata_view m))"
proof -
  obtain v s where m: "m = \<lparr> mm_version = v, mm_subscription = s \<rparr>" by (cases m)
  have v: "0 \<le> v" "v \<le> 3" "fits_s 2 v" and gen: "fits_s 4 (unwrap_or (-1) (cs_generation_id s))"
    and owned: "wf_list wf_topic_partition (unwrap_or [] (cs_owned_partitions s))" and rack: "is_none_or (cs_rack_id s) wf_string"
    and topics: "wf_list wf_string (cs_topics s)" and user: "wf_octets (cs_user_data s)"
    using wf by (cases "cs_generation_id s"; cases "cs_owned_partitions s";
        simp add: wf_metadata_def m Let_def fits_s_def is_none_or_def wf_list_def MAX_SEQUENCE_def)+
  obtain t where t: "Sequence_encode U16String_encode (cs_topics s) = Inr t" using strings.sequence_writes [OF topics] by blast
  obtain u where u: "ProtocolOctets_encode (cs_user_data s) = Inr u" using octets.writes [OF user] by blast
  obtain ow where ow: "Sequence_encode TopicPartition_encode (unwrap_or [] (cs_owned_partitions s)) = Inr ow"
    using topic_partitions.sequence_writes [OF owned] by blast
  obtain ra where ra: "NullableU16String_encode (cs_rack_id s) = Inr ra" using racks.writes [OF rack] by blast
  note reads = strings.sequence_reads [OF topics t] octets.reads [OF user u] topic_partitions.sequence_reads [OF owned ow]
    racks.reads [OF rack ra]
  consider "v = 0" | "v = 1" | "v = 2" | "v = 3" using v by linarith
  then show ?thesis
    by cases (use v gen in \<open>simp add: m MemberMetadata_encode_def MemberMetadata_decode_def metadata_view_def Let_def t u ow ra reads\<close>)+
qed

lemma assignment_roundtrip:
  assumes wf: "wf_assignment a"
  shows "\<exists>b. MemberAssignment_encode a = Inr b \<and> (\<forall>rest. MemberAssignment_decode (b @ rest) = Inr a)"
proof -
  have ok: "fits_s 2 (ma_version a)" "wf_list wf_topic_partition (ma_assigned_partitions a)" "wf_octets (ma_user_data a)"
    using wf by (simp_all add: wf_assignment_def)
  obtain ps where ps: "Sequence_encode TopicPartition_encode (ma_assigned_partitions a) = Inr ps"
    using topic_partitions.sequence_writes [OF ok(2)] by blast
  obtain u where u: "ProtocolOctets_encode (ma_user_data a) = Inr u" using octets.writes [OF ok(3)] by blast
  show ?thesis using ok(1) topic_partitions.sequence_reads [OF ok(2) ps] octets.reads [OF ok(3) u]
    by (simp add: MemberAssignment_encode_def MemberAssignment_decode_def ps u)
qed

section \<open>Properties\<close>

definition sample_metadata :: member_metadata where
  "sample_metadata = \<lparr> mm_version = 1, mm_subscription = \<lparr> cs_topics = [''t''], cs_user_data = None,
     cs_owned_partitions = Some [\<lparr> tp_topic = ''t'', tp_partitions = [0, 2] \<rparr>], cs_generation_id = Some 4, cs_rack_id = Some ''r'' \<rparr> \<rparr>"

text \<open>
  C40. The embedded consumer protocol survives the wire. A subscription of any of the four versions and an assignment, within
  the reader's limits of 1024 elements and 4096 bytes a string, are written, and read back from any frame that continues;
  the reader learns exactly the fields of the version, so that a version 0 subscription says nothing of what it owns.
\<close>

theorem consumer_protocol_roundtrip:
  "(wf_metadata m \<longrightarrow> (\<exists>b. MemberMetadata_encode m = Inr b \<and> (\<forall>rest. MemberMetadata_decode (b @ rest) = Inr (metadata_view m)))) \<and>
   (wf_assignment a \<longrightarrow> (\<exists>b. MemberAssignment_encode a = Inr b \<and> (\<forall>rest. MemberAssignment_decode (b @ rest) = Inr a)))"
  using metadata_roundtrip assignment_roundtrip by blast

theorem consumer_protocol_roundtrip_witness:
  "\<exists>b. MemberMetadata_encode sample_metadata = Inr b \<and>
     MemberMetadata_decode (b @ [9]) = Inr \<lparr> mm_version = 1, mm_subscription = \<lparr> cs_topics = [''t''], cs_user_data = None,
       cs_owned_partitions = Some [\<lparr> tp_topic = ''t'', tp_partitions = [0, 2] \<rparr>], cs_generation_id = None, cs_rack_id = None \<rparr> \<rparr>"
proof -
  have "wf_metadata sample_metadata" by code_simp
  moreover have "metadata_view sample_metadata = \<lparr> mm_version = 1, mm_subscription = \<lparr> cs_topics = [''t''], cs_user_data = None,
       cs_owned_partitions = Some [\<lparr> tp_topic = ''t'', tp_partitions = [0, 2] \<rparr>], cs_generation_id = None, cs_rack_id = None \<rparr> \<rparr>"
    by (simp add: metadata_view_def sample_metadata_def)
  ultimately show ?thesis using consumer_protocol_roundtrip [of sample_metadata] by metis
qed

end
