(* ===== verification/Migration.thy ===== *)
theory Migration
  imports GroupWorld ConsumerProtocol
begin

text \<open>
  A classic group converted to a consumer group, and the classic members a consumer group serves
  (\<open>tansu-broker/src/coordinator/group/migration.rs\<close> and the conversion in \<open>administrator.rs\<close>). The four classic requests
  are shown to meet the contract \<open>group_service\<close> beside the heartbeat, so that no partition is consumed twice while a
  group moves from one protocol to the other.
\<close>

section \<open>Requests and answers\<close>

definition CONSUMER :: string where "CONSUMER = ''consumer''"
definition ASSIGNMENT_VERSION :: int where "ASSIGNMENT_VERSION = 3"

record classic_join_request =
  cj_member_id :: member_id
  cj_instance_id :: "string option"
  cj_session_timeout_ms :: int
  cj_rebalance_timeout_ms :: "int option"
  cj_protocol_type :: string
  cj_protocols :: "(string \<times> bytes) list"

record join_body =
  jb_error :: "group_error option"
  jb_generation_id :: int
  jb_protocol_name :: string
  jb_member_id :: member_id

record sync_body =
  sb_protocol_name :: string
  sb_assignment :: bytes

datatype classic_body =
    JoinBody join_body
  | SyncBody sync_body
  | HeartbeatBody "group_error option"
  | LeaveBody "(member_id \<times> string option \<times> group_error option) list"

section \<open>The conversion\<close>

text \<open>Partitions by topic name as ids; topics that do not resolve are dropped.\<close>

definition by_id :: "topic_partition list \<Rightarrow> (string, topic_id) btree \<Rightarrow> partitions" where
  "by_id ps names = grouped (concat (map (\<lambda>tp. case bt_get names (tp_topic tp) of
     None \<Rightarrow> []
   | Some t \<Rightarrow> map (Pair t) (tp_partitions tp)) ps))"

definition sorted_names :: "string list \<Rightarrow> string list" where
  "sorted_names names = fold vec_insert names []"

definition classic_assigned :: "assignment_doc option \<Rightarrow> (string, topic_id) btree \<Rightarrow> member_id \<Rightarrow> group_error + partitions" where
  "classic_assigned assignment names mid =
     (case Option.bind assignment (\<lambda>a. bt_get (ad_assignments a) mid) of
        None \<Rightarrow> Inr []
      | Some bs \<Rightarrow>
          if bs = [] then Inr []
          else (case MemberAssignment_decode bs of
                 Inl _ \<Rightarrow> Inl GroupIdNotFound
               | Inr a \<Rightarrow>
                   if is_some_and (ma_user_data a) (\<lambda>user. user \<noteq> []) then Inl GroupIdNotFound
                   else Inr (by_id (ma_assigned_partitions a) names)))"

definition classic_converted :: "generation_doc \<Rightarrow> member_ref \<Rightarrow> member_doc \<Rightarrow> member_metadata \<Rightarrow> partitions \<Rightarrow> consumer_member" where
  "classic_converted generation ref member metadata ps =
     (let protocol_name = unwrap_or [] (gd_protocol_name generation) in
      member_default
        \<lparr>member_epoch := gd_generation_id generation, previous_member_epoch := gd_generation_id generation,
         member_state := Stable, instance_id := mr_group_instance_id ref,
         rack_id := cs_rack_id (mm_subscription metadata),
         subscribed_topic_names := sorted_names (cs_topics (mm_subscription metadata)),
         rebalance_timeout_ms := unwrap_or (md_session_timeout_ms member) (md_rebalance_timeout_ms member),
         session_timeout_ms := md_session_timeout_ms member, last_contact_ms := md_last_contact_ms member,
         assigned := ps, target := ps,
         classic := Some \<lparr> cl_session_timeout_ms = md_session_timeout_ms member, cl_protocol_name = protocol_name,
           cl_protocols = [protocol_name], cl_metadata = jr_metadata (md_join_response member) \<rparr>\<rparr>)"

definition convert_member ::
    "generation_doc \<Rightarrow> (member_id, member_doc) btree \<Rightarrow> assignment_doc option \<Rightarrow> (string, topic_id) btree \<Rightarrow> int \<Rightarrow> member_id \<times> member_ref
      \<Rightarrow> (member_id, consumer_member) btree \<Rightarrow> group_error + (member_id, consumer_member) btree" where
  "convert_member generation members assignment names now_ms entry converted =
     (case bt_get members (fst entry) of
        None \<Rightarrow> Inr converted
      | Some member \<Rightarrow>
          if member_doc_is_expired now_ms member then Inr converted
          else (case MemberMetadata_decode (jr_metadata (md_join_response member)) of
                 Inl _ \<Rightarrow> Inl GroupIdNotFound
               | Inr metadata \<Rightarrow>
                   rbind (classic_assigned assignment names (fst entry)) (\<lambda>ps.
                     Inr (bt_insert (fst entry) (classic_converted generation (snd entry) member metadata ps) converted))))"

fun convert_members ::
    "generation_doc \<Rightarrow> (member_id, member_doc) btree \<Rightarrow> assignment_doc option \<Rightarrow> (string, topic_id) btree \<Rightarrow> int \<Rightarrow> (member_id \<times> member_ref) list
      \<Rightarrow> (member_id, consumer_member) btree \<Rightarrow> group_error + (member_id, consumer_member) btree" where
  "convert_members generation members assignment names now_ms [] converted = Inr converted"
| "convert_members generation members assignment names now_ms (entry # entries) converted =
     rbind (convert_member generation members assignment names now_ms entry converted)
       (convert_members generation members assignment names now_ms entries)"

definition from_classic ::
    "generation_doc \<Rightarrow> (member_id, member_doc) btree \<Rightarrow> assignment_doc option \<Rightarrow> resolved \<Rightarrow> consumer_group option \<Rightarrow> int
      \<Rightarrow> group_error + consumer_group" where
  "from_classic generation members assignment res held now_ms =
     (let epoch = max (gd_generation_id generation) (case held of None \<Rightarrow> 0 | Some g \<Rightarrow> group_epoch g);
          g = group_default
            \<lparr>g_seq := (case held of None \<Rightarrow> 0 | Some g \<Rightarrow> g_seq g), group_epoch := epoch, assignment_epoch := epoch,
             created_ms := (case held of None \<Rightarrow> now_ms | Some g \<Rightarrow> created_ms g),
             classic_generation := Some (gd_generation_id generation), topics := resolved_topics res\<rparr>;
          assignment = (case assignment of None \<Rightarrow> None
            | Some a \<Rightarrow> if ad_generation_id a = gd_generation_id generation then Some a else None)
      in rbind (convert_members generation members assignment (topics_by_name g) now_ms (gd_members generation) [])
           (\<lambda>ms. Inr (g\<lparr>g_members := ms\<rparr>)))"

section \<open>Classic requests served by a consumer group\<close>

definition by_instance :: "consumer_group \<Rightarrow> string \<Rightarrow> (member_id \<times> consumer_member) option" where
  "by_instance g inst = List.find (\<lambda>(_, m). instance_id m = Some inst) (g_members g)"

definition named :: "consumer_group \<Rightarrow> member_id \<Rightarrow> string option \<Rightarrow> group_error + consumer_member" where
  "named g mid inst =
     (case inst of
        Some i \<Rightarrow>
          (case by_instance g i of
             None \<Rightarrow> Inl UnknownMemberId
           | Some (found, m) \<Rightarrow> if found \<noteq> mid then Inl FencedInstanceId else Inr m)
      | None \<Rightarrow> ok_or UnknownMemberId (bt_get (g_members g) mid))"

definition agreed_protocol :: "consumer_group \<Rightarrow> member_id \<Rightarrow> (string \<times> bytes) list \<Rightarrow> (string \<times> bytes) option" where
  "agreed_protocol g mid protocols = List.find (\<lambda>(name, _).
     list_all (\<lambda>(other, m). other \<noteq> mid \<longrightarrow> is_none_or (classic m) (\<lambda>c. name \<in> set (cl_protocols c))) (g_members g)) protocols"

definition waiting_on_unreleased :: "consumer_group \<Rightarrow> member_id \<Rightarrow> consumer_member \<Rightarrow> bool" where
  "waiting_on_unreleased g mid m \<longleftrightarrow>
     list_ex (\<lambda>p. p \<notin> set (flatten (assigned m)) \<and> p \<in> set (owned_by_others g mid)) (flatten (target m))"

definition settled_transition :: "consumer_group \<Rightarrow> consumer_group \<Rightarrow> member_id \<Rightarrow> liveness \<Rightarrow> int \<Rightarrow> 'r \<Rightarrow> 'r transition" where
  "settled_transition prior g mid l now_ms response =
     (let changed = (g \<noteq> prior) in
      case bt_get (g_members g) mid of
        None \<Rightarrow> \<lparr> tr_group = g, tr_changed = changed, tr_renew = False, tr_member_id = mid, tr_response = response \<rparr>
      | Some m \<Rightarrow>
          if changed then
            \<lparr> tr_group = put_member mid (m\<lparr>last_contact_ms := now_ms\<rparr>) g, tr_changed = True, tr_renew = False,
              tr_member_id = mid, tr_response = response \<rparr>
          else
            \<lparr> tr_group = g, tr_changed = False,
              tr_renew = (sat_i64 (now_ms - known_contact_ms l mid m) \<ge> session_timeout_ms m sdiv 2),
              tr_member_id = mid, tr_response = response \<rparr>)"

text \<open>Who joins: the member the inst or the id names, a new member of the inst, or (None) a client that is first
  to be given an id.\<close>

definition joining_id :: "member_id \<Rightarrow> classic_join_request \<Rightarrow> consumer_group \<Rightarrow> group_error + member_id option" where
  "joining_id new_id rq g =
     (case Option.bind (cj_instance_id rq) (by_instance g) of
        Some (held_id, _) \<Rightarrow>
          if cj_member_id rq = [] \<or> cj_member_id rq = held_id then Inr (Some held_id) else Inl FencedInstanceId
      | None \<Rightarrow>
          if cj_member_id rq \<noteq> [] then Inr (Some (cj_member_id rq))
          else if cj_instance_id rq \<noteq> None then Inr (Some new_id)
          else Inr None)"

definition join_required :: "member_id \<Rightarrow> client \<Rightarrow> consumer_group \<Rightarrow> classic_body transition" where
  "join_required new_id client prior =
     \<lparr> tr_group = prior, tr_changed = False, tr_renew = False, tr_member_id = [],
       tr_response = JoinBody \<lparr> jb_error = Some MemberIdRequired, jb_generation_id = -1, jb_protocol_name = [],
         jb_member_id = (if c_id client = [] then new_id else c_id client @ ''-'' @ new_id) \<rparr> \<rparr>"

definition enter_member :: "member_id \<Rightarrow> group_config \<Rightarrow> consumer_group \<Rightarrow> group_error + (bool \<times> consumer_group)" where
  "enter_member mid config g =
     (if bt_get (g_members g) mid \<noteq> None then Inr (False, g)
      else if is_some_and (cf_max_size config) (\<lambda>max_size. length (g_members g) \<ge> max_size) then Inl GroupMaxSizeReached
      else Inr (True, put_member mid (member_default\<lparr>member_epoch := 0, previous_member_epoch := -1\<rparr>) g))"

definition classic_update ::
    "classic_join_request \<Rightarrow> client \<Rightarrow> string \<times> bytes \<Rightarrow> subscription \<Rightarrow> member_id \<Rightarrow> consumer_group \<Rightarrow> bool \<times> consumer_group" where
  "classic_update rq client protocol sub mid g =
     (case bt_get (g_members g) mid of
        None \<Rightarrow> (False, g)
      | Some m \<Rightarrow>
          (let names = sorted_names (cs_topics sub)
           in (subscribed_topic_names m \<noteq> names \<or> server_assignor m \<noteq> None,
               put_member mid (m\<lparr>subscribed_topic_names := names, server_assignor := None, instance_id := cj_instance_id rq,
                 rack_id := cs_rack_id sub,
                 rebalance_timeout_ms := unwrap_or (cj_session_timeout_ms rq) (cj_rebalance_timeout_ms rq),
                 session_timeout_ms := cj_session_timeout_ms rq, client_id := c_id client,
                 client_host := (if c_host client \<noteq> [] then c_host client else client_host m),
                 classic := Some \<lparr> cl_session_timeout_ms = cj_session_timeout_ms rq, cl_protocol_name = fst protocol,
                   cl_protocols = map fst (cj_protocols rq), cl_metadata = snd protocol \<rparr>\<rparr>) g)))"

definition owned_of_subscription :: "subscription \<Rightarrow> consumer_group \<Rightarrow> partitions option" where
  "owned_of_subscription sub g = map_option (\<lambda>ps. by_id ps (topics_by_name g)) (cs_owned_partitions sub)"

definition join_as ::
    "compiler \<Rightarrow> consumer_group \<Rightarrow> classic_join_request \<Rightarrow> client \<Rightarrow> resolved option \<Rightarrow> liveness \<Rightarrow> group_config \<Rightarrow> int \<Rightarrow> bool \<Rightarrow> member_id
      \<Rightarrow> consumer_group \<Rightarrow> group_error + classic_body transition" where
  "join_as compile prior rq client res l config now_ms swept mid g =
     (case agreed_protocol g mid (cj_protocols rq) of
        None \<Rightarrow> Inl InconsistentGroupProtocol
      | Some protocol \<Rightarrow>
          (case MemberMetadata_decode (snd protocol) of
             Inl _ \<Rightarrow> Inl InconsistentGroupProtocol
           | Inr metadata \<Rightarrow>
               rbind (enter_member mid config g) (\<lambda>(entered, g).
                 let (moved, g) = refresh_by res g;
                     (resubscribed, g) = classic_update rq client protocol (mm_subscription metadata) mid g;
                     g = retarget_if (swept \<or> entered \<or> moved \<or> resubscribed) compile g;
                     g = reconcile_member mid (owned_of_subscription (mm_subscription metadata) g) now_ms g
                 in case bt_get (g_members g) mid of
                      None \<Rightarrow> Inl UnknownMemberId
                    | Some m \<Rightarrow> Inr (settled_transition prior g mid l now_ms (JoinBody \<lparr> jb_error = None,
                        jb_generation_id = member_epoch m, jb_protocol_name = fst protocol, jb_member_id = mid \<rparr>)))))"

definition classic_join ::
    "compiler \<Rightarrow> member_id \<Rightarrow> consumer_group option \<Rightarrow> classic_join_request \<Rightarrow> client \<Rightarrow> resolved option \<Rightarrow> liveness \<Rightarrow> group_config \<Rightarrow> int
      \<Rightarrow> group_error + classic_body transition" where
  "classic_join compile new_id held rq client res l config now_ms =
     (let prior = unwrap_or (group_default\<lparr>created_ms := now_ms\<rparr>) held in
      if cj_protocol_type rq \<noteq> CONSUMER then Inl InconsistentGroupProtocol
      else
        let (swept, g) = sweep_members l now_ms prior
        in rbind (joining_id new_id rq g) (\<lambda>id_of. case id_of of
             None \<Rightarrow> Inr (join_required new_id client prior)
           | Some mid \<Rightarrow> join_as compile prior rq client res l config now_ms swept mid g))"

definition encoded_assignment :: "consumer_group \<Rightarrow> consumer_member \<Rightarrow> group_error + bytes" where
  "encoded_assignment g m =
     (let version = (case classic m of
            None \<Rightarrow> 0
          | Some c \<Rightarrow> (case MemberMetadata_decode (cl_metadata c) of Inl _ \<Rightarrow> 0 | Inr metadata \<Rightarrow> mm_version metadata));
          ps = List.map_filter (\<lambda>(t, xs). map_option (\<lambda>topic. \<lparr> tp_topic = st_name topic, tp_partitions = xs \<rparr>)
            (bt_get (topics g) t)) (assigned m)
      in case MemberAssignment_encode \<lparr> ma_version = max 0 (min version ASSIGNMENT_VERSION),
                ma_assigned_partitions = ps, ma_user_data = None \<rparr> of
           Inl _ \<Rightarrow> Inl UnknownServerError
         | Inr bs \<Rightarrow> Inr bs)"

definition validated :: "consumer_group \<Rightarrow> member_id \<Rightarrow> string option \<Rightarrow> int \<Rightarrow> group_error + (consumer_member \<times> classic_member)" where
  "validated g mid inst generation_id =
     rbind (named g mid inst) (\<lambda>m.
       case classic m of
         None \<Rightarrow> Inl UnknownMemberId
       | Some c \<Rightarrow> if member_epoch m \<noteq> generation_id then Inl IllegalGeneration else Inr (m, c))"

definition classic_sync ::
    "compiler \<Rightarrow> consumer_group option \<Rightarrow> member_id \<Rightarrow> string option \<Rightarrow> int \<Rightarrow> string option \<times> string option \<Rightarrow> liveness \<Rightarrow> int
      \<Rightarrow> group_error + classic_body transition" where
  "classic_sync compile held mid inst generation_id protocol l now_ms =
     (case held of
        None \<Rightarrow> Inl UnknownMemberId
      | Some prior \<Rightarrow>
          (let (swept, g) = sweep_members l now_ms prior;
               g = retarget_if swept compile g
           in rbind (validated g mid inst generation_id) (\<lambda>(m, c).
                if is_some_and (fst protocol) (\<lambda>ty. ty \<noteq> CONSUMER) \<or> is_some_and (snd protocol) (\<lambda>name. name \<noteq> cl_protocol_name c)
                then Inl InconsistentGroupProtocol
                else if group_epoch g > member_epoch m \<and> member_state m \<noteq> UnrevokedPartitions then Inl RebalanceInProgress
                else rbind (encoded_assignment g m) (\<lambda>bs.
                  Inr (settled_transition prior g mid l now_ms
                    (SyncBody \<lparr> sb_protocol_name = cl_protocol_name c, sb_assignment = bs \<rparr>))))))"

definition classic_heartbeat ::
    "compiler \<Rightarrow> consumer_group option \<Rightarrow> member_id \<Rightarrow> string option \<Rightarrow> int \<Rightarrow> resolved option \<Rightarrow> liveness \<Rightarrow> int
      \<Rightarrow> group_error + classic_body transition" where
  "classic_heartbeat compile held mid inst generation_id res l now_ms =
     (case held of
        None \<Rightarrow> Inl UnknownMemberId
      | Some prior \<Rightarrow>
          (let (swept, g) = sweep_members l now_ms prior;
               (moved, g) = refresh_by res g;
               g = retarget_if (swept \<or> moved) compile g
           in rbind (validated g mid inst generation_id) (\<lambda>(m, c).
                let rejoin = (member_epoch m < group_epoch g \<or> member_state m = UnrevokedPartitions \<or>
                      (member_state m = UnreleasedPartitions \<and> \<not> waiting_on_unreleased g mid m))
                in Inr (settled_transition prior g mid l now_ms
                     (HeartbeatBody (if rejoin then Some RebalanceInProgress else None))))))"

definition departing_id :: "consumer_group \<Rightarrow> member_id \<times> string option \<Rightarrow> group_error + member_id" where
  "departing_id g who =
     (case snd who of
        Some inst \<Rightarrow>
          (case by_instance g inst of
             None \<Rightarrow> Inl UnknownMemberId
           | Some (found, _) \<Rightarrow> if fst who = [] \<or> fst who = found then Inr found else Inl FencedInstanceId)
      | None \<Rightarrow> if bt_get (g_members g) (fst who) \<noteq> None then Inr (fst who) else Inl UnknownMemberId)"

definition depart ::
    "member_id \<times> string option \<Rightarrow> bool \<times> consumer_group \<times> (member_id \<times> string option \<times> group_error option) list
      \<Rightarrow> bool \<times> consumer_group \<times> (member_id \<times> string option \<times> group_error option) list" where
  "depart who = (\<lambda>(left, g, responses).
     case departing_id g who of
       Inl err \<Rightarrow> (left, g, responses @ [(fst who, snd who, Some err)])
     | Inr found \<Rightarrow> (True, g\<lparr>g_members := bt_remove found (g_members g)\<rparr>, responses @ [(fst who, snd who, None)]))"

definition classic_leave ::
    "compiler \<Rightarrow> consumer_group option \<Rightarrow> (member_id \<times> string option) list \<Rightarrow> liveness \<Rightarrow> int \<Rightarrow> group_error + classic_body transition" where
  "classic_leave compile held departing l now_ms =
     (case held of
        None \<Rightarrow> Inl UnknownMemberId
      | Some prior \<Rightarrow>
          (let (swept, g) = sweep_members l now_ms prior;
               (left, g, responses) = fold depart departing (swept, g, []);
               g = retarget_if left compile g
           in Inr \<lparr> tr_group = g, tr_changed = (g \<noteq> prior), tr_renew = False, tr_member_id = [],
                    tr_response = LeaveBody responses \<rparr>))"


section \<open>The coordinator around it\<close>

text \<open>What the store answers a replica that converts a group: the members' documents, the assignment of the generation
  and the topics' metadata.\<close>

record classic_store =
  sr_member :: "member_id \<Rightarrow> member_doc option"
  sr_assignment :: "assignment_doc option"
  sr_metadata :: "string list option \<Rightarrow> topic_metadata list"

definition converted :: "classic_store \<Rightarrow> generation_doc \<Rightarrow> consumer_group option \<Rightarrow> int \<Rightarrow> group_error + consumer_group" where
  "converted store generation held now_ms =
     (let members = List.map_filter (\<lambda>(mid, _). map_option (Pair mid) (sr_member store mid)) (gd_members generation);
          assignment = (if gd_leader generation \<noteq> None \<and> gd_generation_id generation \<ge> 0 then sr_assignment store else None);
          names = fold vec_insert (concat (map (\<lambda>(_, m). subscribed_topics (jr_metadata (md_join_response m))) members)) []
      in from_classic generation members assignment
           (resolve_topics (sr_metadata store) \<lparr> sub_names = names, sub_patterns = [] \<rparr>) held now_ms)"

text \<open>Completing a conversion: what one attempt reads, and the store's answer to its write.\<close>

record conversion_attempt =
  cv_now_ms :: int
  cv_held :: "consumer_group option"
  cv_store :: classic_store
  cv_update :: update_answer

datatype completion = Complete "consumer_group option" | Incomplete group_error | Completion_Failed

fun complete_conversion :: "generation_doc \<Rightarrow> nat \<Rightarrow> conversion_attempt list \<Rightarrow> completion option" where
  "complete_conversion generation conflicts [] = None"
| "complete_conversion generation conflicts (a # as) =
     (if is_some_and (cv_held a) (\<lambda>g. classic_generation g = Some (gd_generation_id generation)) then Some (Complete None)
      else case converted (cv_store a) generation (cv_held a) (cv_now_ms a) of
             Inl err \<Rightarrow> Some (Incomplete err)
           | Inr g \<Rightarrow>
               (case cv_update a of
                  Updated \<Rightarrow> Some (Complete (Some (bumped g)))
                | UpdateFailed \<Rightarrow> Some Completion_Failed
                | _ \<Rightarrow>
                    if conflicts \<ge> MAX_GENERATION_CAS_ATTEMPTS then Some (Incomplete CoordinatorLoadInProgress)
                    else complete_conversion generation (conflicts + 1) as))"

datatype conversion = Converted | Conversion_Refused group_error | Conversion_Outdated | Conversion_Failed

text \<open>\<open>mark\<close> is the store's answer to the write that marks the generation; the first component is the generation written.\<close>

definition convert ::
    "group_config \<Rightarrow> generation_doc \<Rightarrow> int \<Rightarrow> classic_store \<Rightarrow> update_answer \<Rightarrow> conversion_attempt list
      \<Rightarrow> (generation_doc option \<times> conversion) option" where
  "convert config generation now_ms store mark as =
     (if cf_migration config = Disabled \<or> gd_protocol_type generation \<noteq> Some CONSUMER \<or>
         is_some_and (cf_max_size config) (\<lambda>max_size. length (gd_members generation) > max_size)
      then Some (None, Conversion_Refused GroupIdNotFound)
      else case converted store generation None now_ms of
             Inl err \<Rightarrow> Some (None, Conversion_Refused err)
           | Inr _ \<Rightarrow>
               (let marked = generation\<lparr>gd_consumer_since_ms := Some now_ms\<rparr> in
                case mark of
                  UpdateFailed \<Rightarrow> Some (None, Conversion_Failed)
                | Updated \<Rightarrow> map_option (\<lambda>completion. (Some (generation_bumped marked),
                    (case completion of
                       Complete _ \<Rightarrow> Converted
                     | Incomplete err \<Rightarrow> Conversion_Refused err
                     | Completion_Failed \<Rightarrow> Conversion_Failed))) (complete_conversion marked 0 as)
                | _ \<Rightarrow> Some (None, Conversion_Outdated)))"

definition is_live_consumer :: "consumer_group option \<Rightarrow> contact_stamps \<Rightarrow> int \<Rightarrow> bool" where
  "is_live_consumer held stamps now_ms = is_some_and held (\<lambda>g. has_live_members now_ms (with_contacts stamps g))"

text \<open>A member's document that cannot be read counts as live; \<open>documents\<close> holds the reads that succeeded.\<close>

definition is_live_classic_generation :: "(member_id \<Rightarrow> member_doc option) \<Rightarrow> generation_doc \<Rightarrow> int \<Rightarrow> bool" where
  "is_live_classic_generation documents generation now_ms \<longleftrightarrow> \<not> is_converted generation \<and>
     list_ex (\<lambda>(mid, _). \<not> is_some_and (documents mid) (member_doc_is_expired now_ms)) (gd_members generation)"

record admission_attempt =
  am_now_ms :: int
  am_consumer :: "consumer_group option"
  am_stamps :: contact_stamps
  am_generation :: generation_doc
  am_documents :: "member_id \<Rightarrow> member_doc option"
  am_store :: classic_store
  am_mark :: update_answer
  am_completion :: "conversion_attempt list"

datatype admission = Admitted | NotAdmitted group_error | Admission_Failed

text \<open>Whether a member of the consumer protocol may join: the attempts \<open>0..=MAX_GENERATION_CAS_ATTEMPTS\<close>, left to make.\<close>

fun consumer_join_admission :: "group_config \<Rightarrow> nat \<Rightarrow> admission_attempt list \<Rightarrow> admission option" where
  "consumer_join_admission config 0 as = Some (NotAdmitted CoordinatorLoadInProgress)"
| "consumer_join_admission config (Suc n) [] = None"
| "consumer_join_admission config (Suc n) (a # as) =
     (if is_live_consumer (am_consumer a) (am_stamps a) (am_now_ms a) then Some Admitted
      else if is_converted (am_generation a) then
        map_option (\<lambda>completion. case completion of
            Complete _ \<Rightarrow> Admitted
          | Incomplete err \<Rightarrow> NotAdmitted err
          | Completion_Failed \<Rightarrow> Admission_Failed) (complete_conversion (am_generation a) 0 (am_completion a))
      else if \<not> is_live_classic_generation (am_documents a) (am_generation a) (am_now_ms a) then Some Admitted
      else Option.bind (convert config (am_generation a) (am_now_ms a) (am_store a) (am_mark a) (am_completion a))
             (\<lambda>(_, conversion). case conversion of
                Converted \<Rightarrow> Some Admitted
              | Conversion_Refused err \<Rightarrow> Some (NotAdmitted err)
              | Conversion_Failed \<Rightarrow> Some Admission_Failed
              | Conversion_Outdated \<Rightarrow> consumer_join_admission config n as))"

datatype route = Route_Classic | Route_Consumer | Route_Reread

definition taken_back :: "generation_doc \<Rightarrow> int \<Rightarrow> generation_doc" where
  "taken_back generation now_ms = generation
     \<lparr>gd_consumer_since_ms := None, gd_members := [], gd_leader := None,
      gd_generation_id := sat_i32 (gd_generation_id generation + 1), gd_members_changed_at_ms := now_ms, gd_state_since_ms := now_ms\<rparr>"

definition names_member :: "(string \<times> string option) list \<Rightarrow> (member_id \<times> string option) list \<Rightarrow> bool" where
  "names_member members named_by = list_ex (\<lambda>(mid, inst). list_ex (\<lambda>(other, other_inst). other = mid \<or>
     is_some_and inst (\<lambda>i. other_inst = Some i)) members) named_by"

text \<open>Which group serves a classic request, and the generation written when a converted group is taken back.
  \<open>consumer\<close> is the group read after any conversion was completed.\<close>

definition classic_route ::
    "generation_doc \<Rightarrow> (member_id \<times> string option) list \<Rightarrow> bool \<Rightarrow> int \<Rightarrow> consumer_group option \<Rightarrow> contact_stamps
      \<Rightarrow> route \<times> generation_doc option" where
  "classic_route generation named_by joining now_ms consumer stamps =
     (if is_converted generation then
        (if joining \<and> \<not> is_live_consumer consumer stamps now_ms
         then (Route_Reread, Some (generation_bumped (taken_back generation now_ms)))
         else (Route_Consumer, None))
      else if joining then
        (if gd_members generation = [] \<and> is_live_consumer consumer stamps now_ms then (Route_Consumer, None) else (Route_Classic, None))
      else if names_member (map (\<lambda>(mid, ref). (mid, mr_group_instance_id ref)) (gd_members generation)) named_by
      then (Route_Classic, None)
      else case consumer of
             None \<Rightarrow> (Route_Classic, None)
           | Some g \<Rightarrow>
               (if names_member (map (\<lambda>(mid, m). (mid, instance_id m)) (g_members g)) named_by then Route_Consumer else Route_Classic, None))"

text \<open>What a commit is answered when the classic generation does not name the member.\<close>

definition consumer_commit_verdict :: "consumer_group option \<Rightarrow> member_id \<Rightarrow> int \<Rightarrow> group_error option" where
  "consumer_commit_verdict held mid epoch =
     (case Option.bind held (\<lambda>g. bt_get (g_members g) mid) of
        None \<Rightarrow> Some UnknownMemberId
      | Some m \<Rightarrow>
          if member_epoch m = epoch then None
          else if classic m \<noteq> None then Some IllegalGeneration else Some StaleMemberEpoch)"

section \<open>What a request leaves alone\<close>

definition leaves_others :: "member_id \<Rightarrow> consumer_group \<Rightarrow> consumer_group \<Rightarrow> bool" where
  "leaves_others c g g' \<longleftrightarrow> (\<forall>e m. e \<noteq> c \<and> bt_get (g_members g') e = Some m \<longrightarrow>
     (\<exists>m0. bt_get (g_members g) e = Some m0 \<and> held_by m = held_by m0))"

lemma leaves_others_trans: "leaves_others c g g' \<Longrightarrow> leaves_others c g' g'' \<Longrightarrow> leaves_others c g g''"
  unfolding leaves_others_def by metis

lemma leaves_othersI:
  "(\<And>e m. e \<noteq> c \<Longrightarrow> bt_get (g_members g') e = Some m \<Longrightarrow> bt_get (g_members g) e = Some m) \<Longrightarrow> leaves_others c g g'"
  unfolding leaves_others_def by blast

lemma sweep_others: "sweep_members l now_ms g = (swept, g') \<Longrightarrow> bt_inv (g_members g) \<Longrightarrow> leaves_others c g g'"
  by (rule leaves_othersI) (rule sweep_fields(3))

lemma refresh_others: "refresh_by res g = (moved, g') \<Longrightarrow> leaves_others c g g'"
  by (rule leaves_othersI) (simp add: refresh_by_fields)

lemma retarget_others: "leaves_others c g (retarget_if b compile g)"
  unfolding leaves_others_def using retarget_if_get by blast

lemma reconcile_others: "leaves_others c g (reconcile_member c owned now_ms g)"
  by (rule leaves_othersI) (simp add: reconcile_get_other)

lemma put_others: "leaves_others c g (put_member c m g)"
  by (rule leaves_othersI) (simp add: get_put_member)

lemma settled_transition_keeps:
  assumes tr: "tr = settled_transition prior g mid l now_ms response"
  shows "tracks own g \<Longrightarrow> tracks own (tr_group tr)" "leaves_others mid g (tr_group tr)"
    "\<not> tr_changed tr \<Longrightarrow> tr_group tr = prior" "tr_response tr = response" "tr_member_id tr = mid"
    "bt_get (g_members (tr_group tr)) mid = Some m' \<Longrightarrow> \<exists>m. bt_get (g_members g) mid = Some m \<and> same_place m m'"
proof -
  show "tracks own (tr_group tr)" if "tracks own g"
    using that tracks_put_same [OF that, of mid] unfolding tr settled_transition_def
    by (auto simp: Let_def same_place_def split: option.split)
  show "leaves_others mid g (tr_group tr)"
    unfolding tr settled_transition_def by (auto simp: Let_def put_others intro: leaves_othersI split: option.split)
  show "\<not> tr_changed tr \<Longrightarrow> tr_group tr = prior" "tr_response tr = response" "tr_member_id tr = mid"
    unfolding tr settled_transition_def by (auto simp: Let_def split: option.splits)
  show "\<exists>m. bt_get (g_members g) mid = Some m \<and> same_place m m'" if "bt_get (g_members (tr_group tr)) mid = Some m'"
    using that unfolding tr settled_transition_def
    by (auto simp: Let_def get_put_member same_place_def split: option.splits if_splits)
qed

section \<open>Joins\<close>

lemma topics_by_name_cong: "topics g = topics h \<Longrightarrow> topics_by_name g = topics_by_name h"
  by (simp add: topics_by_name_def)

lemma refresh_by_topics: "topics g = topics h \<Longrightarrow> topics (snd (refresh_by res g)) = topics (snd (refresh_by res h))"
  by (simp add: refresh_by_def refresh_topics_def Let_def split: option.split)

lemma retarget_if_topics [simp]: "topics (retarget_if b compile g) = topics g"
  by (simp add: retarget_if_def retarget_def Let_def)

lemma enter_tracks:
  assumes "enter_member mid config g = Inr (entered, g')" and "tracks own g" and "bt_get (g_members g) mid = None \<longrightarrow> own mid = {}"
  shows "tracks own g'" "topics g' = topics g" "leaves_others mid g g'"
proof -
  let ?m = "member_default\<lparr>member_epoch := 0, previous_member_epoch := -1\<rparr>"
  consider "g' = g" | "g' = put_member mid ?m g" "bt_get (g_members g) mid = None"
    using assms(1) by (auto simp: enter_member_def split: if_splits)
  then have "tracks own g' \<and> topics g' = topics g \<and> leaves_others mid g g'"
  proof cases
    case 1
    then show ?thesis using assms(2) by (auto intro: leaves_othersI)
  next
    case 2
    have "tracks own (put_member mid ?m g)"
      using assms(2,3) 2(2) group_invD(6) [OF tracksD(1) [OF assms(2)]]
      by (intro tracks_put_new) (auto simp: member_inv_def member_default_def held_by_def targets_def)
    then show ?thesis using 2 put_others by simp
  qed
  then show "tracks own g'" "topics g' = topics g" "leaves_others mid g g'" by blast+
qed

lemma classic_update_keeps:
  assumes "classic_update rq client protocol sub mid g = (resubscribed, g')"
  shows "tracks own g \<Longrightarrow> tracks own g'" "topics g' = topics g" "leaves_others mid g g'"
proof -
  have "\<exists>m'. g' = put_member mid m' g \<and> same_place m m'" if "bt_get (g_members g) mid = Some m" for m
    using assms that unfolding classic_update_def Let_def
    by (clarsimp split del: if_split) (rule exI, rule conjI, rule refl, simp add: same_place_def)
  moreover have "g' = g" if "bt_get (g_members g) mid = None" using assms that by (simp add: classic_update_def)
  ultimately consider "g' = g" | m m' where "g' = put_member mid m' g" "bt_get (g_members g) mid = Some m" "same_place m m'"
    by blast
  then have "(tracks own g \<longrightarrow> tracks own g') \<and> topics g' = topics g \<and> leaves_others mid g g'"
    by cases (auto intro: leaves_othersI tracks_put_same put_others)
  then show "tracks own g \<Longrightarrow> tracks own g'" "topics g' = topics g" "leaves_others mid g g'" by blast+
qed

text \<open>
  A classic client that joins reports, in every subscription it offers, at least what it consumes from of the topics
  that exist, or its subscription has no such field; one the group does not know consumes from nothing.
\<close>

definition honest_subscription :: "(topic_id \<times> int) set \<Rightarrow> (string, topic_id) btree \<Rightarrow> bytes \<Rightarrow> bool" where
  "honest_subscription own names bs =
     (case MemberMetadata_decode bs of
        Inl _ \<Rightarrow> True
      | Inr metadata \<Rightarrow> is_none_or (cs_owned_partitions (mm_subscription metadata)) (\<lambda>ps. own \<subseteq> pairs (by_id ps names)))"

definition honest_join ::
    "(topic_id \<times> int) set \<Rightarrow> member_id \<Rightarrow> classic_join_request \<Rightarrow> resolved option \<Rightarrow> liveness \<Rightarrow> int \<Rightarrow> consumer_group \<Rightarrow> bool" where
  "honest_join own mid rq res l now_ms prior \<longleftrightarrow>
     (bt_get (g_members (snd (sweep_members l now_ms prior))) mid = None \<longrightarrow> own = {}) \<and>
     list_all (\<lambda>(_, bs). honest_subscription own (topics_by_name (snd (refresh_by res prior))) bs) (cj_protocols rq)"

lemma honest_join_mono: "honest_join own mid rq res l now_ms prior \<Longrightarrow> own' \<subseteq> own \<Longrightarrow> honest_join own' mid rq res l now_ms prior"
  unfolding honest_join_def honest_subscription_def list_all_iff
  by (fastforce simp: is_none_or_def split: sum.splits option.splits)

lemma join_as_elim:
  assumes "join_as compile prior rq client res l config now_ms swept mid g = Inr tr"
  obtains protocol metadata entered g1 moved g2 resub g3 response
  where "protocol \<in> set (cj_protocols rq)" "MemberMetadata_decode (snd protocol) = Inr metadata"
    "enter_member mid config g = Inr (entered, g1)" "refresh_by res g1 = (moved, g2)"
    "classic_update rq client protocol (mm_subscription metadata) mid g2 = (resub, g3)"
    "tr = settled_transition prior (reconcile_member mid (owned_of_subscription (mm_subscription metadata) g3) now_ms
       (retarget_if (swept \<or> entered \<or> moved \<or> resub) compile g3)) mid l now_ms (JoinBody response)"
proof -
  obtain protocol metadata where p: "agreed_protocol g mid (cj_protocols rq) = Some protocol"
      "MemberMetadata_decode (snd protocol) = Inr metadata"
    using assms by (auto simp: join_as_def split: option.splits sum.splits)
  have mem: "protocol \<in> set (cj_protocols rq)"
    using p(1) by (auto simp: agreed_protocol_def find_Some_iff in_set_conv_nth)
  obtain entered g1 where e: "enter_member mid config g = Inr (entered, g1)"
    using assms p by (cases "enter_member mid config g") (auto simp: join_as_def)
  obtain moved g2 where m: "refresh_by res g1 = (moved, g2)" by (cases "refresh_by res g1")
  obtain resub g3 where u: "classic_update rq client protocol (mm_subscription metadata) mid g2 = (resub, g3)"
    by (cases "classic_update rq client protocol (mm_subscription metadata) mid g2")
  have own: "owned_of_subscription (mm_subscription metadata) (retarget_if b compile g3) = owned_of_subscription (mm_subscription metadata) g3" for b
    using topics_by_name_cong [of "retarget_if b compile g3" g3] by (simp add: owned_of_subscription_def)
  show thesis
    using assms p e m u unfolding join_as_def
    by (simp add: own Let_def split: option.splits) (rule that [OF mem p(2) e m u], rule sym, assumption)
qed

lemma join_as_keeps:
  assumes join: "join_as compile prior rq client res l config now_ms swept mid g = Inr tr"
    and sw: "sweep_members l now_ms prior = (swept, g)" and inv: "tracks owns prior" and res: "wf_resolved res"
  shows "honest_join (owns mid) mid rq res l now_ms prior \<Longrightarrow> tracks owns (tr_group tr)"
    "leaves_others mid prior (tr_group tr)" "\<not> tr_changed tr \<Longrightarrow> tr_group tr = prior" "tr_member_id tr = mid"
proof -
  obtain protocol metadata entered g1 moved g2 resub g3 response where
      s: "protocol \<in> set (cj_protocols rq)" "MemberMetadata_decode (snd protocol) = Inr metadata"
      "enter_member mid config g = Inr (entered, g1)" "refresh_by res g1 = (moved, g2)"
      "classic_update rq client protocol (mm_subscription metadata) mid g2 = (resub, g3)"
      "tr = settled_transition prior (reconcile_member mid (owned_of_subscription (mm_subscription metadata) g3) now_ms
         (retarget_if (swept \<or> entered \<or> moved \<or> resub) compile g3)) mid l now_ms (JoinBody response)"
    by (rule join_as_elim [OF join])
  note st = settled_transition_keeps [OF s(6)]
  show "\<not> tr_changed tr \<Longrightarrow> tr_group tr = prior" "tr_member_id tr = mid" by (rule st(3), assumption) (rule st(5))
  have t0: "tracks owns g" using sweep_tracks [OF inv, of l now_ms] sw by simp
  have t0': "tracks (owns(mid := {})) g" using t0 by (auto simp: tracks_def)
  have o1: "leaves_others mid g g1" by (rule enter_tracks(3) [OF s(3) t0']) simp
  show "leaves_others mid prior (tr_group tr)"
    by (rule leaves_others_trans [OF sweep_others [OF sw group_invD(1) [OF tracksD(1) [OF inv]]]],
        rule leaves_others_trans [OF o1], rule leaves_others_trans [OF refresh_others [OF s(4)]],
        rule leaves_others_trans [OF classic_update_keeps(3) [OF s(5)]], rule leaves_others_trans [OF retarget_others],
        rule leaves_others_trans [OF reconcile_others], rule st(2))
  assume hon: "honest_join (owns mid) mid rq res l now_ms prior"
  have new: "bt_get (g_members g) mid = None \<longrightarrow> owns mid = {}" using hon sw by (simp add: honest_join_def)
  note e = enter_tracks [OF s(3) t0 new]
  have t3: "tracks owns g3" by (rule classic_update_keeps(1) [OF s(5) refresh_by_tracks [OF e(1) res s(4)]])
  have "topics g = topics prior" using sw by (auto simp: sweep_members_def Let_def)
  then have "topics g3 = topics (snd (refresh_by res prior))"
    using classic_update_keeps(2) [OF s(5)] refresh_by_topics [of g1 prior res] e(2) s(4) by simp
  then have "\<forall>ps. owned_of_subscription (mm_subscription metadata) g3 = Some ps \<longrightarrow> owns mid \<subseteq> pairs ps"
    using hon s(1,2) topics_by_name_cong [of g3 "snd (refresh_by res prior)"]
    by (fastforce simp: honest_join_def honest_subscription_def list_all_iff owned_of_subscription_def is_none_or_def)
  then have "tracks owns (reconcile_member mid (owned_of_subscription (mm_subscription metadata) g3) now_ms
      (retarget_if (swept \<or> entered \<or> moved \<or> resub) compile g3))"
    by (intro reconcile_tracks retarget_tracks t3)
  then show "tracks owns (tr_group tr)" by (rule st(1))
qed

lemma classic_join_keeps:
  assumes join: "classic_join compile new_id held rq client res l config now_ms = Inr tr"
    and prior: "prior = unwrap_or (group_default\<lparr>created_ms := now_ms\<rparr>) held"
    and inv: "tracks owns prior" and res: "wf_resolved res"
  shows "honest_join (owns (tr_member_id tr)) (tr_member_id tr) rq res l now_ms prior \<Longrightarrow> tracks owns (tr_group tr)"
    "leaves_others (tr_member_id tr) prior (tr_group tr)" "\<not> tr_changed tr \<Longrightarrow> tr_group tr = prior"
proof -
  obtain swept g where sw: "sweep_members l now_ms prior = (swept, g)" by (cases "sweep_members l now_ms prior")
  consider "tr = join_required new_id client prior"
    | mid where "join_as compile prior rq client res l config now_ms swept mid g = Inr tr"
    using join sw unfolding classic_join_def prior [symmetric]
    by (auto simp: Let_def result_simps split: if_splits option.splits)
  then have "(honest_join (owns (tr_member_id tr)) (tr_member_id tr) rq res l now_ms prior \<longrightarrow> tracks owns (tr_group tr)) \<and>
    leaves_others (tr_member_id tr) prior (tr_group tr) \<and> (\<not> tr_changed tr \<longrightarrow> tr_group tr = prior)"
  proof cases
    case 1
    then show ?thesis using inv by (auto simp: join_required_def intro: leaves_othersI)
  next
    case (2 mid)
    then show ?thesis using join_as_keeps [OF 2 sw inv res] by simp
  qed
  then show "honest_join (owns (tr_member_id tr)) (tr_member_id tr) rq res l now_ms prior \<Longrightarrow> tracks owns (tr_group tr)"
    "leaves_others (tr_member_id tr) prior (tr_group tr)" "\<not> tr_changed tr \<Longrightarrow> tr_group tr = prior" by blast+
qed

section \<open>Sync, heartbeat, leave\<close>

lemma sync_elim:
  assumes "classic_sync compile held mid inst generation_id protocol l now_ms = Inr tr"
  obtains prior swept g m response
  where "held = Some prior" "sweep_members l now_ms prior = (swept, g)"
    "named (retarget_if swept compile g) mid inst = Inr m"
    "tr = settled_transition prior (retarget_if swept compile g) mid l now_ms (SyncBody response)"
proof -
  obtain prior where p: "held = Some prior" using assms by (auto simp: classic_sync_def split: option.splits)
  obtain swept g where sw: "sweep_members l now_ms prior = (swept, g)" by (cases "sweep_members l now_ms prior")
  show thesis
    using assms that [OF p sw] p sw
    by (auto simp: classic_sync_def Let_def result_simps validated_def split: option.splits if_splits)
qed

lemma classic_heartbeat_elim:
  assumes "classic_heartbeat compile held mid inst generation_id res l now_ms = Inr tr"
  obtains prior swept g moved g' response
  where "held = Some prior" "sweep_members l now_ms prior = (swept, g)" "refresh_by res g = (moved, g')"
    "tr = settled_transition prior (retarget_if (swept \<or> moved) compile g') mid l now_ms (HeartbeatBody response)"
proof -
  obtain prior where p: "held = Some prior" using assms by (auto simp: classic_heartbeat_def split: option.splits)
  obtain swept g where sw: "sweep_members l now_ms prior = (swept, g)" by (cases "sweep_members l now_ms prior")
  obtain moved g' where rf: "refresh_by res g = (moved, g')" by (cases "refresh_by res g")
  show thesis
    using assms that [OF p sw rf] p sw rf by (auto simp: classic_heartbeat_def Let_def result_simps split: option.splits)
qed

lemma classic_sync_keeps:
  assumes sync: "classic_sync compile held mid inst generation_id protocol l now_ms = Inr tr"
    and inv: "tracks owns prior" and held: "held = Some prior"
  shows "tracks owns (tr_group tr)" "leaves_others mid prior (tr_group tr)" "\<not> tr_changed tr \<Longrightarrow> tr_group tr = prior"
proof -
  obtain swept g m response where s: "sweep_members l now_ms prior = (swept, g)"
      "tr = settled_transition prior (retarget_if swept compile g) mid l now_ms (SyncBody response)"
    using sync_elim [OF sync] held by (metis option.inject)
  note st = settled_transition_keeps [OF s(2)]
  have "tracks owns g" using sweep_tracks [OF inv, of l now_ms] s(1) by simp
  then show "tracks owns (tr_group tr)" by (intro st(1) retarget_tracks)
  show "leaves_others mid prior (tr_group tr)"
    by (rule leaves_others_trans [OF sweep_others [OF s(1) group_invD(1) [OF tracksD(1) [OF inv]]]],
        rule leaves_others_trans [OF retarget_others], rule st(2))
  show "\<not> tr_changed tr \<Longrightarrow> tr_group tr = prior" by (rule st(3))
qed

lemma classic_heartbeat_keeps:
  assumes beat: "classic_heartbeat compile held mid inst generation_id res l now_ms = Inr tr"
    and inv: "tracks owns prior" and held: "held = Some prior" and res: "wf_resolved res"
  shows "tracks owns (tr_group tr)" "leaves_others mid prior (tr_group tr)"
proof -
  obtain swept g moved g' response where s: "sweep_members l now_ms prior = (swept, g)" "refresh_by res g = (moved, g')"
      "tr = settled_transition prior (retarget_if (swept \<or> moved) compile g') mid l now_ms (HeartbeatBody response)"
    using classic_heartbeat_elim [OF beat] held by (metis option.inject)
  note st = settled_transition_keeps [OF s(3)]
  have "tracks owns g" using sweep_tracks [OF inv, of l now_ms] s(1) by simp
  then have "tracks owns g'" by (rule refresh_by_tracks [OF _ res s(2)])
  then show "tracks owns (tr_group tr)" by (intro st(1) retarget_tracks)
  show "leaves_others mid prior (tr_group tr)"
    by (rule leaves_others_trans [OF sweep_others [OF s(1) group_invD(1) [OF tracksD(1) [OF inv]]]],
        rule leaves_others_trans [OF refresh_others [OF s(2)]], rule leaves_others_trans [OF retarget_others], rule st(2))
qed

lemma depart_keeps:
  assumes "tracks owns (fst (snd st))"
  shows "tracks owns (fst (snd (depart who st)))" "leaves_others c (fst (snd st)) (fst (snd (depart who st)))"
proof -
  have "tracks owns (g\<lparr>g_members := bt_remove x (g_members g)\<rparr>)" "leaves_others c g (g\<lparr>g_members := bt_remove x (g_members g)\<rparr>)"
    if "tracks owns g" for g x
    using that group_invD(1) [OF tracksD(1) [OF that]]
    by (auto intro!: tracks_sub leaves_othersI simp: bt_inv_remove split: if_splits)
  then show "tracks owns (fst (snd (depart who st)))" "leaves_others c (fst (snd st)) (fst (snd (depart who st)))"
    using assms unfolding depart_def by (auto split: prod.split sum.split intro: leaves_othersI)
qed

lemma departs_keep:
  assumes "tracks owns (fst (snd st))"
  shows "tracks owns (fst (snd (fold depart ws st))) \<and> leaves_others c (fst (snd st)) (fst (snd (fold depart ws st)))"
  using assms
proof (induction ws arbitrary: st)
  case Nil
  then show ?case by (auto intro: leaves_othersI)
next
  case (Cons w ws)
  show ?case using Cons.IH [OF depart_keeps(1) [OF Cons.prems]] leaves_others_trans [OF depart_keeps(2) [OF Cons.prems, where who = w]]
    by simp
qed

lemma classic_leave_keeps:
  assumes leave: "classic_leave compile held departing l now_ms = Inr tr" and inv: "tracks owns prior" and held: "held = Some prior"
  shows "tracks owns (tr_group tr)" "leaves_others c prior (tr_group tr)"
proof -
  obtain swept g where sw: "sweep_members l now_ms prior = (swept, g)" by (cases "sweep_members l now_ms prior")
  obtain left g1 responses where d: "fold depart departing (swept, g, []) = (left, g1, responses)" by (metis prod_cases3)
  have tr: "tr_group tr = retarget_if left compile g1"
    using leave held sw d by (auto simp: classic_leave_def Let_def)
  have "tracks owns g" using sweep_tracks [OF inv, of l now_ms] sw by simp
  then have k: "tracks owns g1" "leaves_others c g g1" using departs_keep [of owns "(swept, g, [])" departing c] d by simp_all
  show "tracks owns (tr_group tr)" unfolding tr by (rule retarget_tracks [OF k(1)])
  show "leaves_others c prior (tr_group tr)" unfolding tr
    by (rule leaves_others_trans [OF sweep_others [OF sw group_invD(1) [OF tracksD(1) [OF inv]]]],
        rule leaves_others_trans [OF k(2)], rule retarget_others)
qed

section \<open>The two protocols on one group\<close>

definition join_decides :: "compiler \<Rightarrow> decider" where
  "join_decides compile own c held d \<longleftrightarrow>
     (\<exists>new_id rq client res l config now_ms tr. classic_join compile new_id held rq client res l config now_ms = Inr tr \<and>
        wf_resolved res \<and> c = tr_member_id tr \<and>
        honest_join own c rq res l now_ms (unwrap_or (group_default\<lparr>created_ms := now_ms\<rparr>) held) \<and>
        d = \<lparr> d_group = tr_group tr, d_changed = tr_changed tr, d_told = {} \<rparr>)"

text \<open>A sync tells the member the assignment the group holds for it.\<close>

definition sync_decides :: "compiler \<Rightarrow> decider" where
  "sync_decides compile own c held d \<longleftrightarrow>
     (\<exists>inst generation_id protocol l now_ms tr. classic_sync compile held c inst generation_id protocol l now_ms = Inr tr \<and>
        d = \<lparr> d_group = tr_group tr, d_changed = tr_changed tr,
              d_told = (case bt_get (g_members (tr_group tr)) c of None \<Rightarrow> {} | Some m \<Rightarrow> pairs (assigned m)) \<rparr>)"

definition classic_heartbeat_decides :: "compiler \<Rightarrow> decider" where
  "classic_heartbeat_decides compile own c held d \<longleftrightarrow>
     (\<exists>inst generation_id res l now_ms tr. classic_heartbeat compile held c inst generation_id res l now_ms = Inr tr \<and>
        wf_resolved res \<and> d = \<lparr> d_group = tr_group tr, d_changed = tr_changed tr, d_told = {} \<rparr>)"

definition leave_decides :: "compiler \<Rightarrow> decider" where
  "leave_decides compile own c held d \<longleftrightarrow>
     (\<exists>departing l now_ms tr. classic_leave compile held departing l now_ms = Inr tr \<and>
        d = \<lparr> d_group = tr_group tr, d_changed = tr_changed tr, d_told = {} \<rparr>)"

definition group_decides :: "compiler \<Rightarrow> decider" where
  "group_decides compile own c held d \<longleftrightarrow>
     heartbeat_decides compile own c held d \<or> join_decides compile own c held d \<or> sync_decides compile own c held d \<or>
     classic_heartbeat_decides compile own c held d \<or> leave_decides compile own c held d"

text \<open>A handler that never makes up a group, and tells nothing but what the document it leaves holds.\<close>

lemma leaves_others_decides:
  assumes "leaves_others c prior (d_group d)" and "prior = unwrap_or (group_default\<lparr>created_ms := now_ms\<rparr>) held"
    and "e \<noteq> c" and "bt_get (g_members (d_group d)) e = Some m"
  shows "\<exists>g m0. held = Some g \<and> bt_get (g_members g) e = Some m0 \<and> held_by m = held_by m0"
  using assms by (cases held) (auto simp: leaves_others_def group_default_def)

interpretation joins: group_service "join_decides compile" for compile
proof
  fix own own' :: "(topic_id \<times> int) set" and c held d
  assume "join_decides compile own c held d" "own' \<subseteq> own"
  then show "join_decides compile own' c held d" unfolding join_decides_def using honest_join_mono by blast
next
  fix owns :: "member_id \<Rightarrow> (topic_id \<times> int) set" and c held d
  assume "join_decides compile (owns c) c held d" and s: "sound_doc owns held"
  then obtain new_id rq client res l config now_ms tr where h: "classic_join compile new_id held rq client res l config now_ms = Inr tr"
      "wf_resolved res" "c = tr_member_id tr" "honest_join (owns c) c rq res l now_ms (unwrap_or (group_default\<lparr>created_ms := now_ms\<rparr>) held)"
      "d = \<lparr> d_group = tr_group tr, d_changed = tr_changed tr, d_told = {} \<rparr>"
    unfolding join_decides_def by blast
  show "sound_doc owns (Some (d_group d))"
    using classic_join_keeps(1) [OF h(1) refl prior_sound [OF s refl] h(2)] h(3,4) by (simp add: sound_doc_def h(5))
  show "d_told d \<subseteq> held_by m" for m by (simp add: h(5))
next
  fix own :: "(topic_id \<times> int) set" and c held d
  assume "join_decides compile own c held d"
  then obtain new_id rq client res l config now_ms tr where h: "classic_join compile new_id held rq client res l config now_ms = Inr tr"
      "wf_resolved res" "c = tr_member_id tr" "d = \<lparr> d_group = tr_group tr, d_changed = tr_changed tr, d_told = {} \<rparr>"
    unfolding join_decides_def by blast
  show "\<exists>g m0. held = Some g \<and> bt_get (g_members g) e = Some m0 \<and> held_by m = held_by m0"
    if s: "sound_doc (\<lambda>_. {}) held" and e: "e \<noteq> c" "bt_get (g_members (d_group d)) e = Some m" for e m
    by (rule leaves_others_decides [OF _ refl e])
      (use classic_join_keeps(2) [OF h(1) refl prior_sound [OF s refl] h(2)] in \<open>simp add: h(3,4)\<close>)
  show "d_told d = {} \<or> held = Some (d_group d)" by (simp add: h(4))
qed

interpretation syncs: group_service "sync_decides compile" for compile
proof
  fix own own' :: "(topic_id \<times> int) set" and c held d
  assume "sync_decides compile own c held d" "own' \<subseteq> own"
  then show "sync_decides compile own' c held d" by (simp add: sync_decides_def)
next
  fix owns :: "member_id \<Rightarrow> (topic_id \<times> int) set" and c held d
  assume "sync_decides compile (owns c) c held d" and s: "sound_doc owns held"
  then obtain inst generation_id protocol l now_ms tr where h: "classic_sync compile held c inst generation_id protocol l now_ms = Inr tr"
      "d = \<lparr> d_group = tr_group tr, d_changed = tr_changed tr,
             d_told = (case bt_get (g_members (tr_group tr)) c of None \<Rightarrow> {} | Some m \<Rightarrow> pairs (assigned m)) \<rparr>"
    unfolding sync_decides_def by blast
  obtain prior where p: "held = Some prior" by (rule sync_elim [OF h(1)])
  show "sound_doc owns (Some (d_group d))"
    using classic_sync_keeps(1) [OF h(1) _ p] s p by (simp add: sound_doc_def h(2))
  show "d_told d \<subseteq> held_by m" if "bt_get (g_members (d_group d)) c = Some m" for m using that by (auto simp: h(2) held_by_def)
next
  fix own :: "(topic_id \<times> int) set" and c held d
  assume "sync_decides compile own c held d"
  then obtain inst generation_id protocol l now_ms tr where h: "classic_sync compile held c inst generation_id protocol l now_ms = Inr tr"
      "d = \<lparr> d_group = tr_group tr, d_changed = tr_changed tr,
             d_told = (case bt_get (g_members (tr_group tr)) c of None \<Rightarrow> {} | Some m \<Rightarrow> pairs (assigned m)) \<rparr>"
    unfolding sync_decides_def by blast
  obtain prior where p: "held = Some prior" by (rule sync_elim [OF h(1)])
  show "\<exists>g m0. held = Some g \<and> bt_get (g_members g) e = Some m0 \<and> held_by m = held_by m0"
    if s: "sound_doc (\<lambda>_. {}) held" and e: "e \<noteq> c" "bt_get (g_members (d_group d)) e = Some m" for e m
    by (rule leaves_others_decides [OF _ _ e, of prior 0])
      (use classic_sync_keeps(2) [OF h(1) _ p, of "\<lambda>_. {}"] s in \<open>simp_all add: sound_doc_def h(2) p\<close>)
  show "d_told d = {} \<or> held = Some (d_group d)" if "\<not> d_changed d"
  proof -
    obtain swept g m response where t: "tr = settled_transition prior (retarget_if swept compile g) c l now_ms (SyncBody response)"
      using sync_elim [OF h(1)] p by (metis option.inject)
    have "tr_group tr = prior" using settled_transition_keeps(3) [OF t] that by (simp add: h(2))
    then show ?thesis by (simp add: h(2) p)
  qed
qed

lemma beat_prior: "classic_heartbeat compile held c inst generation_id res l now_ms = Inr tr \<Longrightarrow> \<exists>prior. held = Some prior"
  and leave_prior: "classic_leave compile held departing l now_ms = Inr tr \<Longrightarrow> \<exists>prior. held = Some prior"
  by (auto simp: classic_heartbeat_def classic_leave_def split: option.splits)

interpretation classic_heartbeats: group_service "classic_heartbeat_decides compile" for compile
proof
  fix own own' :: "(topic_id \<times> int) set" and c held d
  assume "classic_heartbeat_decides compile own c held d" "own' \<subseteq> own"
  then show "classic_heartbeat_decides compile own' c held d" by (simp add: classic_heartbeat_decides_def)
next
  fix owns :: "member_id \<Rightarrow> (topic_id \<times> int) set" and c held d
  assume "classic_heartbeat_decides compile (owns c) c held d" and s: "sound_doc owns held"
  then obtain inst generation_id res l now_ms tr where h: "classic_heartbeat compile held c inst generation_id res l now_ms = Inr tr"
      "wf_resolved res" "d_group d = tr_group tr"
    unfolding classic_heartbeat_decides_def by auto
  obtain prior where p: "held = Some prior" using beat_prior [OF h(1)] by blast
  show "sound_doc owns (Some (d_group d))"
    using classic_heartbeat_keeps(1) [OF h(1) _ p h(2)] s by (simp add: sound_doc_def h(3) p)
next
  fix own :: "(topic_id \<times> int) set" and c held d
  assume "classic_heartbeat_decides compile own c held d"
  then obtain inst generation_id res l now_ms tr where h: "classic_heartbeat compile held c inst generation_id res l now_ms = Inr tr"
      "wf_resolved res" "d_group d = tr_group tr"
    unfolding classic_heartbeat_decides_def by auto
  obtain prior where p: "held = Some prior" using beat_prior [OF h(1)] by blast
  show "\<exists>g m0. held = Some g \<and> bt_get (g_members g) e = Some m0 \<and> held_by m = held_by m0"
    if s: "sound_doc (\<lambda>_. {}) held" and e: "e \<noteq> c" "bt_get (g_members (d_group d)) e = Some m" for e m
    by (rule leaves_others_decides [OF _ _ e, of prior 0])
      (use classic_heartbeat_keeps(2) [OF h(1) _ p h(2), of "\<lambda>_. {}"] s in \<open>simp_all add: sound_doc_def h(3) p\<close>)
qed (auto simp: classic_heartbeat_decides_def)

interpretation leaves: group_service "leave_decides compile" for compile
proof
  fix own own' :: "(topic_id \<times> int) set" and c held d
  assume "leave_decides compile own c held d" "own' \<subseteq> own"
  then show "leave_decides compile own' c held d" by (simp add: leave_decides_def)
next
  fix owns :: "member_id \<Rightarrow> (topic_id \<times> int) set" and c held d
  assume "leave_decides compile (owns c) c held d" and s: "sound_doc owns held"
  then obtain departing l now_ms tr where h: "classic_leave compile held departing l now_ms = Inr tr" "d_group d = tr_group tr"
    unfolding leave_decides_def by auto
  obtain prior where p: "held = Some prior" using leave_prior [OF h(1)] by blast
  show "sound_doc owns (Some (d_group d))"
    using classic_leave_keeps(1) [OF h(1) _ p] s by (simp add: sound_doc_def h(2) p)
next
  fix own :: "(topic_id \<times> int) set" and c held d
  assume "leave_decides compile own c held d"
  then obtain departing l now_ms tr where h: "classic_leave compile held departing l now_ms = Inr tr" "d_group d = tr_group tr"
    unfolding leave_decides_def by auto
  obtain prior where p: "held = Some prior" using leave_prior [OF h(1)] by blast
  show "\<exists>g m0. held = Some g \<and> bt_get (g_members g) e = Some m0 \<and> held_by m = held_by m0"
    if s: "sound_doc (\<lambda>_. {}) held" and e: "e \<noteq> c" "bt_get (g_members (d_group d)) e = Some m" for e m
    by (rule leaves_others_decides [OF _ _ e, of prior 0])
      (use classic_leave_keeps(2) [OF h(1) _ p, of "\<lambda>_. {}"] s in \<open>simp_all add: sound_doc_def h(2) p\<close>)
qed (auto simp: leave_decides_def)

interpretation services: group_service "group_decides compile" for compile
proof
  fix own own' :: "(topic_id \<times> int) set" and c held d
  assume "group_decides compile own c held d" "own' \<subseteq> own"
  then show "group_decides compile own' c held d"
    unfolding group_decides_def
    using heartbeats.decides_mono [of compile own c held d own'] joins.decides_mono [of compile own c held d own']
      syncs.decides_mono [of compile own c held d own'] classic_heartbeats.decides_mono [of compile own c held d own']
      leaves.decides_mono [of compile own c held d own'] by argo
next
  fix owns :: "member_id \<Rightarrow> (topic_id \<times> int) set" and c held d
  assume "group_decides compile (owns c) c held d" and "sound_doc owns held"
  then show "sound_doc owns (Some (d_group d))"
    unfolding group_decides_def
    using heartbeats.decides_keeps [of compile owns c held d] joins.decides_keeps [of compile owns c held d]
      syncs.decides_keeps [of compile owns c held d] classic_heartbeats.decides_keeps [of compile owns c held d]
      leaves.decides_keeps [of compile owns c held d] by argo
next
  fix owns :: "member_id \<Rightarrow> (topic_id \<times> int) set" and c held d m
  assume "group_decides compile (owns c) c held d" and "sound_doc owns held" "bt_get (g_members (d_group d)) c = Some m"
  then show "d_told d \<subseteq> held_by m"
    unfolding group_decides_def
    using heartbeats.decides_told [of compile owns c held d m] joins.decides_told [of compile owns c held d m]
      syncs.decides_told [of compile owns c held d m] classic_heartbeats.decides_told [of compile owns c held d m]
      leaves.decides_told [of compile owns c held d m] by argo
next
  fix own :: "(topic_id \<times> int) set" and c held d e m
  assume "group_decides compile own c held d" and "sound_doc (\<lambda>_. {}) held" "e \<noteq> c" "bt_get (g_members (d_group d)) e = Some m"
  then show "\<exists>g m0. held = Some g \<and> bt_get (g_members g) e = Some m0 \<and> held_by m = held_by m0"
    unfolding group_decides_def
    using heartbeats.decides_others [of compile own c held d e m] joins.decides_others [of compile own c held d e m]
      syncs.decides_others [of compile own c held d e m] classic_heartbeats.decides_others [of compile own c held d e m]
      leaves.decides_others [of compile own c held d e m] by argo
next
  fix own :: "(topic_id \<times> int) set" and c held d
  assume "group_decides compile own c held d" and "\<not> d_changed d"
  then show "d_told d = {} \<or> held = Some (d_group d)"
    unfolding group_decides_def
    using heartbeats.decides_unchanged [of compile own c held d] joins.decides_unchanged [of compile own c held d]
      syncs.decides_unchanged [of compile own c held d] classic_heartbeats.decides_unchanged [of compile own c held d]
      leaves.decides_unchanged [of compile own c held d] by argo
qed

section \<open>The group a conversion starts from\<close>

lemma pairs_by_id: "pairs (by_id ps names) =
    {(t, p). \<exists>tp \<in> set ps. bt_get names (tp_topic tp) = Some t \<and> p \<in> set (tp_partitions tp)}"
  unfolding by_id_def pairs_grouped by (auto split: option.splits)

text \<open>What an entry of the generation converts to.\<close>

definition converts_to ::
    "generation_doc \<Rightarrow> (member_id, member_doc) btree \<Rightarrow> assignment_doc option \<Rightarrow> (string, topic_id) btree \<Rightarrow> int \<Rightarrow> member_id \<Rightarrow> member_ref
      \<Rightarrow> consumer_member \<Rightarrow> bool" where
  "converts_to generation members assignment names now_ms c ref m \<longleftrightarrow>
     (\<exists>member metadata ps. bt_get members c = Some member \<and> \<not> member_doc_is_expired now_ms member \<and>
        MemberMetadata_decode (jr_metadata (md_join_response member)) = Inr metadata \<and>
        classic_assigned assignment names c = Inr ps \<and> m = classic_converted generation ref member metadata ps)"

lemma convert_member_cases:
  assumes "convert_member generation members assignment names now_ms (c, ref) ms = Inr ms'"
  shows "(ms' = ms \<and> \<not> is_some_and (bt_get members c) (\<lambda>member. \<not> member_doc_is_expired now_ms member)) \<or>
    (\<exists>m. ms' = bt_insert c m ms \<and> converts_to generation members assignment names now_ms c ref m)"
  using assms unfolding convert_member_def converts_to_def
  by (auto simp: result_simps is_some_and_def split: option.splits if_splits sum.splits)

lemma convert_members_get:
  assumes "convert_members generation members assignment names now_ms entries ms = Inr ms'" and "bt_inv ms" and "distinct (map fst entries)"
  shows "bt_inv ms' \<and> (\<forall>c. case map_of entries c of
      None \<Rightarrow> bt_get ms' c = bt_get ms c
    | Some ref \<Rightarrow>
        if is_some_and (bt_get members c) (\<lambda>member. \<not> member_doc_is_expired now_ms member)
        then \<exists>m. bt_get ms' c = Some m \<and> converts_to generation members assignment names now_ms c ref m
        else bt_get ms' c = bt_get ms c)"
  using assms
proof (induction entries arbitrary: ms)
  case (Cons entry entries)
  obtain c ref where entry: "entry = (c, ref)" by (cases entry)
  obtain ms1 where s: "convert_member generation members assignment names now_ms (c, ref) ms = Inr ms1"
      "convert_members generation members assignment names now_ms entries ms1 = Inr ms'"
    using Cons.prems(1) by (auto simp: entry result_simps)
  have c: "map_of entries c = None" using Cons.prems(3) by (simp add: entry map_of_eq_None_iff)
  have live: "is_some_and (bt_get members c) (\<lambda>member. \<not> member_doc_is_expired now_ms member)"
    if "converts_to generation members assignment names now_ms c ref m" for m
    using that by (auto simp: converts_to_def is_some_and_def)
  have inv: "bt_inv ms1" using convert_member_cases [OF s(1)] Cons.prems(2) by (auto simp: bt_inv_insert)
  have distinct: "distinct (map fst entries)" using Cons.prems(3) by simp
  note IH = Cons.IH [OF s(2) inv distinct]
  have other: "bt_get ms1 e = bt_get ms e" if "e \<noteq> c" for e
    using convert_member_cases [OF s(1)] that by (auto simp: bt_get_insert)
  have here: "bt_get ms' c = bt_get ms1 c" using IH [THEN conjunct2, THEN spec, of c] c by simp
  show ?case
  proof (intro conjI allI)
    show "bt_inv ms'" using IH by blast
    fix e
    show "case map_of (entry # entries) e of
        None \<Rightarrow> bt_get ms' e = bt_get ms e
      | Some ref \<Rightarrow>
          if is_some_and (bt_get members e) (\<lambda>member. \<not> member_doc_is_expired now_ms member)
          then \<exists>m. bt_get ms' e = Some m \<and> converts_to generation members assignment names now_ms e ref m
          else bt_get ms' e = bt_get ms e"
    proof (cases "e = c")
      case True
      then show ?thesis using convert_member_cases [OF s(1)] here live by (auto simp: entry bt_get_insert)
    next
      case False
      then show ?thesis using IH [THEN conjunct2, THEN spec, of e] other [OF False]
        by (cases "map_of entries e") (simp_all add: entry)
    qed
  qed
qed simp

definition assignment_of :: "generation_doc \<Rightarrow> assignment_doc option \<Rightarrow> assignment_doc option" where
  "assignment_of generation assignment =
     (case assignment of None \<Rightarrow> None | Some a \<Rightarrow> if ad_generation_id a = gd_generation_id generation then Some a else None)"

lemma from_classic_elim:
  assumes "from_classic generation members assignment res held now_ms = Inr g"
  obtains ms where
    "convert_members generation members (assignment_of generation assignment) (topics_by_name g) now_ms (gd_members generation) [] = Inr ms"
    "g_members g = ms" "topics g = resolved_topics res" "group_epoch g = assignment_epoch g"
    "assignment_epoch g = max (gd_generation_id generation) (case held of None \<Rightarrow> 0 | Some g \<Rightarrow> group_epoch g)"
    "classic_generation g = Some (gd_generation_id generation)"
proof -
  let ?g = "group_default
      \<lparr>g_seq := (case held of None \<Rightarrow> 0 | Some g \<Rightarrow> g_seq g),
       group_epoch := max (gd_generation_id generation) (case held of None \<Rightarrow> 0 | Some g \<Rightarrow> group_epoch g),
       assignment_epoch := max (gd_generation_id generation) (case held of None \<Rightarrow> 0 | Some g \<Rightarrow> group_epoch g),
       created_ms := (case held of None \<Rightarrow> now_ms | Some g \<Rightarrow> created_ms g),
       classic_generation := Some (gd_generation_id generation), topics := resolved_topics res\<rparr>"
  obtain ms where ms: "convert_members generation members (assignment_of generation assignment) (topics_by_name ?g) now_ms
      (gd_members generation) [] = Inr ms" "g = ?g\<lparr>g_members := ms\<rparr>"
    using assms unfolding from_classic_def assignment_of_def Let_def by (auto simp: rbind_Inr_iff)
  have "topics_by_name g = topics_by_name ?g" by (rule topics_by_name_cong) (simp add: ms(2))
  then show thesis using that [of ms] ms by simp
qed

lemma classic_converted_fields [simp]:
  "member_epoch (classic_converted generation ref member metadata ps) = gd_generation_id generation"
  "member_state (classic_converted generation ref member metadata ps) = Stable"
  "assigned (classic_converted generation ref member metadata ps) = ps"
  "target (classic_converted generation ref member metadata ps) = ps"
  "pending_revocation (classic_converted generation ref member metadata ps) = []"
  by (simp_all add: classic_converted_def Let_def member_default_def)

text \<open>The members of a converted group, and what the assignment gave each.\<close>

definition classically_assigned :: "assignment_doc option \<Rightarrow> (string, topic_id) btree \<Rightarrow> member_id \<Rightarrow> (topic_id \<times> int) set" where
  "classically_assigned assignment names c =
     {(t, p). \<exists>a bs ma tp. assignment = Some a \<and> bt_get (ad_assignments a) c = Some bs \<and> MemberAssignment_decode bs = Inr ma \<and>
        tp \<in> set (ma_assigned_partitions ma) \<and> bt_get names (tp_topic tp) = Some t \<and> p \<in> set (tp_partitions tp)}"

lemma empty_assignment: "MemberAssignment_decode [] = Inl ReadPastEnd"
  by code_simp

lemma classic_assigned_pairs:
  assumes "classic_assigned assignment names c = Inr ps"
  shows "pairs ps = classically_assigned assignment names c"
proof (cases "Option.bind assignment (\<lambda>a. bt_get (ad_assignments a) c)")
  case None
  then show ?thesis using assms by (auto simp: classic_assigned_def classically_assigned_def)
next
  case (Some bs)
  then obtain a where a: "assignment = Some a" "bt_get (ad_assignments a) c = Some bs" by (auto simp: bind_eq_Some_conv)
  show ?thesis
  proof (cases "bs = []")
    case True
    then show ?thesis using assms a empty_assignment by (auto simp: classic_assigned_def classically_assigned_def)
  next
    case False
    then obtain ma where ma: "MemberAssignment_decode bs = Inr ma" "ps = by_id (ma_assigned_partitions ma) names"
      using assms a by (auto simp: classic_assigned_def split: sum.splits if_splits)
    then show ?thesis using a by (auto simp: pairs_by_id classically_assigned_def)
  qed
qed

lemma conversion_members:
  assumes conv: "from_classic generation members assignment res held now_ms = Inr g" and inv: "bt_inv (gd_members generation)"
  shows "bt_inv (g_members g)"
    "bt_get (g_members g) c \<noteq> None \<longleftrightarrow> bt_get (gd_members generation) c \<noteq> None \<and>
       is_some_and (bt_get members c) (\<lambda>member. \<not> member_doc_is_expired now_ms member)"
    "bt_get (g_members g) c = Some m \<Longrightarrow> member_epoch m = gd_generation_id generation \<and> member_state m = Stable \<and>
       pending_revocation m = [] \<and> target m = assigned m \<and>
       pairs (assigned m) = classically_assigned (assignment_of generation assignment) (topics_by_name g) c"
proof -
  obtain ms where ms: "convert_members generation members (assignment_of generation assignment) (topics_by_name g) now_ms
      (gd_members generation) [] = Inr ms" "g_members g = ms"
    by (rule from_classic_elim [OF conv])
  have dist: "distinct (map fst (gd_members generation))" using inv by (simp add: bt_inv_def strict_sorted_iff)
  have get: "map_of (gd_members generation) c = bt_get (gd_members generation) c" for c
    using inv dist by (metis bt_get_in map_of_eq_Some_iff not_Some_eq)
  note all = convert_members_get [OF ms(1) bt_inv_Nil dist]
  show "bt_inv (g_members g)" using all ms(2) by blast
  note at = all [THEN conjunct2, THEN spec, of c, unfolded get]
  show "bt_get (g_members g) c \<noteq> None \<longleftrightarrow> bt_get (gd_members generation) c \<noteq> None \<and>
       is_some_and (bt_get members c) (\<lambda>member. \<not> member_doc_is_expired now_ms member)"
    using at ms(2) by (auto split: option.splits if_splits)
  assume "bt_get (g_members g) c = Some m"
  then obtain ref where "converts_to generation members (assignment_of generation assignment) (topics_by_name g) now_ms c ref m"
    using at ms(2) by (auto split: option.splits if_splits)
  then show "member_epoch m = gd_generation_id generation \<and> member_state m = Stable \<and>
       pending_revocation m = [] \<and> target m = assigned m \<and>
       pairs (assigned m) = classically_assigned (assignment_of generation assignment) (topics_by_name g) c"
    using classic_assigned_pairs by (auto simp: converts_to_def)
qed

text \<open>
  A world a conversion starts: the converted group is stored, every classic member consumes at most from what the
  assignment of its generation gave it, and the leader that computed it gave no partition to two members.
\<close>

definition conversion_world :: "consumer_group \<Rightarrow> (member_id \<Rightarrow> (topic_id \<times> int) set) \<Rightarrow> group_world" where
  "conversion_world g own = \<lparr> w_doc = Some (bumped g, 0), w_versions = 1, w_own = own, w_flight = (\<lambda>_. None) \<rparr>"

definition sound_conversion :: "generation_doc \<Rightarrow> assignment_doc option \<Rightarrow> resolved \<Rightarrow> consumer_group option \<Rightarrow> consumer_group \<Rightarrow>
    (member_id \<Rightarrow> (topic_id \<times> int) set) \<Rightarrow> bool" where
  "sound_conversion generation assignment res held g own \<longleftrightarrow>
     bt_inv (gd_members generation) \<and> 0 \<le> gd_generation_id generation \<and> gd_generation_id generation \<le> EPOCH_MAX \<and>
     is_none_or held (\<lambda>g. group_epoch g \<le> EPOCH_MAX) \<and> (\<forall>(name, t, n) \<in> set res. 0 \<le> n) \<and>
     (let given = classically_assigned (assignment_of generation assignment) (topics_by_name g) in
      (\<forall>c \<in> set (map fst (g_members g)). own c \<subseteq> given c \<and> (\<forall>(t, p) \<in> given c. 0 \<le> p) \<and>
         (\<forall>d \<in> set (map fst (g_members g)). c \<noteq> d \<longrightarrow> given c \<inter> given d = {})))"

lemma conversion_tracks:
  assumes conv: "from_classic generation members assignment res held now_ms = Inr g"
    and sound: "sound_conversion generation assignment res held g own"
  shows "tracks own g"
proof -
  obtain ms where e: "topics g = resolved_topics res" "group_epoch g = assignment_epoch g"
      "assignment_epoch g = max (gd_generation_id generation) (case held of None \<Rightarrow> 0 | Some g \<Rightarrow> group_epoch g)"
    by (rule from_classic_elim [OF conv])
  have inv: "bt_inv (gd_members generation)" using sound by (simp add: sound_conversion_def)
  note m = conversion_members [OF conv inv]
  let ?given = "classically_assigned (assignment_of generation assignment) (topics_by_name g)"
  have key: "c \<in> set (map fst (g_members g))" if "bt_get (g_members g) c = Some mc" for c mc
    using that by (force simp: bt_get_in [OF m(1)])
  have own: "own c \<subseteq> ?given c" "\<forall>(t, p) \<in> ?given c. 0 \<le> p" if "bt_get (g_members g) c = Some mc" for c mc
    using key [OF that] sound unfolding sound_conversion_def Let_def by blast+
  have apart: "?given c \<inter> ?given d = {}"
    if "bt_get (g_members g) c = Some mc" "bt_get (g_members g) d = Some md" "c \<noteq> d" for c d mc md
    using key [OF that(1)] key [OF that(2)] that(3) sound unfolding sound_conversion_def Let_def by blast
  have epoch: "0 \<le> assignment_epoch g" "assignment_epoch g \<le> EPOCH_MAX" "gd_generation_id generation \<le> assignment_epoch g"
    using sound by (auto simp: e(3) sound_conversion_def is_none_or_def EPOCH_MAX_def split: option.splits)
  have held: "held_by mc = ?given c" "targets mc = ?given c" if "bt_get (g_members g) c = Some mc" for c mc
    using m(3) [OF that] by (simp_all add: held_by_def targets_def)
  have mi: "member_inv (assignment_epoch g) mc" if "bt_get (g_members g) c = Some mc" for c mc
    using m(3) [OF that] own(2) [OF that] epoch(3) by (auto simp: member_inv_def)
  have ap: "apart held_by (g_members g)" "apart targets (g_members g)"
    unfolding apart_def by (metis apart held(1)) (metis apart held(2))
  have ow: "own c \<subseteq> held_by mc" if "bt_get (g_members g) c = Some mc" for c mc
    using own(1) [OF that] held(1) [OF that] by simp
  have "\<forall>(name, t, n) \<in> set res. 0 \<le> n" using sound by (simp add: sound_conversion_def)
  note wf = resolved_topics_wf [OF this]
  have "group_inv g" unfolding group_inv_def e(1) by (intro conjI m(1) wf e(2) epoch(1,2) ap) (use mi in blast)
  then show ?thesis using ow by (simp add: tracks_def)
qed

lemma conversion_world_inv:
  assumes "from_classic generation members assignment res held now_ms = Inr g"
    and "sound_conversion generation assignment res held g own"
  shows "world_inv decides (conversion_world g own)"
  using conversion_tracks [OF assms] by (simp add: world_inv_def conversion_world_def)

section \<open>A classic group that migrates\<close>

text \<open>A group to run: the classic member \<open>a\<close> has both partitions of a topic when \<open>b\<close> joins with the consumer protocol.\<close>

definition sample_subscription :: "int list \<Rightarrow> bytes" where
  "sample_subscription ps = (case MemberMetadata_encode \<lparr> mm_version = 1, mm_subscription = \<lparr> cs_topics = [''t''], cs_user_data = None,
     cs_owned_partitions = Some [\<lparr> tp_topic = ''t'', tp_partitions = ps \<rparr>], cs_generation_id = None, cs_rack_id = None \<rparr> \<rparr> of
     Inl _ \<Rightarrow> [] | Inr bs \<Rightarrow> bs)"

definition sample_generation :: generation_doc where
  "sample_generation = \<lparr> gd_seq = 4, gd_generation_id = 5, gd_protocol_type = Some ''consumer'', gd_protocol_name = Some ''range'',
     gd_leader = Some ''a'', gd_members = [(''a'', \<lparr> mr_group_instance_id = None \<rparr>)], gd_members_changed_at_ms = 0,
     gd_state_since_ms = 0, gd_swept_at_ms = 0, gd_session_timeout_ms = 45000, gd_rebalance_timeout_ms = Some 60000,
     gd_skip_assignment = None, gd_inception_ms = 0, gd_consumer_since_ms = Some 900 \<rparr>"

definition sample_documents :: "(member_id, member_doc) btree" where
  "sample_documents = [(''a'', \<lparr> md_seq = 1, md_last_contact_ms = 900, md_session_timeout_ms = 45000, md_rebalance_timeout_ms = Some 60000,
     md_group_instance_id = None, md_protocol_name = Some ''range'',
     md_join_response = \<lparr> jr_member_id = ''a'', jr_group_instance_id = None, jr_metadata = sample_subscription [] \<rparr> \<rparr>)]"

definition sample_assignment :: assignment_doc where
  "sample_assignment = \<lparr> ad_generation_id = 5, ad_leader = ''a'', ad_protocol_type = ''consumer'', ad_protocol_name = ''range'',
     ad_assignments = [(''a'', case MemberAssignment_encode \<lparr> ma_version = 1,
       ma_assigned_partitions = [\<lparr> tp_topic = ''t'', tp_partitions = [0, 1] \<rparr>], ma_user_data = None \<rparr> of Inl _ \<Rightarrow> [] | Inr bs \<Rightarrow> bs)],
     ad_assigned_at_ms = 0 \<rparr>"

definition sample_own :: "member_id \<Rightarrow> (topic_id \<times> int) set" where
  "sample_own c = (if c = ''a'' then {([7], 0), ([7], 1)} else {})"

definition sample_converted :: consumer_group where
  "sample_converted = (case from_classic sample_generation sample_documents (Some sample_assignment) [(''t'', [7], 2)] None 1000 of
     Inl _ \<Rightarrow> group_default | Inr g \<Rightarrow> g)"

definition sample_rejoin :: "int list \<Rightarrow> classic_join_request" where
  "sample_rejoin ps = \<lparr> cj_member_id = ''a'', cj_instance_id = None, cj_session_timeout_ms = 45000, cj_rebalance_timeout_ms = Some 60000,
     cj_protocol_type = ''consumer'', cj_protocols = [(''range'', sample_subscription ps)] \<rparr>"

definition sample_liveness :: liveness where "sample_liveness = \<lparr> contacts = [], listed = True \<rparr>"
definition sample_client :: client where "sample_client = \<lparr> c_id = ''c'', c_host = ''/10.0.0.2'' \<rparr>"

definition after_join :: "int list \<Rightarrow> group_world \<Rightarrow> group_world" where
  "after_join ps w = (case classic_join sample_compiler [] (map_option fst (w_doc w)) (sample_rejoin ps) sample_client (Some [(''t'', [7], 2)])
     sample_liveness config_default 1000 of
       Inl _ \<Rightarrow> w
     | Inr tr \<Rightarrow> serve (tr_member_id tr) \<lparr> d_group = tr_group tr, d_changed = tr_changed tr, d_told = {} \<rparr> (w_own w (tr_member_id tr)) w)"

definition after_sync :: "int \<Rightarrow> group_world \<Rightarrow> group_world" where
  "after_sync epoch w = (case classic_sync sample_compiler (map_option fst (w_doc w)) ''a'' None epoch (None, Some ''range'')
     sample_liveness 1000 of
       Inl _ \<Rightarrow> w
     | Inr tr \<Rightarrow>
         (let given = (case bt_get (g_members (tr_group tr)) ''a'' of None \<Rightarrow> {} | Some m \<Rightarrow> pairs (assigned m))
          in serve ''a'' \<lparr> d_group = tr_group tr, d_changed = tr_changed tr, d_told = given \<rparr> given w))"

definition join_is_honest :: "int list \<Rightarrow> group_world \<Rightarrow> bool" where
  "join_is_honest ps w = honest_join (w_own w ''a'') ''a'' (sample_rejoin ps) (Some [(''t'', [7], 2)]) sample_liveness 1000
     (unwrap_or (group_default\<lparr>created_ms := 1000\<rparr>) (map_option fst (w_doc w)))"

definition joins_as_a :: "int list \<Rightarrow> group_world \<Rightarrow> bool" where
  "joins_as_a ps w = (case classic_join sample_compiler [] (map_option fst (w_doc w)) (sample_rejoin ps) sample_client (Some [(''t'', [7], 2)])
     sample_liveness config_default 1000 of Inl _ \<Rightarrow> False | Inr tr \<Rightarrow> tr_member_id tr = ''a'')"

lemma after_join_steps:
  assumes "join_is_honest ps w" and "joins_as_a ps w"
  shows "(world_step (group_decides sample_compiler))\<^sup>*\<^sup>* w (after_join ps w)"
proof -
  obtain tr where tr: "classic_join sample_compiler [] (map_option fst (w_doc w)) (sample_rejoin ps) sample_client (Some [(''t'', [7], 2)])
      sample_liveness config_default 1000 = Inr tr" "tr_member_id tr = ''a''"
    using assms(2) by (auto simp: joins_as_a_def split: sum.splits)
  let ?d = "\<lparr> d_group = tr_group tr, d_changed = tr_changed tr, d_told = {} \<rparr>"
  have "join_decides sample_compiler (w_own w ''a'') ''a'' (map_option fst (w_doc w)) ?d"
    unfolding join_decides_def using tr assms(1) unfolding join_is_honest_def
    by (intro exI [of _ "[]"] exI [of _ "sample_rejoin ps"] exI [of _ sample_client] exI [of _ "Some [(''t'', [7], 2)]"]
        exI [of _ sample_liveness] exI [of _ config_default] exI [of _ 1000] exI [of _ tr])
      (simp add: wf_resolved_def is_none_or_def)
  then have "(world_step (group_decides sample_compiler))\<^sup>*\<^sup>* w (serve ''a'' ?d (w_own w ''a'') w)"
    by (intro serve_steps) (simp_all add: group_decides_def)
  then show ?thesis using tr by (simp add: after_join_def)
qed

lemma after_sync_steps: "(world_step (group_decides sample_compiler))\<^sup>*\<^sup>* w (after_sync epoch w)"
proof (cases "classic_sync sample_compiler (map_option fst (w_doc w)) ''a'' None epoch (None, Some ''range'') sample_liveness 1000")
  case (Inl e)
  then show ?thesis by (simp add: after_sync_def)
next
  case (Inr tr)
  let ?given = "case bt_get (g_members (tr_group tr)) ''a'' of None \<Rightarrow> {} | Some m \<Rightarrow> pairs (assigned m)"
  let ?d = "\<lparr> d_group = tr_group tr, d_changed = tr_changed tr, d_told = ?given \<rparr>"
  have sync: "sync_decides sample_compiler (w_own w ''a'') ''a'' (map_option fst (w_doc w)) ?d"
    unfolding sync_decides_def using Inr by blast
  have "(world_step (group_decides sample_compiler))\<^sup>*\<^sup>* w (serve ''a'' ?d ?given w)"
    using sync by (intro serve_steps) (simp_all add: group_decides_def)
  then show ?thesis using Inr by (simp add: after_sync_def Let_def)
qed

lemma beat_steps:
  assumes "honest (w_own w (b_sender b)) (b_request b)" and "wf_resolved (b_resolved b)"
  shows "(world_step (group_decides compile))\<^sup>*\<^sup>* w (exchange compile b w)"
proof -
  have "world_step (heartbeat_decides compile) \<le> world_step (group_decides compile)"
    by (intro predicate2I, erule world_step_mono) (simp add: group_decides_def)
  from rtranclp_mono [OF this] exchange_steps [OF assms, of compile] show ?thesis by (rule predicate2D)
qed

definition migration_1 :: group_world where "migration_1 = exchange sample_compiler (sample_beat ''b'' 0 (Some [''t'']) []) (conversion_world sample_converted sample_own)"
definition migration_2 :: group_world where "migration_2 = after_sync 5 (after_join [0, 1] migration_1)"
definition migration_3 :: group_world where "migration_3 = after_join [1] migration_2"
definition migration_4 :: group_world where "migration_4 = exchange sample_compiler (sample_beat ''b'' 6 None []) (after_sync 6 migration_3)"


lemma sample_conversion:
  "from_classic sample_generation sample_documents (Some sample_assignment) [(''t'', [7], 2)] None 1000 = Inr sample_converted"
proof -
  have "\<not> isl (from_classic sample_generation sample_documents (Some sample_assignment) [(''t'', [7], 2)] None 1000)" by code_simp
  then show ?thesis by (auto simp: sample_converted_def isl_def split: sum.splits)
qed

lemma sample_conversion_sound:
  "sound_conversion sample_generation (Some sample_assignment) [(''t'', [7], 2)] None sample_converted sample_own"
proof -
  have keys: "map fst (g_members sample_converted) = [''a'']" by code_simp
  have "map_option assigned (bt_get (g_members sample_converted) ''a'') = Some [([7], [0, 1])]" by code_simp
  then obtain m where m: "bt_get (g_members sample_converted) ''a'' = Some m" "assigned m = [([7], [0, 1])]" by auto
  have inv: "bt_inv (gd_members sample_generation)" by code_simp
  have "classically_assigned (assignment_of sample_generation (Some sample_assignment)) (topics_by_name sample_converted) ''a'' = sample_own ''a''"
    using conversion_members(3) [OF sample_conversion inv m(1)] m(2) by (auto simp: sample_own_def pairs_def)
  then show ?thesis
    using inv unfolding sound_conversion_def keys
    by (simp add: sample_generation_def is_none_or_def EPOCH_MAX_def sample_own_def)
qed

lemma migration_steps: "(world_step (group_decides sample_compiler))\<^sup>*\<^sup>* (conversion_world sample_converted sample_own) migration_4"
proof -
  have h1: "honest (w_own (conversion_world sample_converted sample_own) (b_sender (sample_beat ''b'' 0 (Some [''t'']) [])))
      (b_request (sample_beat ''b'' 0 (Some [''t'']) []))" "wf_resolved (b_resolved (sample_beat ''b'' 0 (Some [''t'']) []))"
    by code_simp+
  have h2: "join_is_honest [0, 1] migration_1" "joins_as_a [0, 1] migration_1" by code_simp+
  have h3: "join_is_honest [1] migration_2" "joins_as_a [1] migration_2" by code_simp+
  have h4: "honest (w_own (after_sync 6 migration_3) (b_sender (sample_beat ''b'' 6 None []))) (b_request (sample_beat ''b'' 6 None []))"
    "wf_resolved (b_resolved (sample_beat ''b'' 6 None []))" by code_simp+
  note s1 = beat_steps [OF h1, of sample_compiler, folded migration_1_def]
  note s2 = rtranclp_trans [OF after_join_steps [OF h2] after_sync_steps [of _ 5], folded migration_2_def]
  note s3 = after_join_steps [OF h3, folded migration_3_def]
  note s4 = rtranclp_trans [OF after_sync_steps [of migration_3 6] beat_steps [OF h4, of sample_compiler], folded migration_4_def]
  show ?thesis by (rule rtranclp_trans [OF rtranclp_trans [OF s1 s2] rtranclp_trans [OF s3 s4]])
qed


text \<open>
  C39. The conversion itself moves no partition. The consumer group a classic group becomes has exactly the members of the
  generation whose documents are there and not lapsed; each starts stable at the classic generation, with exactly the
  partitions the assignment of that generation gave it, on topics that still exist, both held and aimed at; and the epoch of
  the group falls behind neither the classic generation nor the consumer group stored before.
\<close>

theorem conversion_moves_nothing:
  assumes "from_classic generation members assignment res held now_ms = Inr g" and "bt_inv (gd_members generation)"
  shows "(bt_get (g_members g) c \<noteq> None \<longleftrightarrow> bt_get (gd_members generation) c \<noteq> None \<and>
       is_some_and (bt_get members c) (\<lambda>member. \<not> member_doc_is_expired now_ms member)) \<and>
     (\<forall>m. bt_get (g_members g) c = Some m \<longrightarrow> member_epoch m = gd_generation_id generation \<and> member_state m = Stable \<and>
       target m = assigned m \<and>
       pairs (assigned m) = {(t, p). \<exists>a bs ma tp. assignment = Some a \<and> ad_generation_id a = gd_generation_id generation \<and>
         bt_get (ad_assignments a) c = Some bs \<and> MemberAssignment_decode bs = Inr ma \<and> tp \<in> set (ma_assigned_partitions ma) \<and>
         bt_get (topics_by_name g) (tp_topic tp) = Some t \<and> p \<in> set (tp_partitions tp)}) \<and>
     gd_generation_id generation \<le> group_epoch g \<and> (\<forall>h. held = Some h \<longrightarrow> group_epoch h \<le> group_epoch g)"
proof -
  obtain ms where e: "group_epoch g = assignment_epoch g"
      "assignment_epoch g = max (gd_generation_id generation) (case held of None \<Rightarrow> 0 | Some g \<Rightarrow> group_epoch g)"
    by (rule from_classic_elim [OF assms(1)])
  have "classically_assigned (assignment_of generation assignment) (topics_by_name g) c =
      {(t, p). \<exists>a bs ma tp. assignment = Some a \<and> ad_generation_id a = gd_generation_id generation \<and>
         bt_get (ad_assignments a) c = Some bs \<and> MemberAssignment_decode bs = Inr ma \<and> tp \<in> set (ma_assigned_partitions ma) \<and>
         bt_get (topics_by_name g) (tp_topic tp) = Some t \<and> p \<in> set (tp_partitions tp)}"
    by (auto simp: classically_assigned_def assignment_of_def split: option.splits if_splits)
  then show ?thesis using conversion_members(2,3) [OF assms, of c] e by auto
qed

theorem conversion_moves_nothing_witness:
  "\<exists>m. bt_get (g_members sample_converted) ''a'' = Some m \<and> member_epoch m = 5 \<and> target m = assigned m \<and> pairs (assigned m) = {([7], 0), ([7], 1)}"
proof -
  have "map_option assigned (bt_get (g_members sample_converted) ''a'') = Some [([7], [0, 1])]" by code_simp
  then obtain m where m: "bt_get (g_members sample_converted) ''a'' = Some m" "assigned m = [([7], [0, 1])]" by auto
  have inv: "bt_inv (gd_members sample_generation)" by code_simp
  have "pairs (assigned m) = {([7], 0), ([7], 1)}" by (auto simp: m(2) pairs_def)
  moreover have "gd_generation_id sample_generation = 5" by (simp add: sample_generation_def)
  ultimately show ?thesis using conversion_moves_nothing [OF sample_conversion inv, of "''a''"] m(1) by auto
qed

section \<open>The loops of the coordinator end\<close>

lemma complete_conversion_ends:
  "length as > MAX_GENERATION_CAS_ATTEMPTS - conflicts \<Longrightarrow> \<exists>r. complete_conversion generation conflicts as = Some r"
proof (induction generation conflicts as rule: complete_conversion.induct)
  case (2 generation conflicts a as)
  show ?case
  proof (cases "converted (cv_store a) generation (cv_held a) (cv_now_ms a)")
    case (Inr g)
    then show ?thesis using 2 by (cases "cv_update a") auto
  qed simp
qed simp

lemma complete_conversion_writes:
  "complete_conversion generation conflicts as = Some (Complete (Some g)) \<Longrightarrow>
    classic_generation g = Some (gd_generation_id generation) \<and> gd_generation_id generation \<le> group_epoch g"
proof (induction generation conflicts as rule: complete_conversion.induct)
  case (2 generation conflicts a as)
  show ?case
  proof (cases "converted (cv_store a) generation (cv_held a) (cv_now_ms a)")
    case (Inr g1)
    have "classic_generation g1 = Some (gd_generation_id generation) \<and> gd_generation_id generation \<le> group_epoch g1"
      using Inr unfolding converted_def Let_def by (rule from_classic_elim) simp
    then show ?thesis using 2 Inr by (auto simp: bumped_def split: if_splits update_answer.splits)
  qed (use 2 in \<open>auto split: if_splits\<close>)
qed simp

lemma convert_ends:
  assumes "length as > MAX_GENERATION_CAS_ATTEMPTS"
  shows "\<exists>r. convert config generation now_ms store mark as = Some r"
proof -
  obtain r where "complete_conversion (generation\<lparr>gd_consumer_since_ms := Some now_ms\<rparr>) 0 as = Some r"
    using complete_conversion_ends assms by (metis diff_zero)
  then show ?thesis by (auto simp: convert_def Let_def split: sum.splits update_answer.splits)
qed

lemma admission_ends:
  assumes "length as \<ge> n" and "\<And>a. a \<in> set as \<Longrightarrow> length (am_completion a) > MAX_GENERATION_CAS_ATTEMPTS"
  shows "\<exists>r. consumer_join_admission config n as = Some r"
  using assms
proof (induction config n as rule: consumer_join_admission.induct)
  case (3 config n a as)
  have long: "length (am_completion a) > MAX_GENERATION_CAS_ATTEMPTS" using 3(3) by simp
  obtain r1 where r1: "complete_conversion (am_generation a) 0 (am_completion a) = Some r1"
    using complete_conversion_ends long by (metis diff_zero)
  obtain r2 where r2: "convert config (am_generation a) (am_now_ms a) (am_store a) (am_mark a) (am_completion a) = Some r2"
    using convert_ends [OF long] by blast
  show ?case using 3 r1 r2 by (cases r2) (auto split: conversion.splits)
qed simp_all

end
