(* ===== verification/Spec2Isabelle.thy ===== *)
theory Spec2Isabelle
  imports ExactlyOnce Acl Quota Transaction Migration
begin

text \<open>
  A verification library for kodansu, a Kafka-compatible broker that keeps its log in an object
  store. Topics that share a prefix are written into common segment objects; replicas append without
  a lease, each by a create-only PUT at the next free sequence, and the PUT that wins decides the
  offsets.

  \<^bold>\<open>Theories, in the order of the code.\<close>

  \<^item> \<open>Prelude\<close>: results as sums, machine integers as bounded \<open>int\<close>, big-endian bytes, and the locales
    \<open>plain_codec\<close> and \<open>stream_codec\<close> for encoders and decoders.

  \<^item> \<open>Varint\<close>: \<open>tansu-sans-io/src/primitive/varint.rs\<close>.

  \<^item> \<open>RecordCodec\<close>: \<open>record.rs\<close>, \<open>record/header.rs\<close> and the codecs of \<open>record/codec.rs\<close>.

  \<^item> \<open>RecordBatch\<close>: \<open>record/deflated.rs\<close> and the compaction of \<open>record/inflated.rs\<close>. The checksum and
    the compressors are parameters.

  \<^item> \<open>SegmentFormat\<close>: segments, footers in four layouts, frames and regions, \<open>dynostore/codec.rs\<close>.

  \<^item> \<open>ProducerTail\<close>: idempotent produce from the log, \<open>dynostore/codec.rs\<close> and the plan of a flush in
    \<open>dynostore/coalesce.rs\<close>.

  \<^item> \<open>BTreeMap\<close> and \<open>PrefixIndex\<close>: the cached footers of a prefix and the epoch-fenced view,
    \<open>dynostore/index.rs\<close>.

  \<^item> \<open>Arbiter\<close>: names, floors, creates and retirement, \<open>dynostore/segments.rs\<close>.

  \<^item> \<open>CoalescedLog\<close> and \<open>ExactlyOnce\<close>: one flush, and the log that concurrent replicas build.

  \<^item> \<open>Assignor\<close>: the range and uniform assignors of server-side consumer groups,
    \<open>tansu-broker/src/coordinator/group/assignor.rs\<close>. The loop that balances the uniform assignment
    ends because each move lowers the sum of the squared loads.

  \<^item> \<open>OptiCon\<close>: a JSON document edited under compare-and-swap, \<open>dynostore/opticon.rs\<close>, as a step
    relation of any number of tasks on any number of handles over one stored object. Its locale
    \<open>document_invariant\<close> carries an invariant of the edits to the document the tasks build.

  \<^item> \<open>Document\<close>: the plain reads and writes of \<open>dynostore/object.rs\<close>, the bounded read-modify-write
    loop of \<open>dynostore/principals.rs\<close> and the bulk delete with its fallback.

  \<^item> \<open>Acl\<close>: rules, filters and decisions of \<open>acl.rs\<close>, the snapshot of \<open>authorizer.rs\<close>, and the create,
    delete and describe services.

  \<^item> \<open>Quota\<close>: the quota document of \<open>quota.rs\<close> and the token buckets of \<open>enforcer.rs\<close>.

  \<^item> \<open>Transaction\<close>: the transactions of the cluster document, \<open>dynostore/txn.rs\<close> and the type \<open>Meta\<close> of
    \<open>dynostore.rs\<close>, with every closure that edits it, and the stage a read-committed fetch is given.
    Runs of the document are those of \<open>OptiCon\<close>. \<open>InitProducerId\<close> takes the depth of its recursion as
    fuel; depth two is shown to be enough.

  \<^item> \<open>GroupDoc\<close>: the documents of a classic group, \<open>tansu-storage/src/group.rs\<close>.

  \<^item> \<open>ConsumerGroup\<close>: groups of the consumer protocol, \<open>tansu-storage/src/consumer_group.rs\<close> and
    \<open>coordinator/group/consumer.rs\<close>, with the retry loop of \<open>administrator.rs\<close>. Its locale
    \<open>partition_assignor\<close> is the contract of an assignor.

  \<^item> \<open>GroupWorld\<close>: replicas deciding requests on the stored group while members act on the answers they
    receive, as a step relation. Its locale \<open>group_service\<close> says what every decision must keep.

  \<^item> \<open>ConsumerProtocol\<close>: the subscriptions and assignments classic members exchange as opaque bytes,
    \<open>tansu-sans-io/src/consumer.rs\<close> and \<open>consumer/codec.rs\<close>.

  \<^item> \<open>Migration\<close>: a classic group converted to a consumer group and the classic members it serves,
    \<open>coordinator/group/migration.rs\<close> and the conversion in \<open>administrator.rs\<close>.

  \<^bold>\<open>Conventions.\<close> An \<open>Err\<close> is \<^const>\<open>Inl\<close>; a panic is an error value of its own. Integers are kept
  within their width by hypotheses \<open>fits_s\<close> and \<open>fits_u\<close> or as words where they wrap. Answers of the
  object store and readings of the clock are arguments. Asynchrony is interleaving of the steps of
  the state machines. Times and rates of the quota enforcer are rationals, without the rounding of
  \<open>f64\<close>.
\<close>

end
